(* ===== verification/Prelude.thy ===== *)
theory Prelude
  imports Main "HOL-Library.Word"
begin

text \<open>
  What every component shares: the machine integers of the C sources, bytes and C strings,
  the faults a C operation can run into, the byte store that pointers address, and the
  generic lemmas on lists, words and stores that the component theories use.
\<close>

unbundle bit_operations_syntax

section \<open>Types of the C sources\<close>

type_synonym u8 = "8 word"
type_synonym u16 = "16 word"
type_synonym u32 = "32 word"
type_synonym u64 = "64 word"

text \<open>
  A byte is a \<^typ>\<open>char\<close>; a C string is the list of its bytes before the terminating NUL;
  a pointer is a natural number with 0 for NULL. Where the code only tests a pointer for NULL,
  the model uses \<open>option\<close>.
\<close>

type_synonym byte = char
type_synonym cstring = string
type_synonym addr = nat
type_synonym store = "addr \<Rightarrow> byte"

abbreviation NUL :: byte where
  "NUL \<equiv> CHR 0x00"

text \<open>
  What the C standard leaves undefined, and what stops the process, is a value of its own
  (\<open>Inl\<close>), so that no theorem about a result can hide it. There is one exception, which
  \<open>Cache\<close> states at its definition: the NUL of a 32-byte key is written behind the key's
  array onto the next member of the same record, and the model follows the layout of the
  record instead of stopping. Theorems that say that no fault occurs are about shorter keys.
\<close>

datatype c_fault =
    Out_Of_Bounds
  | Null_Pointer
  | Division_By_Zero
  | Uninitialised
  | Assertion
  | Process_Exit int

type_synonym 'a c_result = "c_fault + 'a"

named_theorems ll_simps \<open>linked lists seen as HOL lists\<close>
named_theorems slot_simps \<open>allocation bits of a slab\<close>
named_theorems store_simps \<open>reads and writes of the byte store\<close>
named_theorems cache_intros \<open>invariant preservation of cache operations\<close>

section \<open>C strings\<close>

definition cstring_ok :: "cstring \<Rightarrow> bool" where
  "cstring_ok s \<longleftrightarrow> NUL \<notin> set s"

definition strlen :: "cstring \<Rightarrow> nat" where
  "strlen s = length s"

text \<open>The C string that starts a byte buffer: the bytes before the first NUL.\<close>

definition cstr :: "byte list \<Rightarrow> cstring" where
  "cstr bs = takeWhile (\<lambda>b. b \<noteq> NUL) bs"

lemma cstr_ok [simp]: "cstring_ok (cstr bs)"
  by (auto simp: cstring_ok_def cstr_def dest: set_takeWhileD)

lemma cstr_terminated [simp]: "cstring_ok s \<Longrightarrow> cstr (s @ NUL # bs) = s"
  unfolding cstring_ok_def cstr_def by (induction s) auto

lemma cstr_id [simp]: "cstring_ok s \<Longrightarrow> cstr s = s"
  unfolding cstring_ok_def cstr_def by (induction s) auto

lemma cstring_ok_append [simp]: "cstring_ok (s @ t) \<longleftrightarrow> cstring_ok s \<and> cstring_ok t"
  by (auto simp: cstring_ok_def)

lemma cstring_ok_Nil [simp]: "cstring_ok []"
  by (simp add: cstring_ok_def)

lemma cstring_ok_Cons [simp]: "cstring_ok (c # s) \<longleftrightarrow> c \<noteq> NUL \<and> cstring_ok s"
  by (auto simp: cstring_ok_def)

section \<open>The byte store\<close>

text \<open>\<open>memcpy\<close> into the store, and the bytes of a block.\<close>

definition memcpy :: "store \<Rightarrow> addr \<Rightarrow> byte list \<Rightarrow> store" where
  "memcpy m a bs = (\<lambda>x. if a \<le> x \<and> x < a + length bs then bs ! (x - a) else m x)"

definition load :: "store \<Rightarrow> addr \<Rightarrow> nat \<Rightarrow> byte list" where
  "load m a n = map (\<lambda>i. m (a + i)) [0..<n]"

definition disjoint_blocks :: "addr \<Rightarrow> nat \<Rightarrow> addr \<Rightarrow> nat \<Rightarrow> bool" where
  "disjoint_blocks a n b k \<longleftrightarrow> a + n \<le> b \<or> b + k \<le> a"

lemma length_load [simp]: "length (load m a n) = n"
  by (simp add: load_def)

lemma nth_load [simp]: "i < n \<Longrightarrow> load m a n ! i = m (a + i)"
  by (simp add: load_def)

lemma load_memcpy_same [store_simps]: "load (memcpy m a bs) a (length bs) = bs"
  by (rule nth_equalityI) (simp_all add: memcpy_def)

lemma load_memcpy_other [store_simps]:
  "disjoint_blocks a (length bs) b n \<Longrightarrow> load (memcpy m a bs) b n = load m b n"
  by (rule nth_equalityI) (auto simp: memcpy_def disjoint_blocks_def)

lemma disjoint_blocks_sym: "disjoint_blocks a n b k \<longleftrightarrow> disjoint_blocks b k a n"
  by (auto simp: disjoint_blocks_def)

lemma disjoint_blocks_mono:
  "\<lbrakk> disjoint_blocks a n b k; n' \<le> n; k' \<le> k \<rbrakk> \<Longrightarrow> disjoint_blocks a n' b k'"
  by (auto simp: disjoint_blocks_def)

text \<open>
  \<open>strlen_at m a n\<close>: the string that starts at address \<open>a\<close> has length \<open>n\<close>, that is,
  \<open>strlen\<close> of that pointer returns \<open>n\<close>.
\<close>

definition strlen_at :: "store \<Rightarrow> addr \<Rightarrow> nat \<Rightarrow> bool" where
  "strlen_at m a n \<longleftrightarrow> m (a + n) = NUL \<and> list_all (\<lambda>i. m (a + i) \<noteq> NUL) [0..<n]"

lemma strlen_at_load:
  "strlen_at m a n \<longleftrightarrow> (\<exists>s. cstring_ok s \<and> length s = n \<and> load m a (Suc n) = s @ [NUL])"
proof
  assume "strlen_at m a n"
  then show "\<exists>s. cstring_ok s \<and> length s = n \<and> load m a (Suc n) = s @ [NUL]"
    by (intro exI [of _ "load m a n"])
      (auto simp: strlen_at_def cstring_ok_def list_all_iff load_def)
next
  assume "\<exists>s. cstring_ok s \<and> length s = n \<and> load m a (Suc n) = s @ [NUL]"
  then obtain s where s: "NUL \<notin> set s" "length s = n" "load m a (Suc n) = s @ [NUL]"
    by (auto simp: cstring_ok_def)
  have eq: "m (a + i) = (s @ [NUL]) ! i" if "i \<le> n" for i
    using nth_load [of i "Suc n" m a] that s(3) by simp
  have "m (a + i) \<noteq> NUL" if "i < n" for i
  proof -
    have "m (a + i) = s ! i"
      using eq [of i] that s(2) by (simp add: nth_append)
    moreover have "s ! i \<in> set s"
      using that s(2) by simp
    ultimately show ?thesis
      using s(1) by metis
  qed
  moreover have "m (a + n) = NUL"
    using eq [of n] s(2) by (simp add: nth_append)
  ultimately show "strlen_at m a n"
    by (simp add: strlen_at_def list_all_iff)
qed

section \<open>Options and lists\<close>

lemma option_ext: "(\<And>x. a = Some x \<longleftrightarrow> b = Some x) \<Longrightarrow> a = b"
  by (cases a; cases b) auto

lemma map_sum_eq_Inr: "map_sum f g s = Inr y \<longleftrightarrow> (\<exists>x. s = Inr x \<and> g x = y)"
  by (cases s) auto

lemma find_None_iff_all: "List.find P xs = None \<longleftrightarrow> (\<forall>x\<in>set xs. \<not> P x)"
  by (induction xs) auto

lemma find_Some_mem: "List.find P xs = Some x \<Longrightarrow> x \<in> set xs \<and> P x"
  by (induction xs) (auto split: if_splits)

lemma find_append [simp]:
  "List.find P (xs @ ys) = (case List.find P xs of None \<Rightarrow> List.find P ys | Some x \<Rightarrow> Some x)"
  by (induction xs) auto

lemma concat_list_update_split:
  "i < length xss \<Longrightarrow> concat xss = concat (take i xss) @ xss ! i @ concat (drop (Suc i) xss)"
  by (metis concat.simps(2) concat_append id_take_nth_drop)

lemma concat_list_update:
  "i < length xss \<Longrightarrow> concat (xss[i := ys]) = concat (take i xss) @ ys @ concat (drop (Suc i) xss)"
  by (simp add: upd_conv_take_nth_drop)

lemma length_fold_update [simp]: "length (fold (\<lambda>i xs. xs[i := v]) is xs) = length xs"
  by (induction "is" arbitrary: xs) auto

lemma nth_fold_update:
  "i < length xs \<Longrightarrow> fold (\<lambda>i xs. xs[i := v]) is xs ! i = (if i \<in> set is then v else xs ! i)"
  by (induction "is" arbitrary: xs) auto

end
