(* ===== verification/Slab_Bits.thy ===== *)
theory Slab_Bits
  imports Prelude
begin

text \<open>
  The allocation bitmap of a slab (\<open>uint32_t status[512]\<close> in \<open>tools/slabs.c\<close>): bit
  \<open>k mod 32\<close> of word \<open>k div 32\<close>, counted from the most significant bit, is set when entry
  \<open>k\<close> is in use. The lemmas relate the word operations of the code to that reading.
\<close>

section \<open>Operations on the status words\<close>

definition toggle_bit :: "u32 list \<Rightarrow> nat \<Rightarrow> u32 list" where
  "toggle_bit status b =
     (let chunk = b div 32; index = b mod 32
      in status[chunk := (status ! chunk) XOR drop_bit index 0x80000000])"

text \<open>\<open>__builtin_clz\<close> on a nonzero word: the number of leading zero bits.\<close>

definition builtin_clz :: "u32 \<Rightarrow> nat" where
  "builtin_clz w = length (takeWhile (\<lambda>j. \<not> bit w (31 - j)) [0..<32])"

text \<open>
  \<open>get_free_index\<close>: 0 when every entry is in use, else the index of the first free entry
  plus one. The loop runs over the words with their position.
\<close>

fun get_free_index_loop :: "u32 list \<Rightarrow> nat \<Rightarrow> nat" where
  "get_free_index_loop [] i = 0"
| "get_free_index_loop (w # ws) i =
     (if w = NOT 0 then get_free_index_loop ws (Suc i)
      else if w = 0 then 32 * i + 1
      else 32 * i + builtin_clz (NOT w) + 1)"

definition get_free_index :: "u32 list \<Rightarrow> nat" where
  "get_free_index status = get_free_index_loop status 0"

section \<open>The bitmap they implement\<close>

definition slot_used :: "u32 list \<Rightarrow> nat \<Rightarrow> bool" where
  "slot_used status k = bit (status ! (k div 32)) (31 - k mod 32)"

lemma bit_mask32: "i < 32 \<Longrightarrow> bit (drop_bit i (0x80000000 :: u32)) n \<longleftrightarrow> n = 31 - i"
proof -
  assume i: "i < 32"
  have "(0x80000000 :: u32) = 2 ^ 31"
    by simp
  then have "bit (drop_bit i (0x80000000 :: u32)) n \<longleftrightarrow> bit ((2 :: u32) ^ 31) (i + n)"
    by (simp only: bit_drop_bit_eq comp_def)
  also have "\<dots> \<longleftrightarrow> i + n = 31"
    by (simp only: bit_exp_iff) auto
  finally show ?thesis
    using i by auto
qed

lemma length_toggle_bit [simp]: "length (toggle_bit st b) = length st"
  by (simp add: toggle_bit_def Let_def)

lemma slot_used_toggle [slot_simps]:
  assumes "b < 32 * length st" and "k < 32 * length st"
  shows "slot_used (toggle_bit st b) k \<longleftrightarrow> (if k = b then \<not> slot_used st b else slot_used st k)"
proof (cases "k div 32 = b div 32")
  case True
  then have "k = b \<longleftrightarrow> k mod 32 = b mod 32"
    by (metis div_mult_mod_eq)
  moreover have "31 - k mod 32 = 31 - b mod 32 \<longleftrightarrow> k mod 32 = b mod 32"
    using mod_less_divisor [of 32 k] mod_less_divisor [of 32 b] by linarith
  ultimately show ?thesis
    using True assms by (auto simp: slot_used_def toggle_bit_def Let_def bit_xor_iff bit_mask32)
next
  case False
  then show ?thesis
    using assms by (auto simp: slot_used_def toggle_bit_def Let_def)
qed

lemma word32_nonzero_bit: "w \<noteq> 0 \<Longrightarrow> \<exists>n < 32. bit w n" for w :: u32
proof (rule ccontr)
  assume "w \<noteq> 0" and "\<not> (\<exists>n < 32. bit w n)"
  then have "w = 0"
    by (intro bit_word_eqI) auto
  with \<open>w \<noteq> 0\<close> show False by simp
qed

lemma builtin_clz_spec:
  assumes "w \<noteq> 0"
  shows "builtin_clz w < 32" and "bit w (31 - builtin_clz w)"
    and "\<And>j. j < builtin_clz w \<Longrightarrow> \<not> bit w (31 - j)"
proof -
  let ?P = "\<lambda>j. \<not> bit w (31 - j)" and ?xs = "[0..<32::nat]"
  obtain n where n: "bit w n" "n < 32"
    using word32_nonzero_bit [OF assms] by blast
  then have "\<not> ?P (31 - n)" and "31 - n \<in> set ?xs" by auto
  then have "length (takeWhile ?P ?xs) < length ?xs"
    by (metis (no_types, lifting) length_takeWhile_le nat_less_le set_takeWhileD
        takeWhile_eq_take take_all order_refl)
  then show lt: "builtin_clz w < 32"
    by (simp add: builtin_clz_def)
  show "bit w (31 - builtin_clz w)"
    using nth_length_takeWhile [of ?P ?xs] lt by (simp add: builtin_clz_def)
  show "\<not> bit w (31 - j)" if "j < builtin_clz w" for j
    using takeWhile_nth [of j ?P ?xs] nth_mem [of j "takeWhile ?P ?xs"] that lt
    by (auto simp: builtin_clz_def dest: set_takeWhileD)
qed

lemma get_free_index_loop_spec:
  "(case get_free_index_loop ws i of
      0 \<Rightarrow> \<forall>k < 32 * length ws. slot_used ws k
    | Suc f \<Rightarrow> 32 * i \<le> f \<and> f < 32 * (i + length ws) \<and> \<not> slot_used ws (f - 32 * i)
               \<and> (\<forall>k < f - 32 * i. slot_used ws k))"
proof (induction ws arbitrary: i)
  case Nil
  then show ?case by simp
next
  case (Cons w ws)
  have shift: "slot_used (w # ws) k \<longleftrightarrow> slot_used ws (k - 32)" if "\<not> k < 32" for k
    using that by (simp add: slot_used_def div_if [of k] mod_if [of k])
  have fst: "slot_used (w # ws) k \<longleftrightarrow> bit w (31 - k)" if "k < 32" for k
    using that by (simp add: slot_used_def)
  consider "w = NOT 0" | "w \<noteq> NOT 0" "w = 0" | "w \<noteq> NOT 0" "w \<noteq> 0" by blast
  then show ?case
  proof cases
    case 1
    have su: "slot_used (w # ws) k \<longleftrightarrow> k < 32 \<or> slot_used ws (k - 32)" for k
      using fst [of k] shift [of k] 1 by (cases "k < 32") (simp_all add: bit_not_iff)
    have step: "get_free_index_loop (w # ws) i = get_free_index_loop ws (Suc i)"
      using 1 by simp
    show ?thesis
    proof (cases "get_free_index_loop ws (Suc i)")
      case 0
      with Cons.IH [of "Suc i"] have full: "\<forall>k < 32 * length ws. slot_used ws k" by simp
      have "slot_used (w # ws) k" if "k < 32 * length (w # ws)" for k
        using full that by (cases "k < 32") (auto simp: su)
      with 0 step show ?thesis by (simp del: get_free_index_loop.simps)
    next
      case (Suc f)
      with Cons.IH [of "Suc i"] have f: "32 * Suc i \<le> f" "f < 32 * (Suc i + length ws)"
        "\<not> slot_used ws (f - 32 * Suc i)" "\<forall>k < f - 32 * Suc i. slot_used ws k"
        by auto
      have free: "\<not> slot_used (w # ws) (f - 32 * i)"
        using f(1,3) by (auto simp: su add.commute)
      have used: "slot_used (w # ws) k" if "k < f - 32 * i" for k
        using f(4) that by (cases "k < 32") (auto simp: su)
      from f free used step Suc show ?thesis
        by (auto simp del: get_free_index_loop.simps)
    qed
  next
    case 2
    then show ?thesis using fst [of 0] by simp
  next
    case 3
    then have nz: "NOT w \<noteq> 0" by (metis bit.double_compl)
    note clz = builtin_clz_spec [OF nz]
    show ?thesis
      using 3 clz fst [of "builtin_clz (NOT w)"] fst
      by (auto simp: bit_not_iff)
  qed
qed

lemma get_free_index_0: "get_free_index st = 0 \<longleftrightarrow> (\<forall>k < 32 * length st. slot_used st k)"
  using get_free_index_loop_spec [of st 0] by (auto simp: get_free_index_def split: nat.splits)

lemma get_free_index_Suc:
  "get_free_index st = Suc f \<Longrightarrow>
   f < 32 * length st \<and> \<not> slot_used st f \<and> (\<forall>k < f. slot_used st k)"
  using get_free_index_loop_spec [of st 0] by (auto simp: get_free_index_def)

end
