(* ===== verification/Linked_List.thy ===== *)
theory Linked_List
  imports Prelude
begin

text \<open>
  The singly linked list of \<open>tools/list.c\<close>, at the level of its pointers: a heap of nodes, a
  list object with its head pointer and its comparison callback, and one definition per
  function. The traversal loops are partial: \<open>None\<close> is a loop that never ends or a
  dereference of a dangling pointer. The second half shows that on a well-formed list every
  operation returns and acts as the corresponding operation on HOL lists, which is what the
  components that use the list are modelled with.
\<close>

section \<open>Nodes, lists and operations (tools/list.h, tools/list.c)\<close>

record 'a node =
  obj :: 'a
  succ :: "addr option"

type_synonym 'a nodes = "addr \<rightharpoonup> 'a node"

record ('a, 'k) linked_list =
  head :: "addr option"
  eq :: "'a \<Rightarrow> 'k \<Rightarrow> bool"

definition LL_create :: "('a \<Rightarrow> 'k \<Rightarrow> bool) \<Rightarrow> ('a, 'k) linked_list" where
  "LL_create e = \<lparr>head = None, eq = e\<rparr>"

text \<open>The loop of \<open>LL_append\<close>: it returns the final \<open>prev\<close>, NULL for an empty list.\<close>

partial_function (option) LL_append_loop ::
  "'a nodes \<Rightarrow> addr option \<Rightarrow> addr option \<Rightarrow> addr option option" where
  "LL_append_loop h prev current =
     (case current of
        None \<Rightarrow> Some prev
      | Some c \<Rightarrow>
          (case h c of
             None \<Rightarrow> None
           | Some nd \<Rightarrow> LL_append_loop h current (succ nd)))"

text \<open>\<open>new\<close> is the address \<open>malloc\<close> returned for the node.\<close>

definition LL_append ::
  "'a nodes \<Rightarrow> ('a, 'k) linked_list \<Rightarrow> addr \<Rightarrow> 'a \<Rightarrow> ('a nodes \<times> ('a, 'k) linked_list) option" where
  "LL_append h LL new x =
     (let h' = h(new \<mapsto> \<lparr>obj = x, succ = None\<rparr>) in
      case LL_append_loop h' None (head LL) of
        None \<Rightarrow> None
      | Some None \<Rightarrow> Some (h', LL\<lparr>head := Some new\<rparr>)
      | Some (Some p) \<Rightarrow>
          (case h' p of
             None \<Rightarrow> None
           | Some nd \<Rightarrow> Some (h'(p \<mapsto> nd\<lparr>succ := Some new\<rparr>), LL)))"

partial_function (option) LL_find_loop ::
  "'a nodes \<Rightarrow> ('a \<Rightarrow> 'k \<Rightarrow> bool) \<Rightarrow> addr option \<Rightarrow> 'k \<Rightarrow> 'a option option" where
  "LL_find_loop h e current k =
     (case current of
        None \<Rightarrow> Some None
      | Some c \<Rightarrow>
          (case h c of
             None \<Rightarrow> None
           | Some nd \<Rightarrow>
               if e (obj nd) k then Some (Some (obj nd)) else LL_find_loop h e (succ nd) k))"

definition LL_find :: "'a nodes \<Rightarrow> ('a, 'k) linked_list \<Rightarrow> 'k \<Rightarrow> 'a option option" where
  "LL_find h LL k = LL_find_loop h (eq LL) (head LL) k"

text \<open>
  The loop of \<open>LL_delete\<close>, entered with \<open>current\<close> on a node that does not match. The result
  is the new heap and the objects handed to the \<open>destroy\<close> callback.
\<close>

partial_function (option) LL_delete_loop ::
  "'a nodes \<Rightarrow> ('a \<Rightarrow> 'k \<Rightarrow> bool) \<Rightarrow> addr \<Rightarrow> 'k \<Rightarrow> ('a nodes \<times> 'a list) option" where
  "LL_delete_loop h e previous k =
     (case h previous of
        None \<Rightarrow> None
      | Some pn \<Rightarrow>
          (case succ pn of
             None \<Rightarrow> Some (h, [])
           | Some c \<Rightarrow>
               (case h c of
                  None \<Rightarrow> None
                | Some cn \<Rightarrow>
                    if e (obj cn) k
                    then Some ((h(previous \<mapsto> pn\<lparr>succ := succ cn\<rparr>))(c := None), [obj cn])
                    else LL_delete_loop h e c k)))"

definition LL_delete ::
  "'a nodes \<Rightarrow> ('a, 'k) linked_list \<Rightarrow> 'k \<Rightarrow> ('a nodes \<times> ('a, 'k) linked_list \<times> 'a list) option" where
  "LL_delete h LL k =
     (case head LL of
        None \<Rightarrow> Some (h, LL, [])
      | Some c \<Rightarrow>
          (case h c of
             None \<Rightarrow> None
           | Some nd \<Rightarrow>
               if eq LL (obj nd) k
               then Some (h(c := None), LL\<lparr>head := succ nd\<rparr>, [obj nd])
               else map_option (\<lambda>(h', ds). (h', LL, ds)) (LL_delete_loop h (eq LL) c k)))"

partial_function (option) LL_destroy_loop ::
  "'a nodes \<Rightarrow> addr option \<Rightarrow> 'a list \<Rightarrow> ('a nodes \<times> 'a list) option" where
  "LL_destroy_loop h current ds =
     (case current of
        None \<Rightarrow> Some (h, ds)
      | Some c \<Rightarrow>
          (case h c of
             None \<Rightarrow> None
           | Some nd \<Rightarrow> LL_destroy_loop (h(c := None)) (succ nd) (ds @ [obj nd])))"

definition LL_destroy :: "'a nodes \<Rightarrow> ('a, 'k) linked_list \<Rightarrow> ('a nodes \<times> 'a list) option" where
  "LL_destroy h LL = LL_destroy_loop h (head LL) []"

section \<open>The same operations on HOL lists\<close>

definition ll_find :: "('a \<Rightarrow> 'k \<Rightarrow> bool) \<Rightarrow> 'a list \<Rightarrow> 'k \<Rightarrow> 'a option" where
  "ll_find e xs k = List.find (\<lambda>x. e x k) xs"

definition ll_append :: "'a list \<Rightarrow> 'a \<Rightarrow> 'a list" where
  "ll_append xs x = xs @ [x]"

fun ll_delete :: "('a \<Rightarrow> 'k \<Rightarrow> bool) \<Rightarrow> 'a list \<Rightarrow> 'k \<Rightarrow> 'a list" where
  "ll_delete e [] k = []"
| "ll_delete e (x # xs) k = (if e x k then xs else x # ll_delete e xs k)"

text \<open>
  Writing through a pointer that \<open>LL_find\<close> returned changes the object in place: the first
  match is replaced by its updated value.
\<close>

fun ll_modify :: "('a \<Rightarrow> 'k \<Rightarrow> bool) \<Rightarrow> 'a list \<Rightarrow> 'k \<Rightarrow> ('a \<Rightarrow> 'a) \<Rightarrow> 'a list" where
  "ll_modify e [] k f = []"
| "ll_modify e (x # xs) k f = (if e x k then f x # xs else x # ll_modify e xs k f)"

section \<open>Well-formed lists\<close>

text \<open>
  \<open>lseg h p ys q\<close>: following the successor pointers from \<open>p\<close> visits the nodes \<open>ys\<close> (their
  addresses and objects) and arrives at \<open>q\<close>.
\<close>

fun lseg :: "'a nodes \<Rightarrow> addr option \<Rightarrow> (addr \<times> 'a) list \<Rightarrow> addr option \<Rightarrow> bool" where
  "lseg h p [] q = (p = q)"
| "lseg h p ((a, x) # ys) q =
     (p = Some a \<and> (case h a of None \<Rightarrow> False | Some nd \<Rightarrow> obj nd = x \<and> lseg h (succ nd) ys q))"

definition is_list :: "'a nodes \<Rightarrow> ('a, 'k) linked_list \<Rightarrow> (addr \<times> 'a) list \<Rightarrow> bool" where
  "is_list h LL ys \<longleftrightarrow> lseg h (head LL) ys None \<and> distinct (map fst ys)"

lemma lseg_append [ll_simps]:
  "lseg h p (xs @ ys) q \<longleftrightarrow> (\<exists>r. lseg h p xs r \<and> lseg h r ys q)"
  by (induction h p xs q rule: lseg.induct) (auto split: option.splits)

lemma lseg_frame [ll_simps]:
  "a \<notin> fst ` set ys \<Longrightarrow> lseg (h(a := v)) p ys q \<longleftrightarrow> lseg h p ys q"
  by (induction h p ys q rule: lseg.induct) (auto split: option.splits)

lemma lseg_mapped: "lseg h p ys q \<Longrightarrow> a \<in> fst ` set ys \<Longrightarrow> h a \<noteq> None"
  by (induction h p ys q rule: lseg.induct) (auto split: option.splits)

lemmas LL_append_loop_simps =
  LL_append_loop.simps [of _ _ None] LL_append_loop.simps [of _ _ "Some c" for c]

lemmas LL_find_loop_simps =
  LL_find_loop.simps [of _ _ None] LL_find_loop.simps [of _ _ "Some c" for c]

lemmas LL_destroy_loop_simps =
  LL_destroy_loop.simps [of _ None] LL_destroy_loop.simps [of _ "Some c" for c]

subsection \<open>Append\<close>

lemma LL_append_loop_lseg:
  "lseg h p ys None \<Longrightarrow>
   LL_append_loop h r p = Some (if ys = [] then r else Some (fst (last ys)))"
  by (induction ys arbitrary: p r) (auto simp: LL_append_loop_simps split: option.splits)

lemma LL_append_correct:
  assumes l: "is_list h LL ys" and new: "h new = None"
  shows "\<exists>h' LL'. LL_append h LL new x = Some (h', LL') \<and> is_list h' LL' (ys @ [(new, x)])
           \<and> eq LL' = eq LL \<and> (\<forall>a. a \<notin> fst ` set ys \<and> a \<noteq> new \<longrightarrow> h' a = h a)"
proof -
  let ?h = "h(new \<mapsto> \<lparr>obj = x, succ = None\<rparr>)"
  from l have seg: "lseg h (head LL) ys None" and d: "distinct (map fst ys)"
    by (auto simp: is_list_def)
  from lseg_mapped [OF seg] new have fresh: "new \<notin> fst ` set ys" by blast
  with seg have seg': "lseg ?h (head LL) ys None" by (simp add: ll_simps)
  show ?thesis
  proof (cases ys rule: rev_cases)
    case Nil
    with seg' LL_append_loop_lseg [OF seg', of None] show ?thesis
      by (auto simp: LL_append_def is_list_def)
  next
    case (snoc zs y)
    obtain a v where y: "y = (a, v)" by force
    from seg' snoc y obtain nd where nd: "?h a = Some nd" "obj nd = v" "succ nd = None"
        and zs: "lseg ?h (head LL) zs (Some a)"
      by (auto simp: ll_simps simp del: fun_upd_apply split: option.splits)
    from d snoc y have a: "a \<notin> fst ` set zs" by auto
    from fresh snoc y have ne: "a \<noteq> new" by auto
    let ?h' = "?h(a \<mapsto> nd\<lparr>succ := Some new\<rparr>)"
    have "LL_append h LL new x = Some (?h', LL)"
      using LL_append_loop_lseg [OF seg', of None] snoc y nd
      by (simp add: LL_append_def del: fun_upd_apply)
    moreover have "lseg ?h' (head LL) zs (Some a)"
      using zs a by (simp add: ll_simps del: fun_upd_apply)
    then have "lseg ?h' (head LL) (ys @ [(new, x)]) None"
      using snoc y nd ne by (simp add: lseg_append)
    then have "is_list ?h' LL (ys @ [(new, x)])"
      using d fresh by (simp add: is_list_def)
    ultimately show ?thesis
      using snoc y by auto
  qed
qed

subsection \<open>Find\<close>

lemma LL_find_loop_lseg:
  "lseg h p ys None \<Longrightarrow> LL_find_loop h e p k = Some (ll_find e (map snd ys) k)"
  by (induction ys arbitrary: p)
    (auto simp: LL_find_loop_simps ll_find_def split: option.splits)

lemma LL_find_correct:
  "is_list h LL ys \<Longrightarrow> LL_find h LL k = Some (ll_find (eq LL) (map snd ys) k)"
  by (simp add: LL_find_def is_list_def LL_find_loop_lseg)

subsection \<open>Delete\<close>

abbreviation nodes_delete :: "('a \<Rightarrow> 'k \<Rightarrow> bool) \<Rightarrow> (addr \<times> 'a) list \<Rightarrow> 'k \<Rightarrow> (addr \<times> 'a) list" where
  "nodes_delete e ys k \<equiv> ll_delete (\<lambda>y. e (snd y)) ys k"

definition found_list :: "'a option \<Rightarrow> 'a list" where
  "found_list r = (case r of None \<Rightarrow> [] | Some x \<Rightarrow> [x])"

lemma map_snd_nodes_delete [simp]: "map snd (nodes_delete e ys k) = ll_delete e (map snd ys) k"
  by (induction ys) auto

lemma set_ll_delete_subset: "set (ll_delete e xs k) \<subseteq> set xs"
  by (induction xs) auto

lemma distinct_map_ll_delete: "distinct (map f xs) \<Longrightarrow> distinct (map f (ll_delete e xs k))"
  using set_ll_delete_subset by (induction xs) (fastforce split: if_splits)+

text \<open>
  What a deletion leaves: the list without its first match, the match handed to the
  \<open>destroy\<close> callback, the freed node unmapped and every other address untouched.
\<close>

definition deleted_from ::
  "('a \<Rightarrow> 'k \<Rightarrow> bool) \<Rightarrow> 'k \<Rightarrow> 'a nodes \<Rightarrow> (addr \<times> 'a) list \<Rightarrow> 'a nodes \<Rightarrow> 'a list \<Rightarrow> bool" where
  "deleted_from e k h ys h' ds \<longleftrightarrow>
     ds = found_list (ll_find e (map snd ys) k)
     \<and> (\<forall>a. a \<in> fst ` set ys - fst ` set (nodes_delete e ys k) \<longrightarrow> h' a = None)
     \<and> (\<forall>a. a \<notin> fst ` set ys \<longrightarrow> h' a = h a)"

lemma LL_delete_loop_lseg:
  assumes "lseg h (Some p) ((p, x) # ys) None" and "distinct (p # map fst ys)"
  shows "\<exists>h' ds. LL_delete_loop h e p k = Some (h', ds)
           \<and> lseg h' (Some p) ((p, x) # nodes_delete e ys k) None
           \<and> ds = found_list (ll_find e (map snd ys) k)
           \<and> (\<forall>a. a \<in> fst ` set ys - fst ` set (nodes_delete e ys k) \<longrightarrow> h' a = None)
           \<and> (\<forall>a. a \<noteq> p \<and> a \<notin> fst ` set ys \<longrightarrow> h' a = h a)"
  using assms
proof (induction ys arbitrary: p x)
  case Nil
  then show ?case
    by (subst LL_delete_loop.simps) (auto simp: found_list_def ll_find_def split: option.splits)
next
  case (Cons y ys)
  obtain c v where y: "y = (c, v)" by force
  from Cons.prems y obtain pn cn where
      pn: "h p = Some pn" "obj pn = x" "succ pn = Some c"
      and cn: "h c = Some cn" "obj cn = v" "lseg h (succ cn) ys None"
    by (auto split: option.splits)
  from Cons.prems(2) y have d: "distinct (c # map fst ys)" "p \<noteq> c" "p \<notin> fst ` set ys"
    "c \<notin> fst ` set ys" by auto
  show ?case
  proof (cases "e v k")
    case True
    let ?h' = "(h(p \<mapsto> pn\<lparr>succ := succ cn\<rparr>))(c := None)"
    have "lseg ?h' (succ cn) ys None"
      using cn(3) d by (simp add: lseg_frame)
    with True y pn cn d show ?thesis
      by (subst LL_delete_loop.simps)
        (auto simp: found_list_def ll_find_def split: option.splits if_splits)
  next
    case False
    have "lseg h (Some c) ((c, v) # ys) None"
      using cn by simp
    from Cons.IH [OF this d(1)] obtain h' ds where
        r: "LL_delete_loop h e c k = Some (h', ds)"
        and s: "lseg h' (Some c) ((c, v) # nodes_delete e ys k) None"
        and ds: "ds = found_list (ll_find e (map snd ys) k)"
        and fr: "\<forall>a. a \<in> fst ` set ys - fst ` set (nodes_delete e ys k) \<longrightarrow> h' a = None"
        and un: "\<forall>a. a \<noteq> c \<and> a \<notin> fst ` set ys \<longrightarrow> h' a = h a"
      by blast
    from un d pn have "h' p = Some pn" by auto
    with r s ds fr un False y pn cn d show ?thesis
      by (subst LL_delete_loop.simps) (auto simp: found_list_def ll_find_def)
  qed
qed

lemma LL_delete_correct:
  assumes "is_list h LL ys"
  shows "\<exists>h' LL' ds. LL_delete h LL k = Some (h', LL', ds)
           \<and> is_list h' LL' (nodes_delete (eq LL) ys k) \<and> eq LL' = eq LL
           \<and> deleted_from (eq LL) k h ys h' ds"
proof (cases ys)
  case Nil
  with assms show ?thesis
    by (auto simp: LL_delete_def is_list_def found_list_def ll_find_def deleted_from_def)
next
  case (Cons y zs)
  obtain c v where y: "y = (c, v)" by force
  from assms Cons y obtain cn where hd: "head LL = Some c"
      and cn: "h c = Some cn" "obj cn = v" "lseg h (succ cn) zs None"
      and d: "distinct (c # map fst zs)"
    by (auto simp: is_list_def split: option.splits)
  show ?thesis
  proof (cases "eq LL v k")
    case True
    have "lseg (h(c := None)) (succ cn) zs None"
      using cn(3) d by (simp add: lseg_frame)
    with True hd cn d Cons y show ?thesis
      by (auto simp: LL_delete_def is_list_def found_list_def ll_find_def deleted_from_def)
  next
    case False
    have seg: "lseg h (Some c) ((c, v) # zs) None"
      using cn by simp
    from LL_delete_loop_lseg [OF seg d, of "eq LL" k] obtain h' ds where
        r: "LL_delete_loop h (eq LL) c k = Some (h', ds)"
        and s: "lseg h' (Some c) ((c, v) # nodes_delete (eq LL) zs k) None"
        and ds: "ds = found_list (ll_find (eq LL) (map snd zs) k)"
        and fr: "\<forall>a. a \<in> fst ` set zs - fst ` set (nodes_delete (eq LL) zs k) \<longrightarrow> h' a = None"
        and un: "\<forall>a. a \<noteq> c \<and> a \<notin> fst ` set zs \<longrightarrow> h' a = h a"
      by blast
    have sub: "c \<notin> fst ` set (nodes_delete (eq LL) zs k)"
      using d set_ll_delete_subset [of "\<lambda>y. eq LL (snd y)" zs k] by auto
    have dz: "distinct (map fst (nodes_delete (eq LL) zs k))"
      using d by (simp add: distinct_map_ll_delete)
    have "LL_delete h LL k = Some (h', LL, ds)"
      using r hd cn False by (simp add: LL_delete_def)
    moreover have "is_list h' LL (nodes_delete (eq LL) ys k)"
      using s hd Cons y False sub dz by (auto simp: is_list_def)
    moreover have "deleted_from (eq LL) k h ys h' ds"
      using ds fr un Cons y False by (auto simp: deleted_from_def ll_find_def)
    ultimately show ?thesis by blast
  qed
qed

subsection \<open>Destroy\<close>

lemma LL_destroy_loop_lseg:
  "lseg h p ys None \<Longrightarrow> distinct (map fst ys) \<Longrightarrow>
   LL_destroy_loop h p ds = Some (h |` (- (fst ` set ys)), ds @ map snd ys)"
proof (induction ys arbitrary: h p ds)
  case Nil
  then show ?case by (simp add: LL_destroy_loop_simps)
next
  case (Cons y ys)
  obtain a x where y: "y = (a, x)" by force
  from Cons.prems y obtain nd where nd: "p = Some a" "h a = Some nd" "obj nd = x"
      "lseg h (succ nd) ys None" and d: "a \<notin> fst ` set ys" "distinct (map fst ys)"
    by (auto split: option.splits)
  from nd(4) d have seg: "lseg (h(a := None)) (succ nd) ys None"
    by (simp add: lseg_frame)
  have "LL_destroy_loop h p ds = LL_destroy_loop (h(a := None)) (succ nd) (ds @ [x])"
    using nd by (simp add: LL_destroy_loop_simps)
  also have "\<dots> = Some ((h(a := None)) |` (- (fst ` set ys)), (ds @ [x]) @ map snd ys)"
    by (rule Cons.IH [OF seg d(2)])
  also have "(ds @ [x]) @ map snd ys = ds @ map snd (y # ys)"
    using y by simp
  also have "(h(a := None)) |` (- (fst ` set ys)) = h |` (- (fst ` set (y # ys)))"
    using y by (auto simp: restrict_map_def)
  finally show ?case .
qed

lemma LL_destroy_correct:
  "is_list h LL ys \<Longrightarrow>
   LL_destroy h LL = Some (h |` (- (fst ` set ys)), map snd ys)"
  unfolding LL_destroy_def is_list_def using LL_destroy_loop_lseg [of h "head LL" ys "[]"] by simp

lemma find_filter:
  "List.find P (filter Q xs) = List.find (\<lambda>x. Q x \<and> P x) xs"
  by (induction xs) auto

section \<open>The contract of the comparison callback\<close>

text \<open>
  A client stores objects under keys and gives the list an \<open>eq_func\<close> that compares an object
  with a key. When the callback decides equality of the object's key, and keys are unique, the
  list behaves as a finite map from keys to objects.
\<close>

locale key_equality =
  fixes key_of :: "'a \<Rightarrow> 'k"
    and eqf :: "'a \<Rightarrow> 'k \<Rightarrow> bool"
  assumes eqf_iff: "eqf x k \<longleftrightarrow> key_of x = k"
begin

lemma find_None: "ll_find eqf xs k = None \<longleftrightarrow> k \<notin> key_of ` set xs"
  by (auto simp: ll_find_def find_None_iff_all eqf_iff)

lemma find_Some: "ll_find eqf xs k = Some x \<Longrightarrow> x \<in> set xs \<and> key_of x = k"
  by (auto simp: ll_find_def eqf_iff dest: find_Some_mem)

lemma find_unique:
  "distinct (map key_of xs) \<Longrightarrow> x \<in> set xs \<Longrightarrow> ll_find eqf xs (key_of x) = Some x"
  by (induction xs) (auto simp: ll_find_def eqf_iff)

lemma delete_filter:
  "distinct (map key_of xs) \<Longrightarrow> ll_delete eqf xs k = filter (\<lambda>x. key_of x \<noteq> k) xs"
proof (induction xs)
  case (Cons x xs)
  then have "filter (\<lambda>y. key_of y \<noteq> key_of x) xs = xs"
    by (auto simp: filter_id_conv image_iff)
  with Cons show ?case by (auto simp: eqf_iff)
qed simp

lemma find_delete:
  "distinct (map key_of xs) \<Longrightarrow>
   ll_find eqf (ll_delete eqf xs k) k' = (if k' = k then None else ll_find eqf xs k')"
  by (simp add: delete_filter) (auto simp: ll_find_def eqf_iff find_None_iff_all find_filter intro!: find_cong)

lemma modify_map:
  "distinct (map key_of xs) \<Longrightarrow>
   ll_modify eqf xs k f = map (\<lambda>x. if key_of x = k then f x else x) xs"
proof (induction xs)
  case (Cons x xs)
  have "map (\<lambda>y. if key_of y = key_of x then f y else y) xs = xs"
    using Cons.prems by (intro map_idI) (auto simp: image_iff)
  with Cons show ?case by (auto simp: eqf_iff)
qed simp

lemma find_snoc:
  "ll_find eqf (ll_append xs x) k =
     (if k \<in> key_of ` set xs then ll_find eqf xs k else if key_of x = k then Some x else None)"
  by (induction xs) (auto simp: ll_find_def ll_append_def eqf_iff)

end

section \<open>The operations against lists\<close>

text \<open>
  \<open>LL_append\<close> on a well-formed list returns and puts the object at the end; the
  nodes outside the list are not touched.
\<close>

theorem LL_append_refines:
  assumes "is_list h LL ys" and "h new = None"
  shows "\<exists>h' LL'. LL_append h LL new x = Some (h', LL') \<and> is_list h' LL' (ys @ [(new, x)])
           \<and> map snd (ys @ [(new, x)]) = ll_append (map snd ys) x
           \<and> (\<forall>a. a \<notin> fst ` set ys \<and> a \<noteq> new \<longrightarrow> h' a = h a)"
  using LL_append_correct [OF assms, of x] by (auto simp: ll_append_def)

theorem LL_append_refines_witness:
  "\<exists>h' LL'. LL_append Map.empty (LL_create (=)) 8 (5 :: nat) = Some (h', LL') \<and> is_list h' LL' [(8, 5)]"
proof -
  have "is_list Map.empty (LL_create (=) :: (nat, nat) linked_list) []" by (simp add: is_list_def LL_create_def)
  from LL_append_refines [OF this, of 8 5] show ?thesis by auto
qed

text \<open>
  Property C32. \<open>LL_find\<close>, \<open>LL_delete\<close> and \<open>LL_destroy\<close> on a well-formed list return. They
  find the first object that the callback accepts; take out exactly that node, free it and
  hand its object to the destructor; and free every node, each object going to the destructor
  once, in order.
\<close>

theorem LL_find_delete_destroy_refine:
  assumes "is_list h LL ys"
  shows "LL_find h LL k = Some (ll_find (eq LL) (map snd ys) k)
    \<and> (\<exists>h' LL' ds zs. LL_delete h LL k = Some (h', LL', ds) \<and> is_list h' LL' zs
         \<and> map snd zs = ll_delete (eq LL) (map snd ys) k
         \<and> ds = found_list (ll_find (eq LL) (map snd ys) k)
         \<and> (\<forall>a \<in> fst ` set ys - fst ` set zs. h' a = None) \<and> (\<forall>a. a \<notin> fst ` set ys \<longrightarrow> h' a = h a))
    \<and> LL_destroy h LL = Some (h |` (- (fst ` set ys)), map snd ys)"
proof -
  from LL_delete_correct [OF assms, of k] obtain h' LL' ds where
    del: "LL_delete h LL k = Some (h', LL', ds)" "is_list h' LL' (nodes_delete (eq LL) ys k)"
    "deleted_from (eq LL) k h ys h' ds"
    by blast
  then have "LL_delete h LL k = Some (h', LL', ds) \<and> is_list h' LL' (nodes_delete (eq LL) ys k)
      \<and> map snd (nodes_delete (eq LL) ys k) = ll_delete (eq LL) (map snd ys) k
      \<and> ds = found_list (ll_find (eq LL) (map snd ys) k)
      \<and> (\<forall>a \<in> fst ` set ys - fst ` set (nodes_delete (eq LL) ys k). h' a = None)
      \<and> (\<forall>a. a \<notin> fst ` set ys \<longrightarrow> h' a = h a)"
    by (simp add: deleted_from_def)
  with LL_find_correct [OF assms, of k] LL_destroy_correct [OF assms] show ?thesis by blast
qed

theorem LL_find_delete_destroy_refine_witness:
  "LL_find [8 \<mapsto> \<lparr>obj = 5 :: nat, succ = None\<rparr>] \<lparr>head = Some 8, eq = (=)\<rparr> 5 = Some (Some 5)"
proof -
  let ?h = "[8 \<mapsto> \<lparr>obj = 5 :: nat, succ = None\<rparr>]" and ?LL = "\<lparr>head = Some 8, eq = (=)\<rparr> :: (nat, nat) linked_list"
  have "is_list ?h ?LL [(8, 5)]" by (simp add: is_list_def)
  from LL_find_delete_destroy_refine [OF this, of 5] show ?thesis by (simp add: ll_find_def)
qed

end
