(* ===== verification/Allocator_Spec.thy ===== *)
theory Allocator_Spec
  imports Prelude
begin

text \<open>
  The interface between the cache and the slab allocator: blocks are handed out and taken
  back, live blocks never overlap, and a block is at least as large as what was asked for.
  What the cache needs to keep its values apart is proved here once, from the interface.
\<close>

locale slot_allocator =
  fixes ainv :: "'m \<Rightarrow> bool"
    and live :: "'m \<Rightarrow> addr set"
    and extent :: "'m \<Rightarrow> addr \<Rightarrow> nat"
    and fits :: "'m \<Rightarrow> nat \<Rightarrow> nat"
    and alloc :: "'m \<Rightarrow> nat \<Rightarrow> addr option \<times> 'm"
    and release :: "'m \<Rightarrow> addr \<Rightarrow> nat \<Rightarrow> 'm"
  assumes live_disjoint:
      "\<lbrakk> ainv m; a \<in> live m; b \<in> live m; a \<noteq> b \<rbrakk> \<Longrightarrow> disjoint_blocks a (extent m a) b (extent m b)"
    and alloc_Some:
      "\<lbrakk> ainv m; alloc m n = (Some a, m') \<rbrakk> \<Longrightarrow>
       ainv m' \<and> a \<notin> live m \<and> live m' = insert a (live m) \<and> extent m' = extent m
         \<and> fits m' = fits m \<and> extent m a = fits m n"
    and alloc_None:
      "\<lbrakk> ainv m; alloc m n = (None, m') \<rbrakk> \<Longrightarrow>
       ainv m' \<and> live m' = live m \<and> extent m' = extent m \<and> fits m' = fits m"
    and release_live:
      "\<lbrakk> ainv m; a \<in> live m \<rbrakk> \<Longrightarrow>
       ainv (release m a k) \<and> live (release m a k) = live m - {a} \<and> extent (release m a k) = extent m
         \<and> fits (release m a k) = fits m"
    and alloc_after_release:
      "\<lbrakk> ainv m; a \<in> live m; extent m a = fits m n \<rbrakk> \<Longrightarrow> fst (alloc (release m a k) n) \<noteq> None"
begin

text \<open>Filling one live block leaves the bytes of every other live block alone.\<close>

lemma fill_block:
  assumes "ainv m" and "a \<in> live m" and "b \<in> live m" and "a \<noteq> b"
    and "length bs \<le> extent m a" and "k \<le> extent m b"
  shows "load (memcpy st a bs) b k = load st b k"
  using live_disjoint [OF assms(1-4)] disjoint_blocks_mono load_memcpy_other assms(5,6) by blast

text \<open>What a client can rely on after an allocation, whether or not it succeeded.\<close>

definition grown :: "'m \<Rightarrow> 'm \<Rightarrow> bool" where
  "grown m m' \<longleftrightarrow>
     ainv m' \<and> live m \<subseteq> live m' \<and> (\<forall>a \<in> live m. extent m' a = extent m a) \<and> fits m' = fits m"

definition fresh_in :: "'m \<Rightarrow> nat \<Rightarrow> addr option \<Rightarrow> 'm \<Rightarrow> bool" where
  "fresh_in m n r m' \<longleftrightarrow>
     (case r of None \<Rightarrow> True | Some a \<Rightarrow> a \<notin> live m \<and> a \<in> live m' \<and> extent m' a = fits m n)"

lemma alloc_step:
  "\<lbrakk> ainv m; alloc m n = (r, m') \<rbrakk> \<Longrightarrow> grown m m' \<and> fresh_in m n r m'"
  by (cases r) (auto simp: grown_def fresh_in_def dest: alloc_None alloc_Some)

lemma grown_trans: "grown m m' \<Longrightarrow> grown m' m'' \<Longrightarrow> grown m m''"
  by (auto simp: grown_def)

lemma fresh_in_mono: "grown m m' \<Longrightarrow> fresh_in m' n r m'' \<Longrightarrow> fresh_in m n r m''"
  by (auto simp: grown_def fresh_in_def split: option.splits)

end

text \<open>
  An allocator that can be given more memory. \<open>usable m b\<close>: the block \<open>b\<close> obtained from
  the C allocator does not overlap what \<open>m\<close> manages.
\<close>

locale growing_allocator = slot_allocator ainv live extent fits alloc release
  for ainv :: "'m \<Rightarrow> bool" and live extent fits alloc release +
  fixes usable :: "'m \<Rightarrow> 'b \<Rightarrow> bool"
    and valid_class :: "nat \<Rightarrow> bool"
    and grow :: "'b option \<Rightarrow> 'm \<Rightarrow> nat \<Rightarrow> 'm c_result"
  assumes grow_Inr:
    "\<lbrakk> ainv m; usable m b; valid_class c; grow (Some b) m c = Inr m' \<rbrakk> \<Longrightarrow>
     ainv m' \<and> live m \<subseteq> live m' \<and> (\<forall>a \<in> live m. extent m' a = extent m a) \<and> fits m' = fits m"
    and grow_None: "grow None m c = Inl Null_Pointer"
begin

lemma grow_alloc_step:
  assumes "ainv m" and "usable m b" and "valid_class c" and "grow (Some b) m c = Inr m'"
    and "alloc m' n = (r, m'')"
  shows "grown m m'' \<and> fresh_in m n r m''"
proof -
  from grow_Inr [OF assms(1-4)] have g: "grown m m'"
    by (simp add: grown_def)
  then have "ainv m'" by (simp add: grown_def)
  from alloc_step [OF this assms(5)] g show ?thesis
    using grown_trans fresh_in_mono by blast
qed

end

end
