(* ===== verification/Slabs.thy ===== *)
theory Slabs
  imports Slab_Bits Linked_List Allocator_Spec
begin

text \<open>
  The slab allocator of \<open>tools/slabs.c\<close>: one-megabyte slabs cut into entries of one size
  class, an allocation bit per entry, and the manager that finds, hands out and takes back
  entries. Addresses are kept: a slab has the address \<open>malloc\<close> gave it, and an entry is
  the address of its first byte.
\<close>

section \<open>Data (slab_obj, manager_obj)\<close>

text \<open>
  \<open>base\<close> is the address of the struct, which is the address of its first member
  \<open>memory\<close>; the bytes of \<open>memory\<close> are in the byte store at \<open>base + 0 \<dots> base + 2^20 - 1\<close>.
  Class sizes and entry indices stay below \<open>2^20\<close>, so they are natural numbers.
\<close>

record slab =
  base :: addr
  sclass :: nat
  status :: "u32 list"
  isFull :: u8

definition memory_size :: nat where
  "memory_size = 2 ^ 20"

text \<open>\<open>sizeof(slab_obj)\<close>: the array, the class, 512 status words, \<open>isFull\<close> and its padding.\<close>

definition get_slab_size :: nat where
  "get_slab_size = memory_size + 4 + 4 * 512 + 4"

record manager =
  full :: u8
  classes :: "nat list"
  slabs :: "slab list"
  num_slabs :: u32

section \<open>Operations\<close>

definition slab_delete :: "slab \<Rightarrow> nat \<Rightarrow> slab" where
  "slab_delete s item = s\<lparr>status := toggle_bit (status s) item, isFull := 0\<rparr>"

text \<open>\<open>man_destroy\<close>: the slabs that \<open>LL_destroy\<close> hands to \<open>destroy_slab\<close>, which frees them.\<close>

definition man_destroy :: "manager \<Rightarrow> slab list" where
  "man_destroy man = slabs man"

text \<open>The array of classes ends with a 0; \<open>prev\<close> is \<open>classes[i-1]\<close>.\<close>

fun get_slab_class_loop :: "nat \<Rightarrow> nat list \<Rightarrow> nat \<Rightarrow> nat" where
  "get_slab_class_loop prev [] sz = prev"
| "get_slab_class_loop prev (c # cs) sz =
     (if c = 0 then prev else if sz \<le> c then c else get_slab_class_loop c cs sz)"

definition get_slab_class :: "manager \<Rightarrow> nat \<Rightarrow> nat" where
  "get_slab_class man sz = get_slab_class_loop 0 (classes man) sz"

text \<open>
  \<open>s->status[i] |= w\<close>. The array has 512 words; a write at a higher index is a fault, even
  though the word behind the array still belongs to the slab.
\<close>

definition or_status :: "slab \<Rightarrow> nat \<Rightarrow> u32 \<Rightarrow> slab c_result" where
  "or_status s i w =
     (if i < length (status s) then Inr (s\<lparr>status := (status s)[i := (status s ! i) OR w]\<rparr>)
      else Inl Out_Of_Bounds)"

fun or_status_loop :: "slab \<Rightarrow> nat \<Rightarrow> nat list \<Rightarrow> slab c_result" where
  "or_status_loop s i [] = Inr s"
| "or_status_loop s i (j # js) =
     (case or_status s i (push_bit (31 - j) 1) of
        Inl f \<Rightarrow> Inl f
      | Inr s \<Rightarrow> or_status_loop s i js)"

text \<open>
  \<open>raw\<close> is the block \<open>malloc\<close> returned, with whatever the memory held before; \<open>None\<close> is
  a NULL return, which the code does not test. The loop that sets bits runs over
  \<open>status[i]\<close> for the \<open>i\<close> at which the clearing loop stopped: 512 for a class of 64 bytes.
\<close>

definition allocate_slab :: "slab option \<Rightarrow> nat \<Rightarrow> slab c_result" where
  "allocate_slab raw slab_class =
     (case raw of
        None \<Rightarrow> Inl Null_Pointer
      | Some r \<Rightarrow>
          if slab_class = 0 then Inl Division_By_Zero
          else
            (let i = memory_size div slab_class div 32;
                 s = r\<lparr>sclass := slab_class,
                       status := fold (\<lambda>i st. st[i := 0]) [0..<i] (status r)\<rparr>;
                 remainder = (memory_size - i * 32 * slab_class) div slab_class
             in if length (status r) < i then Inl Out_Of_Bounds
                else if remainder > 31 then Inl (Process_Exit (-1))
                else
                  (case or_status_loop s i [remainder..<32] of
                     Inl f \<Rightarrow> Inl f
                   | Inr s \<Rightarrow>
                       Inr (s\<lparr>status := fold (\<lambda>i st. st[i := NOT 0]) [Suc i..<512] (status s),
                             isFull := 0\<rparr>))))"

text \<open>
  \<open>mal\<close> is the allocator: given the slabs that are allocated, the block it returns next.
\<close>

definition slab_add :: "(slab list \<Rightarrow> slab option) \<Rightarrow> manager \<Rightarrow> nat \<Rightarrow> manager c_result" where
  "slab_add mal man slab_class =
     (case allocate_slab (mal (slabs man)) slab_class of
        Inl f \<Rightarrow> Inl f
      | Inr s \<Rightarrow> Inr (man\<lparr>slabs := ll_append (slabs man) s, num_slabs := num_slabs man + 1\<rparr>))"

text \<open>A slab pointer into the manager's list is the position of the slab in it.\<close>

definition get_slab :: "manager \<Rightarrow> nat \<Rightarrow> nat option" where
  "get_slab man slab_class =
     List.find (\<lambda>i. sclass (slabs man ! i) = slab_class \<and> isFull (slabs man ! i) = 0)
       [0..<length (slabs man)]"

definition find_val :: "slab \<Rightarrow> addr \<Rightarrow> bool" where
  "find_val s val_ptr \<longleftrightarrow> base s \<le> val_ptr \<and> base s + get_slab_size > val_ptr"

text \<open>
  \<open>LL_find(man->slabs, val_ptr)\<close>, then the entry's index from the distance of the two
  pointers. A pointer outside every slab is reported and changes nothing.
\<close>

definition man_delete :: "manager \<Rightarrow> addr \<Rightarrow> nat \<Rightarrow> manager" where
  "man_delete man val_ptr sz =
     (case List.find (\<lambda>i. find_val (slabs man ! i) val_ptr) [0..<length (slabs man)] of
        None \<Rightarrow> man
      | Some si \<Rightarrow>
          (let to_adjust = slabs man ! si;
               i = (val_ptr - base to_adjust) div sclass to_adjust
           in man\<lparr>slabs := (slabs man)[si := slab_delete to_adjust i]\<rparr>))"

definition nonfull :: "manager \<Rightarrow> nat" where
  "nonfull man = length (filter (\<lambda>s. isFull s = 0) (slabs man))"

lemma get_slab_Some:
  "get_slab man c = Some si \<Longrightarrow>
   si < length (slabs man) \<and> sclass (slabs man ! si) = c \<and> isFull (slabs man ! si) = 0"
  by (auto simp: get_slab_def dest: find_Some_mem)

lemma nonfull_mark:
  assumes "si < length (slabs man)" and "isFull (slabs man ! si) = 0"
  shows "nonfull (man\<lparr>slabs := (slabs man)[si := (slabs man ! si)\<lparr>isFull := 1\<rparr>]\<rparr>) < nonfull man"
proof -
  let ?xs = "slabs man"
  have split: "?xs = take si ?xs @ ?xs ! si # drop (Suc si) ?xs"
    using assms(1) by (rule id_take_nth_drop)
  have "?xs[si := s] = take si ?xs @ s # drop (Suc si) ?xs" for s
    using assms(1) by (rule upd_conv_take_nth_drop)
  then show ?thesis
    unfolding nonfull_def using assms(2)
    by (subst (2) split) (simp only: manager.simps filter_append length_append, simp)
qed

function get_address :: "manager \<Rightarrow> nat \<Rightarrow> addr option \<times> manager" where
  "get_address man val_size =
     (let slab_class = get_slab_class man val_size in
      case get_slab man slab_class of
        None \<Rightarrow> (None, man)
      | Some si \<Rightarrow>
          (let s = slabs man ! si; i = get_free_index (status s) in
           if i = 0
           then get_address (man\<lparr>slabs := (slabs man)[si := s\<lparr>isFull := 1\<rparr>]\<rparr>) val_size
           else (Some (base s + sclass s * (i - 1)),
                 man\<lparr>slabs := (slabs man)[si := s\<lparr>status := toggle_bit (status s) (i - 1)\<rparr>]\<rparr>)))"
  by pat_completeness auto
termination
  by (relation "measure (\<lambda>(man, val_size). nonfull man)") (auto dest!: get_slab_Some intro: nonfull_mark)

declare get_address.simps [simp del]

text \<open>\<open>initialize(NULL)\<close>: the powers of two from 64 bytes to a megabyte, ended by 0.\<close>

definition initialize :: "nat list option \<Rightarrow> manager" where
  "initialize cs =
     \<lparr>full = 0,
      classes = (case cs of None \<Rightarrow> map (\<lambda>i. 2 ^ i) [6..<21] @ [0] | Some l \<Rightarrow> l),
      slabs = [],
      num_slabs = 0\<rparr>"

section \<open>A fresh slab\<close>

definition capacity :: "slab \<Rightarrow> nat" where
  "capacity s = memory_size div sclass s"

definition slot_addr :: "slab \<Rightarrow> nat \<Rightarrow> addr" where
  "slot_addr s k = base s + sclass s * k"

text \<open>What the bit-setting loop of \<open>allocate_slab\<close> does to the word at position \<open>n\<close>.\<close>

definition or_bits :: "nat list \<Rightarrow> u32 \<Rightarrow> u32" where
  "or_bits js w = fold (\<lambda>j w. w OR push_bit (31 - j) 1) js w"

lemma or_status_loop_inside:
  "n < length (status s) \<Longrightarrow>
   or_status_loop s n js = Inr (s\<lparr>status := (status s)[n := or_bits js (status s ! n)]\<rparr>)"
  by (induction js arbitrary: s) (simp_all add: or_status_def or_bits_def)

lemma or_status_loop_outside:
  "length (status s) \<le> n \<Longrightarrow> js \<noteq> [] \<Longrightarrow> or_status_loop s n js = Inl Out_Of_Bounds"
  by (cases js) (simp_all add: or_status_def)

lemma bit_or_bits:
  "set js \<subseteq> {..<32} \<Longrightarrow> k < 32 \<Longrightarrow> bit (or_bits js w) (31 - k) \<longleftrightarrow> bit w (31 - k) \<or> k \<in> set js"
  unfolding or_bits_def
proof (induction js arbitrary: w)
  case (Cons j js)
  have "bit (w OR push_bit (31 - j) 1) (31 - k) \<longleftrightarrow> bit w (31 - k) \<or> k = j"
    using Cons.prems by (auto simp: bit_or_iff bit_exp_iff)
  then show ?case
    using Cons.IH [of "w OR push_bit (31 - j) 1"] Cons.prems by auto
qed simp

lemma remainder_eq:
  fixes c :: nat
  assumes "0 < c"
  shows "(m - m div c div 32 * 32 * c) div c = m div c mod 32"
proof -
  define q r where "q = m div c div 32" and "r = m div c mod 32"
  have "q * 32 * c + (c * r + m mod c) = c * (q * 32 + r) + m mod c"
    by (simp add: algebra_simps)
  also have "q * 32 + r = m div c" by (simp add: q_def r_def)
  also have "c * (m div c) + m mod c = m" by simp
  finally have "m - q * 32 * c = c * r + m mod c" by linarith
  moreover have "(c * r + m mod c) div c = r"
    using assms by simp
  ultimately show ?thesis
    by (simp add: q_def r_def)
qed

lemma capacity_bounds:
  "64 \<le> sclass s \<Longrightarrow> sclass s \<le> memory_size \<Longrightarrow> 0 < capacity s \<and> capacity s \<le> 16384"
proof -
  assume "64 \<le> sclass s" and le: "sclass s \<le> memory_size"
  then have "capacity s \<le> memory_size div 64"
    unfolding capacity_def by (intro div_le_mono2) auto
  with \<open>64 \<le> sclass s\<close> le show ?thesis
    by (simp add: capacity_def memory_size_def div_greater_zero_iff)
qed

lemma status_words_bound: "64 < c \<Longrightarrow> memory_size div c div 32 < 512"
proof -
  assume "64 < c"
  then have "memory_size div c \<le> memory_size div 65" by (intro div_le_mono2) auto
  also have "\<dots> < 512 * 32" by (simp add: memory_size_def)
  finally show ?thesis by (simp add: less_mult_imp_div_less)
qed

theorem allocate_slab_spec:
  assumes "64 < c" and "c \<le> memory_size" and len: "length (status r) = 512"
  shows "\<exists>s. allocate_slab (Some r) c = Inr s \<and> base s = base r \<and> sclass s = c \<and> isFull s = 0
           \<and> length (status s) = 512
           \<and> (\<forall>k < 16384. slot_used (status s) k \<longleftrightarrow>
                capacity s \<le> k \<or> 32 * (capacity s div 32) \<le> k \<and> slot_used (status r) k)"
proof -
  define cap where "cap = memory_size div c"
  define n where "n = cap div 32"
  define s1 where "s1 = r\<lparr>sclass := c, status := fold (\<lambda>i st. st[i := 0]) [0..<n] (status r)\<rparr>"
  define s2 where "s2 = s1\<lparr>status := (status s1)[n := or_bits [cap mod 32..<32] (status s1 ! n)]\<rparr>"
  define s where "s = s2\<lparr>status := fold (\<lambda>i st. st[i := NOT 0]) [Suc n..<512] (status s2), isFull := 0\<rparr>"
  have n: "n < 512" using status_words_bound [OF assms(1)] by (simp add: n_def cap_def)
  have rem: "(memory_size - n * 32 * c) div c = cap mod 32"
    using remainder_eq [of c memory_size] assms(1) by (simp add: n_def cap_def)
  have lens: "length (status s1) = 512" "length (status s2) = 512"
    using len by (simp_all add: s1_def s2_def)
  have "or_status_loop s1 n [cap mod 32..<32] = Inr s2"
    using or_status_loop_inside [of n s1] n lens by (simp add: s2_def)
  then have alloc: "allocate_slab (Some r) c = Inr s"
    using assms(1) rem mod_less_divisor [of 32 cap] n len
    by (simp add: allocate_slab_def Let_def s_def s1_def n_def cap_def)
  have used: "slot_used (status s) k \<longleftrightarrow> cap \<le> k \<or> 32 * n \<le> k \<and> slot_used (status r) k"
    if k: "k < 16384" for k
  proof -
    define w where "w = k div 32"
    have w: "w < 512" and kw: "k = 32 * w + k mod 32" "k mod 32 < 32"
      using k by (auto simp: w_def)
    have capn: "cap = 32 * n + cap mod 32" by (simp add: n_def)
    have r1: "status s1 ! w = (if w < n then 0 else status r ! w)"
      using w len by (simp add: s1_def nth_fold_update)
    consider "w < n" | "w = n" | "n < w" by linarith
    then show ?thesis
    proof cases
      case 1
      then have "status s ! w = 0"
        using w lens r1 by (simp add: s_def nth_fold_update s2_def)
      moreover have "\<not> 32 * n \<le> k" and "\<not> cap \<le> k"
        using 1 kw capn by linarith+
      ultimately show ?thesis
        by (simp add: slot_used_def w_def)
    next
      case 2
      then have "status s ! w = or_bits [cap mod 32..<32] (status s1 ! n)"
        using w lens by (simp add: s_def nth_fold_update s2_def)
      moreover have "bit (or_bits [cap mod 32..<32] (status s1 ! n)) (31 - k mod 32)
          \<longleftrightarrow> bit (status s1 ! n) (31 - k mod 32) \<or> cap mod 32 \<le> k mod 32"
        using kw(2) by (subst bit_or_bits) auto
      moreover have "cap \<le> k \<longleftrightarrow> cap mod 32 \<le> k mod 32" and "32 * n \<le> k"
        using 2 kw capn by linarith+
      moreover have "status s1 ! n = status r ! w"
        using 2 r1 by simp
      ultimately show ?thesis
        using 2 by (auto simp: slot_used_def w_def)
    next
      case 3
      then have "status s ! w = NOT 0"
        using w lens by (simp add: s_def nth_fold_update)
      moreover have "cap \<le> k"
        using 3 kw capn mod_less_divisor [of 32 cap] by linarith
      ultimately show ?thesis
        by (simp add: slot_used_def w_def bit_not_iff)
    qed
  qed
  have "base s = base r" "sclass s = c" "isFull s = 0" "length (status s) = 512"
    using lens by (simp_all add: s_def s2_def s1_def)
  with alloc used show ?thesis
    by (auto simp: capacity_def cap_def n_def)
qed

text \<open>A slab of the smallest class has 512 full words; the loop that sets bits leaves the array.\<close>

lemma allocate_slab_64:
  assumes "length (status r) = 512"
  shows "allocate_slab (Some r) 64 = Inl Out_Of_Bounds"
  using assms or_status_loop_outside
  by (simp add: allocate_slab_def Let_def memory_size_def)

section \<open>The invariant of the manager\<close>

text \<open>
  A slab is well formed when entries beyond its capacity are marked in use, and when
  \<open>isFull\<close> is only set while no entry is free.
\<close>

definition slab_ok :: "slab \<Rightarrow> bool" where
  "slab_ok s \<longleftrightarrow>
     length (status s) = 512 \<and> 64 \<le> sclass s \<and> sclass s \<le> memory_size \<and> 0 < base s
     \<and> (\<forall>k < 16384. capacity s \<le> k \<or> isFull s \<noteq> 0 \<longrightarrow> slot_used (status s) k)"

definition slabs_apart :: "slab list \<Rightarrow> bool" where
  "slabs_apart ss \<longleftrightarrow>
     (\<forall>i < length ss. \<forall>j < length ss. i \<noteq> j \<longrightarrow>
        disjoint_blocks (base (ss ! i)) get_slab_size (base (ss ! j)) get_slab_size)"

definition man_inv :: "manager \<Rightarrow> bool" where
  "man_inv man \<longleftrightarrow>
     classes man = classes (initialize None) \<and> list_all slab_ok (slabs man)
     \<and> slabs_apart (slabs man) \<and> num_slabs man = of_nat (length (slabs man))"

definition slab_live :: "slab \<Rightarrow> addr set" where
  "slab_live s = slot_addr s ` {k. k < capacity s \<and> slot_used (status s) k}"

definition live :: "manager \<Rightarrow> addr set" where
  "live man = (\<Union>s \<in> set (slabs man). slab_live s)"

definition slab_at :: "manager \<Rightarrow> addr \<Rightarrow> nat option" where
  "slab_at man a = List.find (\<lambda>i. find_val (slabs man ! i) a) [0..<length (slabs man)]"

definition extent :: "manager \<Rightarrow> addr \<Rightarrow> nat" where
  "extent man a = (case slab_at man a of None \<Rightarrow> 0 | Some si \<Rightarrow> sclass (slabs man ! si))"

definition layout :: "manager \<Rightarrow> nat list \<times> (addr \<times> nat) list" where
  "layout man = (classes man, map (\<lambda>s. (base s, sclass s)) (slabs man))"

lemma man_inv_slab: "man_inv man \<Longrightarrow> si < length (slabs man) \<Longrightarrow> slab_ok (slabs man ! si)"
  by (simp add: man_inv_def list_all_length)

lemma slot_in_slab:
  assumes "slab_ok s" and "k < capacity s"
  shows "base s \<le> slot_addr s k" and "slot_addr s k + sclass s \<le> base s + memory_size"
proof -
  show "base s \<le> slot_addr s k" by (simp add: slot_addr_def)
  have "sclass s * k + sclass s = sclass s * Suc k" by simp
  also have "\<dots> \<le> sclass s * capacity s"
    using assms(2) by (intro mult_le_mono) auto
  also have "\<dots> \<le> memory_size"
    by (simp add: capacity_def)
  finally show "slot_addr s k + sclass s \<le> base s + memory_size"
    by (simp add: slot_addr_def)
qed

lemma find_val_slot: "slab_ok s \<Longrightarrow> k < capacity s \<Longrightarrow> find_val s (slot_addr s k)"
  using slot_in_slab [of s k] by (auto simp: find_val_def get_slab_size_def slab_ok_def)

lemma slab_at_unique:
  assumes inv: "man_inv man" and si: "si < length (slabs man)" and v: "find_val (slabs man ! si) a"
  shows "slab_at man a = Some si"
proof (cases "slab_at man a")
  case None
  with si v show ?thesis
    by (auto simp: slab_at_def find_None_iff_all)
next
  case (Some sj)
  then have sj: "sj < length (slabs man)" "find_val (slabs man ! sj) a"
    by (auto simp: slab_at_def dest!: find_Some_mem)
  have "sj = si"
  proof (rule ccontr)
    assume "sj \<noteq> si"
    with inv si sj(1) have
      "disjoint_blocks (base (slabs man ! sj)) get_slab_size (base (slabs man ! si)) get_slab_size"
      by (simp add: man_inv_def slabs_apart_def)
    with v sj(2) show False
      by (auto simp: disjoint_blocks_def find_val_def)
  qed
  with Some show ?thesis by simp
qed

lemma slab_at_slot:
  "\<lbrakk> man_inv man; si < length (slabs man); k < capacity (slabs man ! si) \<rbrakk> \<Longrightarrow>
   slab_at man (slot_addr (slabs man ! si) k) = Some si"
  by (meson slab_at_unique find_val_slot man_inv_slab)

lemma extent_slot:
  "\<lbrakk> man_inv man; si < length (slabs man); k < capacity (slabs man ! si) \<rbrakk> \<Longrightarrow>
   extent man (slot_addr (slabs man ! si) k) = sclass (slabs man ! si)"
  by (simp add: extent_def slab_at_slot)

lemma live_iff:
  "a \<in> live man \<longleftrightarrow>
   (\<exists>si k. si < length (slabs man) \<and> k < capacity (slabs man ! si)
           \<and> slot_used (status (slabs man ! si)) k \<and> a = slot_addr (slabs man ! si) k)"
  by (fastforce simp: live_def slab_live_def set_conv_nth)

lemma slot_addr_inj: "slab_ok s \<Longrightarrow> slot_addr s k = slot_addr s j \<longleftrightarrow> k = j"
  by (auto simp: slot_addr_def slab_ok_def)

lemma live_disjoint_blocks:
  assumes inv: "man_inv man" and a: "a \<in> live man" and b: "b \<in> live man" and ne: "a \<noteq> b"
  shows "disjoint_blocks a (extent man a) b (extent man b)"
proof -
  obtain si k where a': "si < length (slabs man)" "k < capacity (slabs man ! si)"
      "a = slot_addr (slabs man ! si) k"
    using a by (auto simp: live_iff)
  obtain sj j where b': "sj < length (slabs man)" "j < capacity (slabs man ! sj)"
      "b = slot_addr (slabs man ! sj) j"
    using b by (auto simp: live_iff)
  have ext: "extent man a = sclass (slabs man ! si)" "extent man b = sclass (slabs man ! sj)"
    using a' b' extent_slot [OF inv] by auto
  note ina = slot_in_slab [OF man_inv_slab [OF inv a'(1)] a'(2)]
  note inb = slot_in_slab [OF man_inv_slab [OF inv b'(1)] b'(2)]
  show ?thesis
  proof (cases "si = sj")
    case True
    let ?c = "sclass (slabs man ! sj)"
    from ne a' b' True have "k \<noteq> j" by auto
    then have "Suc k \<le> j \<or> Suc j \<le> k" by auto
    then have "?c * Suc k \<le> ?c * j \<or> ?c * Suc j \<le> ?c * k"
      using mult_le_mono2 by blast
    then show ?thesis
      unfolding ext disjoint_blocks_def using a'(3) b'(3) True by (auto simp: slot_addr_def)
  next
    case False
    with inv a'(1) b'(1) have
      "disjoint_blocks (base (slabs man ! si)) get_slab_size (base (slabs man ! sj)) get_slab_size"
      by (simp add: man_inv_def slabs_apart_def)
    with ina inb a'(3) b'(3) show ?thesis
      unfolding ext disjoint_blocks_def by (auto simp: get_slab_size_def)
  qed
qed

section \<open>Every operation keeps the invariant\<close>

abbreviation upd_slab :: "manager \<Rightarrow> nat \<Rightarrow> slab \<Rightarrow> manager" where
  "upd_slab man si s \<equiv> man\<lparr>slabs := (slabs man)[si := s]\<rparr>"

lemma man_inv_upd_slab:
  assumes "man_inv man" and "si < length (slabs man)" and "slab_ok s"
    and "base s = base (slabs man ! si)"
  shows "man_inv (upd_slab man si s)"
proof -
  have "base ((slabs man)[si := s] ! i) = base (slabs man ! i)" for i
    using assms(2,4) by (cases "i = si") auto
  moreover have "\<forall>i < length (slabs man). slab_ok ((slabs man)[si := s] ! i)"
    using assms(1-3) by (auto simp: man_inv_def list_all_length nth_list_update)
  ultimately show ?thesis
    using assms(1,3) by (simp add: man_inv_def slabs_apart_def list_all_length nth_list_update)
qed

lemma layout_upd_slab:
  assumes "si < length (slabs man)" and "base s = base (slabs man ! si)"
    and "sclass s = sclass (slabs man ! si)"
  shows "layout (upd_slab man si s) = layout man"
  using assms by (auto simp: layout_def intro!: nth_equalityI simp: nth_list_update)

lemma layout_nth:
  assumes "layout m' = layout m"
  shows "length (slabs m') = length (slabs m)"
    and "i < length (slabs m) \<Longrightarrow>
           base (slabs m' ! i) = base (slabs m ! i) \<and> sclass (slabs m' ! i) = sclass (slabs m ! i)"
proof -
  from assms have eq: "map (\<lambda>s. (base s, sclass s)) (slabs m') = map (\<lambda>s. (base s, sclass s)) (slabs m)"
    by (simp add: layout_def)
  then show len: "length (slabs m') = length (slabs m)"
    by (rule map_eq_imp_length_eq)
  show "base (slabs m' ! i) = base (slabs m ! i) \<and> sclass (slabs m' ! i) = sclass (slabs m ! i)"
    if "i < length (slabs m)"
    using arg_cong [OF eq, of "\<lambda>xs. xs ! i"] that len by simp
qed

lemma extent_layout: "layout m' = layout m \<Longrightarrow> extent m' = extent m"
proof
  fix a
  assume l: "layout m' = layout m"
  note nth = layout_nth [OF l]
  have "slab_at m' a = slab_at m a"
    unfolding slab_at_def nth(1) by (rule find_cong) (auto simp: find_val_def nth(2))
  then show "extent m' a = extent m a"
    using nth(2) by (auto simp: extent_def slab_at_def split: option.splits dest!: find_Some_mem)
qed

lemma get_slab_class_layout: "layout m' = layout m \<Longrightarrow> get_slab_class m' = get_slab_class m"
  by (auto simp: layout_def get_slab_class_def)

text \<open>Flipping one allocation bit adds or removes exactly that entry.\<close>

lemma live_toggle:
  assumes inv: "man_inv man" and si: "si < length (slabs man)" and s: "s = slabs man ! si"
    and f: "f < capacity s"
  shows "b \<in> live (upd_slab man si (s\<lparr>status := toggle_bit (status s) f, isFull := v\<rparr>)) \<longleftrightarrow>
           (if b = slot_addr s f then \<not> slot_used (status s) f else b \<in> live man)"
    (is "b \<in> live ?m \<longleftrightarrow> _")
proof -
  let ?s = "s\<lparr>status := toggle_bit (status s) f, isFull := v\<rparr>"
  have ok: "slab_ok s" using man_inv_slab [OF inv si] s by simp
  then have len: "length (status s) = 512" and cap: "capacity s \<le> 16384"
    using capacity_bounds [of s] by (auto simp: slab_ok_def)
  have [simp]: "capacity ?s = capacity s" "slot_addr ?s = slot_addr s"
    by (simp_all add: capacity_def slot_addr_def fun_eq_iff)
  have tog: "slot_used (toggle_bit (status s) f) k \<longleftrightarrow>
      (if k = f then \<not> slot_used (status s) f else slot_used (status s) k)" if "k < capacity s" for k
    using that f len cap by (intro slot_used_toggle) auto
  have own: "i = si \<and> k = f" if "i < length (slabs man)" "k < capacity (slabs man ! i)"
      "slot_addr s f = slot_addr (slabs man ! i) k" for i k
  proof -
    have "slab_at man (slot_addr s f) = Some si" "slab_at man (slot_addr (slabs man ! i) k) = Some i"
      using slab_at_slot [OF inv] si s f that(1,2) by auto
    with that(3) have "i = si" by simp
    with that(3) s slot_addr_inj [OF ok] show ?thesis by simp
  qed
  have nth: "slabs ?m ! i = (if i = si then ?s else slabs man ! i)" if "i < length (slabs man)" for i
    using that by (simp add: nth_list_update)
  define other where "other \<longleftrightarrow> (\<exists>i k. i < length (slabs man) \<and> i \<noteq> si \<and> k < capacity (slabs man ! i)
        \<and> slot_used (status (slabs man ! i)) k \<and> b = slot_addr (slabs man ! i) k)"
  have new: "b \<in> live ?m \<longleftrightarrow>
      other \<or> (\<exists>k < capacity s. slot_used (toggle_bit (status s) f) k \<and> b = slot_addr s k)"
    using si unfolding other_def
    by (auto simp: live_iff [of b ?m] nth_list_update split: if_splits)
  have old: "b \<in> live man \<longleftrightarrow>
      other \<or> (\<exists>k < capacity s. slot_used (status s) k \<and> b = slot_addr s k)"
    using si s unfolding other_def by (auto simp: live_iff [of b man])
  show ?thesis
  proof (cases "b = slot_addr s f")
    case True
    then have "\<not> other"
      using own by (auto simp: other_def)
    moreover have "(\<exists>k < capacity s. slot_used (toggle_bit (status s) f) k \<and> b = slot_addr s k) \<longleftrightarrow>
        slot_used (toggle_bit (status s) f) f"
      using True f slot_addr_inj [OF ok] by auto
    ultimately show ?thesis
      using True new tog [OF f] by simp
  next
    case False
    have "slot_used (toggle_bit (status s) f) k \<and> b = slot_addr s k \<longleftrightarrow>
        slot_used (status s) k \<and> b = slot_addr s k" if "k < capacity s" for k
      using False tog [OF that] by auto
    then have "(\<exists>k < capacity s. slot_used (toggle_bit (status s) f) k \<and> b = slot_addr s k) \<longleftrightarrow>
          (\<exists>k < capacity s. slot_used (status s) k \<and> b = slot_addr s k)"
      by blast
    with False show ?thesis by (simp only: new old if_False)
  qed
qed

lemma slab_ok_mark_full:
  "slab_ok s \<Longrightarrow> get_free_index (status s) = 0 \<Longrightarrow> slab_ok (s\<lparr>isFull := 1\<rparr>)"
  by (simp add: slab_ok_def get_free_index_0 capacity_def)

lemma slab_ok_toggle:
  assumes "slab_ok s" and "f < capacity s" and "v = isFull s \<and> isFull s = 0 \<or> v = 0"
  shows "slab_ok (s\<lparr>status := toggle_bit (status s) f, isFull := v\<rparr>)"
proof -
  have len: "length (status s) = 512" and "capacity s \<le> 16384"
    using assms(1) capacity_bounds [of s] by (auto simp: slab_ok_def)
  then have "slot_used (toggle_bit (status s) f) k" if "k < 16384" "capacity s \<le> k" for k
    using that assms(1,2) slot_used_toggle [of f "status s" k] by (auto simp: slab_ok_def)
  with assms len show ?thesis
    by (auto simp: slab_ok_def capacity_def)
qed

lemma live_mark_full:
  assumes "si < length (slabs man)"
  shows "live (upd_slab man si ((slabs man ! si)\<lparr>isFull := v\<rparr>)) = live man"
proof -
  have "slab_live (s\<lparr>isFull := v\<rparr>) = slab_live s" for s
    by (simp add: slab_live_def slot_addr_def capacity_def image_def)
  then have "map slab_live (slabs (upd_slab man si ((slabs man ! si)\<lparr>isFull := v\<rparr>)))
      = map slab_live (slabs man)"
    using assms by (intro nth_equalityI) (simp_all add: nth_list_update)
  then have "set (map slab_live (slabs (upd_slab man si ((slabs man ! si)\<lparr>isFull := v\<rparr>))))
      = set (map slab_live (slabs man))"
    by (rule arg_cong)
  then show ?thesis
    by (simp only: live_def set_map)
qed

definition class_full :: "manager \<Rightarrow> nat \<Rightarrow> bool" where
  "class_full man c \<longleftrightarrow>
     (\<forall>i < length (slabs man). sclass (slabs man ! i) = c \<longrightarrow>
        (\<forall>k < capacity (slabs man ! i). slot_used (status (slabs man ! i)) k))"

text \<open>
  \<open>get_address\<close> either reserves one entry of the right class that was free, or finds every
  entry of the class in use and only records that in \<open>isFull\<close>.
\<close>

definition get_address_post :: "manager \<Rightarrow> nat \<Rightarrow> addr option \<Rightarrow> manager \<Rightarrow> bool" where
  "get_address_post man n r man' \<longleftrightarrow>
     man_inv man' \<and> layout man' = layout man
     \<and> (case r of
          None \<Rightarrow> live man' = live man \<and> class_full man (get_slab_class man n)
        | Some a \<Rightarrow> a \<notin> live man \<and> live man' = insert a (live man)
                    \<and> extent man a = get_slab_class man n)"

lemma get_slab_None:
  assumes inv: "man_inv man" and none: "get_slab man c = None"
  shows "class_full man c"
proof -
  have "slot_used (status (slabs man ! i)) k"
    if "i < length (slabs man)" "sclass (slabs man ! i) = c" "k < capacity (slabs man ! i)" for i k
  proof -
    have ok: "slab_ok (slabs man ! i)" using man_inv_slab [OF inv that(1)] .
    have "isFull (slabs man ! i) \<noteq> 0"
      using none that(1,2) by (auto simp: get_slab_def find_None_iff_all)
    moreover have "k < 16384"
      using capacity_bounds [of "slabs man ! i"] ok that(3) by (auto simp: slab_ok_def)
    ultimately show ?thesis
      using ok by (auto simp: slab_ok_def)
  qed
  then show ?thesis by (simp add: class_full_def)
qed

lemma get_address_take:
  assumes inv: "man_inv man" and slab: "get_slab man (get_slab_class man n) = Some si"
    and idx: "get_free_index (status (slabs man ! si)) = Suc f"
  shows "get_address_post man n (Some (slot_addr (slabs man ! si) f))
           (upd_slab man si ((slabs man ! si)\<lparr>status := toggle_bit (status (slabs man ! si)) f\<rparr>))"
proof -
  define s where "s = slabs man ! si"
  from get_slab_Some [OF slab] have si: "si < length (slabs man)"
      and c: "sclass s = get_slab_class man n" and nf: "isFull s = 0"
    by (auto simp: s_def)
  from man_inv_slab [OF inv si] have ok: "slab_ok s" by (simp add: s_def)
  then have len: "length (status s) = 512" by (simp add: slab_ok_def)
  from get_free_index_Suc [OF idx] have f: "f < 16384" "\<not> slot_used (status s) f"
    using len by (auto simp: s_def)
  with ok have cap: "f < capacity s"
    by (meson slab_ok_def not_less)
  let ?s = "s\<lparr>status := toggle_bit (status s) f, isFull := 0\<rparr>"
  have eq: "?s = s\<lparr>status := toggle_bit (status s) f\<rparr>" using nf by simp
  have "man_inv (upd_slab man si ?s)"
    using slab_ok_toggle [OF ok cap] by (intro man_inv_upd_slab [OF inv si]) (simp_all add: s_def)
  moreover have "layout (upd_slab man si ?s) = layout man"
    by (rule layout_upd_slab [OF si]) (simp_all add: s_def)
  moreover have "live (upd_slab man si ?s) = insert (slot_addr s f) (live man)"
  proof (rule set_eqI)
    show "b \<in> live (upd_slab man si ?s) \<longleftrightarrow> b \<in> insert (slot_addr s f) (live man)" for b
      using live_toggle [OF inv si s_def cap, of b 0] f(2) by simp
  qed
  moreover have "slot_addr s f \<notin> live man"
  proof
    assume "slot_addr s f \<in> live man"
    then obtain sj k where k: "sj < length (slabs man)" "k < capacity (slabs man ! sj)"
        "slot_used (status (slabs man ! sj)) k" "slot_addr s f = slot_addr (slabs man ! sj) k"
      by (auto simp: live_iff)
    then have "sj = si"
      using slab_at_slot [OF inv k(1,2)] slab_at_slot [OF inv si, of f] cap by (simp add: s_def)
    with k f(2) slot_addr_inj [OF ok, of f k] show False by (auto simp: s_def)
  qed
  moreover have "extent man (slot_addr s f) = get_slab_class man n"
    using extent_slot [OF inv si, of f] cap c by (simp add: s_def)
  ultimately have "get_address_post man n (Some (slot_addr s f)) (upd_slab man si ?s)"
    by (simp add: get_address_post_def)
  then show ?thesis
    unfolding eq unfolding s_def .
qed

lemma get_address_spec:
  "man_inv man \<Longrightarrow> get_address man n = (r, man') \<Longrightarrow> get_address_post man n r man'"
proof (induction man n rule: get_address.induct)
  case (1 man n)
  show ?case
  proof (cases "get_slab man (get_slab_class man n)")
    case None
    with 1 get_slab_None [OF 1(2)] show ?thesis
      by (auto simp: get_address.simps [of man n] get_address_post_def)
  next
    case (Some si)
    define s where "s = slabs man ! si"
    from get_slab_Some [OF Some] have si: "si < length (slabs man)" by simp
    show ?thesis
    proof (cases "get_free_index (status s)")
      case 0
      let ?m = "upd_slab man si (s\<lparr>isFull := 1\<rparr>)"
      have inv: "man_inv ?m"
        using slab_ok_mark_full [OF man_inv_slab [OF 1(2) si]] 0
        by (intro man_inv_upd_slab [OF 1(2) si]) (simp_all add: s_def)
      have lay: "layout ?m = layout man"
        by (rule layout_upd_slab [OF si]) (simp_all add: s_def)
      have "get_address ?m n = (r, man')"
        using 1(3) Some 0 by (simp add: get_address.simps [of man n] s_def Let_def)
      then have post: "get_address_post ?m n r man'"
        using 1(1) [OF refl Some s_def refl 0 inv] by simp
      have lv: "live ?m = live man"
        using live_mark_full [OF si] by (simp add: s_def)
      have full: "class_full ?m c = class_full man c" for c
        using si by (auto simp: class_full_def nth_list_update s_def capacity_def)
      show ?thesis
        using post lay lv full extent_layout [OF lay] get_slab_class_layout [OF lay]
        by (simp add: get_address_post_def split: option.splits)
    next
      case (Suc f)
      then show ?thesis
        using get_address_take [OF 1(2) Some] 1(3) Some
        by (auto simp: get_address.simps [of man n] s_def Let_def slot_addr_def)
    qed
  qed
qed

lemma man_delete_slot:
  assumes inv: "man_inv man" and si: "si < length (slabs man)" and k: "k < capacity (slabs man ! si)"
  shows "man_delete man (slot_addr (slabs man ! si) k) sz =
           upd_slab man si ((slabs man ! si)\<lparr>status := toggle_bit (status (slabs man ! si)) k, isFull := 0\<rparr>)"
proof -
  have "0 < sclass (slabs man ! si)"
    using man_inv_slab [OF inv si] by (simp add: slab_ok_def)
  with slab_at_slot [OF assms] show ?thesis
    by (simp add: man_delete_def slab_at_def slab_delete_def Let_def slot_addr_def)
qed

lemma man_delete_spec:
  assumes inv: "man_inv man" and a: "a \<in> live man"
  shows "man_inv (man_delete man a sz)" and "layout (man_delete man a sz) = layout man"
    and "live (man_delete man a sz) = live man - {a}"
    and "\<not> class_full (man_delete man a sz) (extent man a)"
proof -
  from a obtain si k where si: "si < length (slabs man)" and k: "k < capacity (slabs man ! si)"
      and used: "slot_used (status (slabs man ! si)) k" and a': "a = slot_addr (slabs man ! si) k"
    by (auto simp: live_iff)
  define s where "s = slabs man ! si"
  define s' where "s' = s\<lparr>status := toggle_bit (status s) k, isFull := 0\<rparr>"
  have eq: "man_delete man a sz = upd_slab man si s'"
    using man_delete_slot [OF inv si k] a' by (simp add: s_def s'_def)
  have ok: "slab_ok s" using man_inv_slab [OF inv si] by (simp add: s_def)
  have ok': "slab_ok s'"
    using slab_ok_toggle [OF ok, of k 0] k by (simp add: s_def s'_def)
  show "man_inv (man_delete man a sz)"
    unfolding eq using ok' by (intro man_inv_upd_slab [OF inv si]) (simp_all add: s'_def s_def)
  show "layout (man_delete man a sz) = layout man"
    unfolding eq by (rule layout_upd_slab [OF si]) (simp_all add: s'_def s_def)
  show "live (man_delete man a sz) = live man - {a}"
  proof (rule set_eqI)
    show "b \<in> live (man_delete man a sz) \<longleftrightarrow> b \<in> live man - {a}" for b
      unfolding eq s'_def using live_toggle [OF inv si s_def, of k b 0] k used a' a
      by (auto simp: s_def)
  qed
  have "\<not> slot_used (status s') k"
    using ok k used capacity_bounds [of s] slot_used_toggle [of k "status s" k]
    by (auto simp: s'_def s_def slab_ok_def)
  moreover have "extent man a = sclass s'" "k < capacity s'"
    using extent_slot [OF inv si k] a' k by (simp_all add: s'_def s_def capacity_def)
  moreover have "slabs (upd_slab man si s') ! si = s'" "si < length (slabs (upd_slab man si s'))"
    using si by simp_all
  ultimately show "\<not> class_full (man_delete man a sz) (extent man a)"
    unfolding eq class_full_def by metis
qed

subsection \<open>Adding a slab\<close>

definition fresh_block :: "slab list \<Rightarrow> slab \<Rightarrow> bool" where
  "fresh_block ss r \<longleftrightarrow>
     0 < base r \<and> length (status r) = 512
     \<and> list_all (\<lambda>s. disjoint_blocks (base r) get_slab_size (base s) get_slab_size) ss"

text \<open>What the C standard promises of \<open>malloc\<close>: a returned block overlaps no other live one.\<close>

definition malloc_ok :: "(slab list \<Rightarrow> slab option) \<Rightarrow> bool" where
  "malloc_ok mal \<longleftrightarrow> (\<forall>ss r. mal ss = Some r \<longrightarrow> fresh_block ss r)"

text \<open>The classes of which a slab can be allocated without a fault.\<close>

definition class_ok :: "nat \<Rightarrow> bool" where
  "class_ok c \<longleftrightarrow> 64 < c \<and> c \<le> memory_size"

lemma slab_ok_allocated:
  assumes "class_ok c" and "fresh_block ss r"
  obtains s where "allocate_slab (Some r) c = Inr s" "slab_ok s" "base s = base r" "sclass s = c"
    "isFull s = 0"
    "\<forall>k < 16384. slot_used (status s) k \<longleftrightarrow>
       capacity s \<le> k \<or> 32 * (capacity s div 32) \<le> k \<and> slot_used (status r) k"
proof -
  from assms allocate_slab_spec [of c r] obtain s where s: "allocate_slab (Some r) c = Inr s"
      "base s = base r" "sclass s = c" "isFull s = 0" "length (status s) = 512"
      "\<forall>k < 16384. slot_used (status s) k \<longleftrightarrow>
         capacity s \<le> k \<or> 32 * (capacity s div 32) \<le> k \<and> slot_used (status r) k"
    by (auto simp: class_ok_def fresh_block_def)
  then have "slab_ok s"
    using assms by (auto simp: slab_ok_def class_ok_def fresh_block_def)
  with s that show thesis by blast
qed

lemma slabs_apart_snoc:
  assumes "slabs_apart ss"
    and "list_all (\<lambda>s'. disjoint_blocks (base s) get_slab_size (base s') get_slab_size) ss"
  shows "slabs_apart (ss @ [s])"
proof -
  have old: "disjoint_blocks (base (ss ! i)) get_slab_size (base (ss ! j)) get_slab_size"
    if "i < length ss" "j < length ss" "i \<noteq> j" for i j
    using assms(1) that by (simp add: slabs_apart_def)
  have new: "disjoint_blocks (base s) get_slab_size (base (ss ! i)) get_slab_size"
    "disjoint_blocks (base (ss ! i)) get_slab_size (base s) get_slab_size" if "i < length ss" for i
    using assms(2) that by (simp_all add: list_all_length disjoint_blocks_sym [of "base (ss ! i)"])
  show ?thesis
    unfolding slabs_apart_def by (auto simp: nth_append less_Suc_eq old new)
qed

lemma slab_add_spec:
  assumes inv: "man_inv man" and c: "class_ok c" and r: "mal (slabs man) = Some r"
    and fr: "fresh_block (slabs man) r"
  shows "\<exists>s man'. allocate_slab (Some r) c = Inr s \<and> slab_add mal man c = Inr man' \<and> man_inv man'
           \<and> slabs man' = slabs man @ [s] \<and> classes man' = classes man
           \<and> live man' = live man \<union> slab_live s \<and> (\<forall>a \<in> live man. extent man' a = extent man a)"
proof -
  from slab_ok_allocated [OF c fr] obtain s where s: "allocate_slab (Some r) c = Inr s" "slab_ok s"
      "base s = base r" "sclass s = c" "isFull s = 0"
    by blast
  define man' where "man' = man\<lparr>slabs := slabs man @ [s], num_slabs := num_slabs man + 1\<rparr>"
  have add: "slab_add mal man c = Inr man'"
    using r s by (simp add: slab_add_def man'_def ll_append_def)
  have "slabs_apart (slabs man @ [s])"
    using inv fr s by (intro slabs_apart_snoc) (auto simp: man_inv_def fresh_block_def)
  then have inv': "man_inv man'"
    using inv s by (simp add: man_inv_def man'_def)
  have "extent man' a = extent man a" if "a \<in> live man" for a
  proof -
    from that obtain si k where si: "si < length (slabs man)" and k: "k < capacity (slabs man ! si)"
        and a: "a = slot_addr (slabs man ! si) k"
      by (auto simp: live_iff)
    from si have nth: "slabs man' ! si = slabs man ! si" "si < length (slabs man')"
      by (simp_all add: man'_def nth_append)
    show ?thesis
      using extent_slot [OF inv si k] extent_slot [OF inv' nth(2), of k] k a nth(1) by simp
  qed
  moreover have "live man' = live man \<union> slab_live s"
    by (auto simp: live_def man'_def)
  ultimately show ?thesis
    using s(1) add inv' by (auto simp: man'_def)
qed

subsection \<open>Size classes\<close>

lemma default_classes:
  "classes (initialize None) =
     [64, 128, 256, 512, 1024, 2048, 4096, 8192, 16384, 32768, 65536, 131072, 262144, 524288, 1048576, 0]"
  by (simp add: initialize_def upt_conv_Cons)

lemma get_slab_class_loop_find:
  "0 \<notin> set cs \<Longrightarrow>
   get_slab_class_loop prev (cs @ [0]) n =
     (case List.find (\<lambda>c. n \<le> c) cs of None \<Rightarrow> last (prev # cs) | Some c \<Rightarrow> c)"
  by (induction cs arbitrary: prev) (auto split: option.splits)

lemma find_sorted_least:
  "sorted cs \<Longrightarrow> List.find (\<lambda>c. n \<le> c) cs = Some c \<Longrightarrow> d \<in> set cs \<Longrightarrow> n \<le> d \<Longrightarrow> c \<le> d"
  for n :: nat
  by (induction cs) (auto split: if_splits)

lemma get_slab_class_cases:
  assumes "classes man = classes (initialize None)"
  shows "get_slab_class man n \<in> set (butlast (classes man))"
    and "n \<le> memory_size \<Longrightarrow> n \<le> get_slab_class man n"
    and "c \<in> set (butlast (classes man)) \<Longrightarrow> n \<le> c \<Longrightarrow> get_slab_class man n \<le> c"
proof -
  let ?cs = "butlast (classes man)"
  have cs: "classes man = ?cs @ [0]" "0 \<notin> set ?cs" "sorted ?cs" "last ?cs = memory_size" "?cs \<noteq> []"
    unfolding assms default_classes by (simp_all add: memory_size_def)
  have eq: "get_slab_class man n =
      (case List.find (\<lambda>c. n \<le> c) ?cs of None \<Rightarrow> last (0 # ?cs) | Some c \<Rightarrow> c)"
    unfolding get_slab_class_def by (subst cs(1)) (rule get_slab_class_loop_find [OF cs(2)])
  have lastm: "last (0 # ?cs) \<in> set ?cs" "last (0 # ?cs) = memory_size"
    using cs(4,5) last_in_set [OF cs(5)] by auto
  show "get_slab_class man n \<in> set ?cs"
    using lastm(1) by (auto simp: eq split: option.splits dest: find_Some_mem)
  show "n \<le> get_slab_class man n" if "n \<le> memory_size"
    using that lastm(2) unfolding eq by (auto split: option.splits dest: find_Some_mem)
  show "get_slab_class man n \<le> c" if "c \<in> set ?cs" "n \<le> c"
  proof (cases "List.find (\<lambda>c. n \<le> c) ?cs")
    case None
    with that show ?thesis by (auto simp: find_None_iff_all)
  next
    case (Some d)
    with that find_sorted_least [OF cs(3) Some] show ?thesis by (simp add: eq)
  qed
qed

lemma get_slab_class_ok:
  assumes "man_inv man" and "64 < n"
  shows "class_ok (get_slab_class man n)"
proof -
  have cls: "classes man = classes (initialize None)" using assms(1) by (simp add: man_inv_def)
  then have "get_slab_class man n \<le> memory_size"
    using get_slab_class_cases(1) [OF cls, of n] by (auto simp: default_classes memory_size_def)
  moreover have "64 < get_slab_class man n"
  proof (cases "n \<le> memory_size")
    case True
    with get_slab_class_cases(2) [OF cls True] assms(2) show ?thesis by simp
  next
    case False
    then have "get_slab_class man n = memory_size"
      unfolding get_slab_class_def cls default_classes by (simp add: memory_size_def)
    then show ?thesis by (simp add: memory_size_def)
  qed
  ultimately show ?thesis by (simp add: class_ok_def)
qed

lemma get_slab_class_small:
  assumes "man_inv man" and "n \<le> 64"
  shows "get_slab_class man n = 64"
proof -
  have "classes man = classes (initialize None)" using assms(1) by (simp add: man_inv_def)
  with assms(2) show ?thesis by (simp add: get_slab_class_def default_classes)
qed

lemma get_slab_class_idem:
  assumes "classes man = classes (initialize None)"
  shows "get_slab_class man (get_slab_class man n) = get_slab_class man n"
proof -
  let ?c = "get_slab_class man n"
  have c: "?c \<in> set (butlast (classes man))"
    by (rule get_slab_class_cases(1) [OF assms])
  then have "?c \<le> memory_size"
    using assms by (auto simp: default_classes memory_size_def)
  then show ?thesis
    using get_slab_class_cases(2,3) [OF assms, of ?c] c by (meson le_antisym order_refl)
qed

text \<open>
  A fresh slab has a free entry when its class leaves at least one whole status word to clear,
  that is, 32 entries.
\<close>

lemma slab_add_room:
  assumes inv: "man_inv man" and c: "class_ok c" "c \<le> 2 ^ 15" and r: "mal (slabs man) = Some r"
    and fr: "fresh_block (slabs man) r" and add: "slab_add mal man c = Inr man'"
    and n: "get_slab_class man n = c"
  shows "fst (get_address man' n) \<noteq> None"
proof
  assume "fst (get_address man' n) = None"
  then obtain man'' where none: "get_address man' n = (None, man'')"
    by (cases "get_address man' n") auto
  from slab_add_spec [OF inv c(1), of mal, OF r fr] add obtain s where
    s: "allocate_slab (Some r) c = Inr s" "man_inv man'" "slabs man' = slabs man @ [s]"
    "classes man' = classes man" by auto
  from slab_ok_allocated [OF c(1) fr] s(1) have used: "sclass s = c"
    "\<forall>k < 16384. slot_used (status s) k \<longleftrightarrow>
       capacity s \<le> k \<or> 32 * (capacity s div 32) \<le> k \<and> slot_used (status r) k"
    by auto
  have "2 ^ 20 div 2 ^ 15 \<le> capacity s"
    unfolding capacity_def memory_size_def used(1) by (rule div_le_mono2) (use c in \<open>auto simp: class_ok_def\<close>)
  then have cap: "32 \<le> capacity s" by simp
  then have "1 \<le> capacity s div 32" by simp
  with cap used(2) have free: "\<not> slot_used (status s) 0" "0 < capacity s" by auto
  have "get_slab_class man' n = c" using n s(4) by (simp add: get_slab_class_def)
  with get_address_spec [OF s(2) none] have "class_full man' c"
    by (simp add: get_address_post_def)
  moreover have "slabs man' ! length (slabs man) = s" "length (slabs man) < length (slabs man')"
    using s(3) by auto
  ultimately show False
    using free used(1) unfolding class_full_def by metis
qed

text \<open>An allocator that satisfies the hypotheses: every block starts behind all earlier ones.\<close>

definition bump_malloc :: "slab list \<Rightarrow> slab option" where
  "bump_malloc ss =
     Some \<lparr>base = 16 + sum_list (map (\<lambda>s. base s + get_slab_size) ss), sclass = 0,
           status = replicate 512 0, isFull = 0\<rparr>"

lemma bump_malloc_ok: "malloc_ok bump_malloc"
proof -
  have "base s + get_slab_size \<le> sum_list (map (\<lambda>s. base s + get_slab_size) ss)" if "s \<in> set ss" for s ss
    using that by (intro member_le_sum_list) auto
  then show ?thesis
    by (fastforce simp: malloc_ok_def bump_malloc_def fresh_block_def list_all_iff disjoint_blocks_def)
qed

interpretation slab_alloc: growing_allocator man_inv live extent get_slab_class get_address man_delete
  "\<lambda>man. fresh_block (slabs man)" class_ok "\<lambda>b man c. slab_add (\<lambda>_. b) man c"
proof unfold_locales
  fix m a b
  assume "man_inv m" "a \<in> live m" "b \<in> live m" "a \<noteq> b"
  then show "disjoint_blocks a (extent m a) b (extent m b)"
    by (rule live_disjoint_blocks)
next
  fix m n a m'
  assume "man_inv m" and "get_address m n = (Some a, m')"
  from get_address_spec [OF this] have post: "get_address_post m n (Some a) m'" .
  then have lay: "layout m' = layout m" by (simp add: get_address_post_def)
  show "man_inv m' \<and> a \<notin> live m \<and> live m' = insert a (live m) \<and> extent m' = extent m
       \<and> get_slab_class m' = get_slab_class m \<and> extent m a = get_slab_class m n"
    using post extent_layout [OF lay] get_slab_class_layout [OF lay] by (simp add: get_address_post_def)
next
  fix m n m'
  assume "man_inv m" and "get_address m n = (None, m')"
  from get_address_spec [OF this] have post: "get_address_post m n None m'" .
  then have lay: "layout m' = layout m" by (simp add: get_address_post_def)
  show "man_inv m' \<and> live m' = live m \<and> extent m' = extent m \<and> get_slab_class m' = get_slab_class m"
    using post extent_layout [OF lay] get_slab_class_layout [OF lay] by (simp add: get_address_post_def)
next
  fix m a k
  assume "man_inv m" and "a \<in> live m"
  note del = man_delete_spec [OF this, of k]
  show "man_inv (man_delete m a k) \<and> live (man_delete m a k) = live m - {a}
       \<and> extent (man_delete m a k) = extent m \<and> get_slab_class (man_delete m a k) = get_slab_class m"
    using del(1,3) extent_layout [OF del(2)] get_slab_class_layout [OF del(2)] by simp
next
  fix m a n k
  assume inv: "man_inv m" and a: "a \<in> live m" and e: "extent m a = get_slab_class m n"
  note del = man_delete_spec [OF inv a, of k]
  show "fst (get_address (man_delete m a k) n) \<noteq> None"
  proof
    assume "fst (get_address (man_delete m a k) n) = None"
    then obtain m' where "get_address (man_delete m a k) n = (None, m')"
      by (cases "get_address (man_delete m a k) n") auto
    from get_address_spec [OF del(1) this] have "class_full (man_delete m a k) (extent m a)"
      using e get_slab_class_layout [OF del(2)] by (simp add: get_address_post_def)
    with del(4) show False by simp
  qed
next
  fix m b c m'
  assume "man_inv m" "fresh_block (slabs m) b" "class_ok c" "slab_add (\<lambda>_. Some b) m c = Inr m'"
  then show "man_inv m' \<and> live m \<subseteq> live m' \<and> (\<forall>a \<in> live m. extent m' a = extent m a)
      \<and> get_slab_class m' = get_slab_class m"
    using slab_add_spec [of m c "\<lambda>_. Some b" b] by (auto simp: get_slab_class_def fun_eq_iff)
next
  show "slab_add (\<lambda>_. None) m c = Inl Null_Pointer" for m c
    by (simp add: slab_add_def allocate_slab_def)
qed

end
