(* ===== verification/Cache.thy ===== *)
theory Cache
  imports Slabs
begin

text \<open>
  The cache of \<open>cache.c\<close> and the key records of \<open>tools/tools.c\<close>: a table of thirty buckets
  with a list of key records each, the values in slab entries, and eviction by age. One
  definition per function; printing is left out.
\<close>

section \<open>Key records (tools/tools.h, tools/tools.c)\<close>

text \<open>
  \<open>key\<close> is what \<open>strcpy\<close> copied, without its NUL. The array has 32 bytes, and the
  check in \<open>cache_set\<close> lets 32 characters through: the NUL of such a key falls on the first
  byte of \<open>address\<close>, which is assigned afterwards. \<open>meta_str\<close> is the string found at
  \<open>m->key\<close>: it runs on into the following members when the key fills its array.
\<close>

record meta_obj =
  key :: cstring
  address :: addr
  msize :: nat
  allocated :: u8
  timer :: u8
  slab_class :: nat

definition le_bytes :: "nat \<Rightarrow> nat \<Rightarrow> byte list" where
  "le_bytes n x = map (\<lambda>i. char_of (x div 256 ^ i)) [0..<n]"

definition meta_str :: "meta_obj \<Rightarrow> cstring" where
  "meta_str m =
     (if length (key m) < 32 then key m
      else cstr (take 32 (key m) @ le_bytes 8 (address m) @ le_bytes 4 (msize m)))"

definition meta_compare :: "meta_obj \<Rightarrow> cstring \<Rightarrow> bool" where
  "meta_compare m k \<longleftrightarrow> meta_str m = k"

section \<open>The cache object\<close>

text \<open>
  \<open>store\<close> holds the bytes of the slabs' \<open>memory\<close> arrays, by address. A bucket is the list
  that its \<open>linked_list_t\<close> holds.
\<close>

record cache_obj =
  hasher :: "cstring \<Rightarrow> u64"
  csize :: u32
  slab_manager :: manager
  buckets :: "meta_obj list list"
  num_buckets :: nat
  maxmem :: u64
  num_values :: u32
  store :: store

text \<open>A \<open>cache_t\<close> is a pointer that may be NULL.\<close>

type_synonym cache_t = "cache_obj option"

text \<open>The hash runs over a \<open>const char*\<close>: bytes are sign-extended before they are added.\<close>

definition hash_step :: "u32 \<Rightarrow> byte \<Rightarrow> u32" where
  "hash_step h c = h XOR (push_bit 5 h + drop_bit 2 h + scast (of_char c :: u8))"

definition hash :: "cstring \<Rightarrow> u64" where
  "hash k = ucast (foldl hash_step 0 k)"

definition bucket_of :: "cache_obj \<Rightarrow> cstring \<Rightarrow> nat" where
  "bucket_of c k = unat (hasher c k) mod num_buckets c"

definition get_meta :: "cache_obj \<Rightarrow> cstring \<Rightarrow> meta_obj option" where
  "get_meta c k = ll_find meta_compare (buckets c ! bucket_of c k) k"

definition create_cache :: "u64 \<Rightarrow> (cstring \<Rightarrow> u64) option \<Rightarrow> cache_obj" where
  "create_cache mm h =
     (let mm = (if mm < of_nat get_slab_size then of_nat (2 * get_slab_size) else mm);
          mm = (if mm > 2 ^ 32 then 2 ^ 32 else mm)
      in \<lparr>hasher = (case h of None \<Rightarrow> hash | Some f \<Rightarrow> f),
          csize = 0,
          slab_manager = initialize None,
          buckets = replicate 30 [],
          num_buckets = 30,
          maxmem = mm,
          num_values = 0,
          store = (\<lambda>_. NUL)\<rparr>)"

text \<open>
  \<open>resize_keys\<close>. The load factor is a quotient of two 32-bit integers in double precision,
  whose comparisons with 1 and 0.25 are exact, so they are written with integers. The copy
  loop never moves \<open>current\<close> to the next node. After the loops the old lists are freed, and
  neither \<open>buckets\<close> nor \<open>num_buckets\<close> is assigned: the model drops the freed lists.
\<close>

partial_function (option) resize_copy_loop ::
  "(cstring \<Rightarrow> u64) \<Rightarrow> nat \<Rightarrow> meta_obj list \<Rightarrow> meta_obj list list \<Rightarrow> meta_obj list list option" where
  "resize_copy_loop h n current key_space =
     (case current of
        [] \<Rightarrow> Some key_space
      | old_meta # _ \<Rightarrow>
          (let new_location = unat (h (meta_str old_meta)) mod n
           in resize_copy_loop h n current
                (key_space[new_location := ll_append (key_space ! new_location) old_meta])))"

fun resize_copy :: "(cstring \<Rightarrow> u64) \<Rightarrow> nat \<Rightarrow> meta_obj list list \<Rightarrow> meta_obj list list \<Rightarrow> meta_obj list list option" where
  "resize_copy h n [] key_space = Some key_space"
| "resize_copy h n (b # bs) key_space =
     (case resize_copy_loop h n b key_space of
        None \<Rightarrow> None
      | Some ks \<Rightarrow> resize_copy h n bs ks)"

definition resize_keys :: "cache_obj \<Rightarrow> cache_obj option" where
  "resize_keys c =
     (let new_num_buckets =
            (if unat (num_values c) > num_buckets c then Some (2 * num_buckets c)
             else if 4 * unat (num_values c) < num_buckets c then Some (num_buckets c div 2)
             else None)
      in case new_num_buckets of
           None \<Rightarrow> Some c
         | Some n \<Rightarrow>
             if n < 10 then Some c
             else map_option (\<lambda>_. c\<lparr>buckets := []\<rparr>)
                    (resize_copy (hasher c) n (buckets c) (replicate n [])))"

section \<open>Operations\<close>

definition expand_cache :: "(slab list \<Rightarrow> slab option) \<Rightarrow> cache_obj \<Rightarrow> nat \<Rightarrow> cache_obj c_result" where
  "expand_cache mal c sc =
     (if maxmem c - ucast (csize c) > of_nat get_slab_size
      then (case slab_add mal (slab_manager c) sc of
              Inl f \<Rightarrow> Inl f
            | Inr man \<Rightarrow> Inr (c\<lparr>slab_manager := man, csize := csize c + of_nat get_slab_size\<rparr>))
      else Inr c)"

text \<open>
  \<open>create_meta\<close>, with the two assignments that \<open>cache_set\<close> makes to the new record. \<open>strcpy\<close>
  of a 32-byte key writes 33 bytes; the last one lies in \<open>address\<close>, which \<open>cache_set\<close> assigns
  next. This overrun is followed by the layout (\<open>meta_str\<close>) and is not made a fault, because
  what it does to later lookups is the point of interest.
\<close>

definition create_meta :: "cstring \<Rightarrow> nat \<Rightarrow> addr \<Rightarrow> nat \<Rightarrow> meta_obj" where
  "create_meta k val_size a sc =
     \<lparr>key = k, address = a, msize = val_size, allocated = 1, timer = 0, slab_class = sc\<rparr>"

definition tick :: "meta_obj \<Rightarrow> meta_obj" where
  "tick m = (if timer m \<le> 255 then m\<lparr>timer := timer m + 1\<rparr> else m)"

definition update_timers :: "cache_obj \<Rightarrow> cache_obj" where
  "update_timers c = c\<lparr>buckets := map (map tick) (buckets c)\<rparr>"

text \<open>\<open>cache_delete\<close>: 255 is \<open>-1\<close> as a \<open>uint8_t\<close>.\<close>

definition cache_delete :: "cache_t \<Rightarrow> cstring \<Rightarrow> u8 \<times> cache_t" where
  "cache_delete cache k =
     (case cache of
        None \<Rightarrow> (255, None)
      | Some c \<Rightarrow>
          (case get_meta c k of
             None \<Rightarrow> (255, Some c)
           | Some key_loc \<Rightarrow>
               (let c = c\<lparr>slab_manager := man_delete (slab_manager c) (address key_loc) (msize key_loc)\<rparr>;
                    bucket = bucket_of c k;
                    c = c\<lparr>buckets := (buckets c)[bucket := ll_delete meta_compare (buckets c ! bucket) k]\<rparr>;
                    c = c\<lparr>num_values := num_values c - 1\<rparr>
                in (0, Some (update_timers c)))))"

text \<open>
  The scan of \<open>cache_evict\<close>: the first record of the class with the largest timer, provided
  that timer is not 0.
\<close>

definition evict_step :: "nat \<Rightarrow> meta_obj \<Rightarrow> u8 \<times> meta_obj option \<Rightarrow> u8 \<times> meta_obj option" where
  "evict_step sc m acc =
     (if timer m > fst acc \<and> sc = slab_class m then (timer m, Some m) else acc)"

definition evict_candidate :: "cache_obj \<Rightarrow> nat \<Rightarrow> meta_obj option" where
  "evict_candidate c sc = snd (fold (\<lambda>b acc. fold (evict_step sc) b acc) (buckets c) (0, None))"

definition cache_evict :: "cache_obj \<Rightarrow> nat \<Rightarrow> cache_obj" where
  "cache_evict c sc =
     (case evict_candidate c sc of
        None \<Rightarrow> c
      | Some max_meta \<Rightarrow> the (snd (cache_delete (Some c) (meta_str max_meta))))"

definition free_space :: "(slab list \<Rightarrow> slab option) \<Rightarrow> cache_obj \<Rightarrow> nat \<Rightarrow> (addr option \<times> cache_obj) c_result" where
  "free_space mal c sc =
     (case get_address (slab_manager c) sc of
        (Some ret, man) \<Rightarrow> Inr (Some ret, c\<lparr>slab_manager := man\<rparr>)
      | (None, man) \<Rightarrow>
          (let c = c\<lparr>slab_manager := man\<rparr> in
           if ucast (csize c) < maxmem c
           then (case expand_cache mal c sc of
                   Inl f \<Rightarrow> Inl f
                 | Inr c \<Rightarrow>
                     (case get_address (slab_manager c) sc of
                        (r, man) \<Rightarrow> Inr (r, c\<lparr>slab_manager := man\<rparr>)))
           else Inr (None, c)))"

text \<open>
  The last part of \<open>cache_set\<close>: fill the entry at \<open>a\<close> and hang a new record into its
  bucket. Copying more bytes than the entry holds runs past the slab's \<open>memory\<close> array.
\<close>

definition cache_insert :: "cache_obj \<Rightarrow> cstring \<Rightarrow> byte list \<Rightarrow> nat \<Rightarrow> addr \<Rightarrow> nat \<Rightarrow> cache_obj c_result" where
  "cache_insert c k val val_size a sc =
     (if sc < val_size then Inl Out_Of_Bounds
      else
        (let next_meta = create_meta k val_size a sc;
             c = c\<lparr>store := memcpy (store c) a (take val_size val)\<rparr>;
             c = update_timers c;
             bucket = bucket_of c k;
             c = c\<lparr>buckets := (buckets c)[bucket := ll_append (buckets c ! bucket) next_meta]\<rparr>
         in Inr (c\<lparr>num_values := num_values c + 1\<rparr>)))"

definition cache_set ::
  "(slab list \<Rightarrow> slab option) \<Rightarrow> cache_t \<Rightarrow> cstring \<Rightarrow> byte list \<Rightarrow> nat \<Rightarrow> (u8 \<times> cache_t) c_result" where
  "cache_set mal cache k val val_size =
     (case cache of
        None \<Rightarrow> Inr (5, None)
      | Some c \<Rightarrow>
          if strlen k > 32 then Inr (1, cache)
          else if val_size > get_slab_size then Inr (2, cache)
          else if val_size > unat (maxmem c) then Inr (3, cache)
          else if length val < val_size \<or> val_size = 0 then Inl Out_Of_Bounds
          else if val ! (val_size - 1) \<noteq> NUL then Inr (6, cache)
          else
            (let c = (case get_meta c k of None \<Rightarrow> c | Some old \<Rightarrow> the (snd (cache_delete (Some c) k)));
                 sc = get_slab_class (slab_manager c) val_size
             in case free_space mal c sc of
                  Inl f \<Rightarrow> Inl f
                | Inr (Some a, c) \<Rightarrow> map_sum id (\<lambda>c. (0, Some c)) (cache_insert c k val val_size a sc)
                | Inr (None, c) \<Rightarrow>
                    (case free_space mal (cache_evict c sc) sc of
                       Inl f \<Rightarrow> Inl f
                     | Inr (None, c) \<Rightarrow> Inr (4, Some c)
                     | Inr (Some a, c) \<Rightarrow>
                         map_sum id (\<lambda>c. (0, Some c)) (cache_insert c k val val_size a sc))))"

text \<open>
  \<open>cache_get\<close> returns the pointer to the value and writes \<open>*val_size\<close>; the second component
  of the result is what it wrote, \<open>None\<close> when it wrote nothing. The \<open>assert\<close> compares the
  string's length with the stored size.
\<close>

definition cache_get :: "cache_t \<Rightarrow> cstring \<Rightarrow> ((addr option \<times> nat option) \<times> cache_t) c_result" where
  "cache_get cache k =
     (case cache of
        None \<Rightarrow> Inr ((None, None), None)
      | Some c \<Rightarrow>
          (case get_meta c k of
             None \<Rightarrow> Inr ((None, Some 0), Some c)
           | Some key_loc \<Rightarrow>
               (let b = bucket_of c k;
                    c = c\<lparr>buckets := (buckets c)[b := ll_modify meta_compare (buckets c ! b) k (\<lambda>m. m\<lparr>timer := 0\<rparr>)]\<rparr>
                in if msize key_loc \<noteq> 0 \<and> strlen_at (store c) (address key_loc) (msize key_loc - 1)
                   then Inr ((Some (address key_loc), Some (msize key_loc)), Some c)
                   else Inl Assertion)))"

definition cache_space_used :: "cache_t \<Rightarrow> u64" where
  "cache_space_used cache =
     (case cache of
        None \<Rightarrow> 0
      | Some c \<Rightarrow> fold (\<lambda>b sz. fold (\<lambda>m sz. sz + of_nat (msize m)) b sz) (buckets c) 0)"

text \<open>
  \<open>destroy_cache\<close>: besides the return code, the slabs and the key records it frees.
\<close>

definition destroy_cache :: "cache_t \<Rightarrow> u8 \<times> slab list \<times> meta_obj list" where
  "destroy_cache cache =
     (case cache of
        None \<Rightarrow> (255, [], [])
      | Some c \<Rightarrow> (0, man_destroy (slab_manager c), fold (\<lambda>b ds. ds @ b) (buckets c) []))"

end
