(* ===== verification/Cache_Inv.thy ===== *)
theory Cache_Inv
  imports Cache
begin

text \<open>
  The invariant of the cache, the finite map it represents, and one lemma per internal step
  of the operations: what the step does to the map and that it keeps the invariant.
\<close>

section \<open>Invariant and abstraction\<close>

definition metas :: "cache_obj \<Rightarrow> meta_obj list" where
  "metas c = concat (buckets c)"

text \<open>Every record hangs in the bucket of its key, and keys are unique.\<close>

definition table_inv :: "cache_obj \<Rightarrow> bool" where
  "table_inv c \<longleftrightarrow>
     length (buckets c) = num_buckets c \<and> 0 < num_buckets c
     \<and> (\<forall>b < num_buckets c. \<forall>m \<in> set (buckets c ! b). bucket_of c (meta_str m) = b)
     \<and> distinct (map meta_str (metas c))"

text \<open>A record points to a live entry of its class, large enough for the recorded size.\<close>

definition value_ok :: "manager \<Rightarrow> meta_obj \<Rightarrow> bool" where
  "value_ok man m \<longleftrightarrow>
     length (key m) < 32 \<and> cstring_ok (key m)
     \<and> address m \<in> live man \<and> slab_class m = extent man (address m)
     \<and> slab_class m = get_slab_class man (msize m)
     \<and> 0 < msize m \<and> msize m \<le> slab_class m"

definition values_inv :: "cache_obj \<Rightarrow> bool" where
  "values_inv c \<longleftrightarrow>
     list_all (value_ok (slab_manager c)) (metas c) \<and> distinct (map address (metas c))"

definition count_inv :: "cache_obj \<Rightarrow> bool" where
  "count_inv c \<longleftrightarrow>
     num_values c = of_nat (length (metas c))
     \<and> unat (csize c) = get_slab_size * length (slabs (slab_manager c))
     \<and> unat (csize c) < unat (maxmem c) \<and> get_slab_size \<le> unat (maxmem c) \<and> unat (maxmem c) \<le> 2 ^ 32"

definition cache_inv :: "cache_obj \<Rightarrow> bool" where
  "cache_inv c \<longleftrightarrow> man_inv (slab_manager c) \<and> table_inv c \<and> values_inv c \<and> count_inv c"

definition cache_map :: "cache_obj \<Rightarrow> cstring \<rightharpoonup> byte list" where
  "cache_map c = (\<lambda>k. map_option (\<lambda>m. load (store c) (address m) (msize m)) (get_meta c k))"

lemmas cache_inv_defs = cache_inv_def table_inv_def values_inv_def count_inv_def

interpretation meta_keys: key_equality meta_str meta_compare
  by unfold_locales (simp add: meta_compare_def)

section \<open>Lookup\<close>

lemma bucket_of_bound: "table_inv c \<Longrightarrow> bucket_of c k < length (buckets c)"
  by (simp add: table_inv_def bucket_of_def)

lemma metas_bucket:
  assumes inv: "table_inv c" and m: "m \<in> set (metas c)"
  shows "m \<in> set (buckets c ! bucket_of c (meta_str m))"
proof -
  from m obtain b where "b < length (buckets c)" "m \<in> set (buckets c ! b)"
    by (auto simp: metas_def in_set_conv_nth [of _ "buckets c"])
  with inv show ?thesis by (auto simp: table_inv_def)
qed

lemma bucket_metas: "b < length (buckets c) \<Longrightarrow> m \<in> set (buckets c ! b) \<Longrightarrow> m \<in> set (metas c)"
  by (auto simp: metas_def)

lemma bucket_distinct:
  assumes "table_inv c" and "b < length (buckets c)"
  shows "distinct (map meta_str (buckets c ! b))"
proof -
  have "distinct (map meta_str (concat (buckets c)))"
    using assms(1) by (simp add: table_inv_def metas_def)
  then show ?thesis
    by (subst (asm) concat_list_update_split [OF assms(2)]) simp
qed

lemma get_meta_iff:
  assumes "table_inv c"
  shows "get_meta c k = Some m \<longleftrightarrow> m \<in> set (metas c) \<and> meta_str m = k"
proof
  assume "get_meta c k = Some m"
  then show "m \<in> set (metas c) \<and> meta_str m = k"
    using bucket_of_bound [OF assms, of k]
    by (auto simp: get_meta_def intro: bucket_metas dest!: meta_keys.find_Some)
next
  assume "m \<in> set (metas c) \<and> meta_str m = k"
  with meta_keys.find_unique [OF bucket_distinct [OF assms bucket_of_bound [OF assms, of k]], of m]
    metas_bucket [OF assms]
  show "get_meta c k = Some m"
    by (auto simp: get_meta_def)
qed

lemma get_meta_None_iff:
  assumes "table_inv c"
  shows "get_meta c k = None \<longleftrightarrow> k \<notin> meta_str ` set (metas c)"
  using get_meta_iff [OF assms, of k] by (metis (no_types, lifting) imageE imageI not_None_eq)

lemma cache_map_None_iff: "cache_map c k = None \<longleftrightarrow> get_meta c k = None"
  by (simp add: cache_map_def)

section \<open>Steps that change the records in place\<close>

text \<open>
  Ageing all records and resetting the age of one are both a map over the whole table by a
  function that only touches \<open>timer\<close>.
\<close>

definition only_timer :: "(meta_obj \<Rightarrow> meta_obj) \<Rightarrow> bool" where
  "only_timer f \<longleftrightarrow>
     (\<forall>m. key (f m) = key m \<and> address (f m) = address m \<and> msize (f m) = msize m
          \<and> slab_class (f m) = slab_class m)"

lemma only_timer_meta_str [simp]: "only_timer f \<Longrightarrow> meta_str (f m) = meta_str m"
  by (simp add: only_timer_def meta_str_def)

lemma only_timer_tick: "only_timer tick"
  by (simp add: only_timer_def tick_def)

abbreviation map_table :: "(meta_obj \<Rightarrow> meta_obj) \<Rightarrow> cache_obj \<Rightarrow> cache_obj" where
  "map_table f c \<equiv> c\<lparr>buckets := map (map f) (buckets c)\<rparr>"

lemma metas_map_table [simp]: "metas (map_table f c) = map f (metas c)"
  by (simp add: metas_def map_concat)

lemma table_inv_map_table:
  assumes "only_timer f" and "table_inv c"
  shows "table_inv (map_table f c)"
proof -
  have "meta_str \<circ> f = meta_str"
    using assms(1) by (simp add: fun_eq_iff)
  with assms show ?thesis
    by (auto simp: table_inv_def bucket_of_def)
qed

lemma cache_inv_map_table:
  assumes f: "only_timer f" and inv: "cache_inv c"
  shows "cache_inv (map_table f c)"
proof -
  have "address \<circ> f = address"
    using f by (simp add: only_timer_def fun_eq_iff)
  moreover have "value_ok man (f m) = value_ok man m" for man m
    using f by (simp add: only_timer_def value_ok_def)
  ultimately show ?thesis
    using inv table_inv_map_table [OF f]
    by (simp add: cache_inv_def values_inv_def count_inv_def list_all_length)
qed

lemma cache_map_map_table:
  assumes f: "only_timer f" and inv: "table_inv c"
  shows "cache_map (map_table f c) = cache_map c"
proof
  fix k
  note inv' = table_inv_map_table [OF f inv]
  show "cache_map (map_table f c) k = cache_map c k"
  proof (cases "get_meta c k")
    case None
    with f get_meta_None_iff [OF inv] get_meta_None_iff [OF inv'] have
      "get_meta (map_table f c) k = None"
      by (auto simp: image_iff)
    with None show ?thesis by (simp add: cache_map_def)
  next
    case (Some m)
    with f get_meta_iff [OF inv] get_meta_iff [OF inv'] have
      "get_meta (map_table f c) k = Some (f m)" by auto
    with Some f show ?thesis by (simp add: cache_map_def only_timer_def)
  qed
qed

lemma update_timers_spec:
  assumes "cache_inv c"
  shows "cache_inv (update_timers c)" and "cache_map (update_timers c) = cache_map c"
  using assms cache_inv_map_table [OF only_timer_tick] cache_map_map_table [OF only_timer_tick]
  by (auto simp: update_timers_def cache_inv_def)

section \<open>Removing a record\<close>

abbreviation drop_key :: "cstring \<Rightarrow> cache_obj \<Rightarrow> cache_obj" where
  "drop_key k c \<equiv> c\<lparr>buckets := map (filter (\<lambda>m. meta_str m \<noteq> k)) (buckets c)\<rparr>"

lemma delete_from_bucket:
  assumes inv: "table_inv c"
  shows "(buckets c)[bucket_of c k := ll_delete meta_compare (buckets c ! bucket_of c k) k] =
           map (filter (\<lambda>m. meta_str m \<noteq> k)) (buckets c)"
proof (rule nth_equalityI)
  fix i
  assume "i < length ((buckets c)[bucket_of c k := ll_delete meta_compare (buckets c ! bucket_of c k) k])"
  then have i: "i < length (buckets c)" by simp
  show "(buckets c)[bucket_of c k := ll_delete meta_compare (buckets c ! bucket_of c k) k] ! i =
      map (filter (\<lambda>m. meta_str m \<noteq> k)) (buckets c) ! i"
  proof (cases "i = bucket_of c k")
    case True
    with i meta_keys.delete_filter [OF bucket_distinct [OF inv i]] show ?thesis by simp
  next
    case False
    have "meta_str m \<noteq> k" if "m \<in> set (buckets c ! i)" for m
      using inv i that False by (auto simp: table_inv_def)
    then have "filter (\<lambda>m. meta_str m \<noteq> k) (buckets c ! i) = buckets c ! i"
      by (simp add: filter_id_conv)
    with i False show ?thesis by simp
  qed
qed simp

lemma metas_drop_key [simp]: "metas (drop_key k c) = filter (\<lambda>m. meta_str m \<noteq> k) (metas c)"
  by (simp add: metas_def filter_concat)

lemma table_inv_drop_key: "table_inv c \<Longrightarrow> table_inv (drop_key k c)"
  by (auto simp: table_inv_def bucket_of_def distinct_map_filter)

lemma get_meta_drop_key:
  assumes inv: "table_inv c"
  shows "get_meta (drop_key k c) k' = (if k' = k then None else get_meta c k')"
proof -
  note inv' = table_inv_drop_key [OF inv, of k]
  show ?thesis
  proof (cases "k' = k")
    case True
    then show ?thesis by (auto simp: get_meta_None_iff [OF inv'])
  next
    case False
    then have "get_meta (drop_key k c) k' = Some m \<longleftrightarrow> get_meta c k' = Some m" for m
      by (auto simp: get_meta_iff [OF inv'] get_meta_iff [OF inv])
    with False show ?thesis
      by (simp add: option_ext)
  qed
qed

text \<open>
  The effect of taking the record of \<open>k\<close> and its entry out: used by \<open>cache_delete\<close>, by
  overwriting and by eviction.
\<close>

definition removed :: "cstring \<Rightarrow> meta_obj \<Rightarrow> cache_obj \<Rightarrow> cache_obj" where
  "removed k m c =
     update_timers (c\<lparr>slab_manager := man_delete (slab_manager c) (address m) (msize m),
                      buckets := map (filter (\<lambda>m. meta_str m \<noteq> k)) (buckets c),
                      num_values := num_values c - 1\<rparr>)"

lemma cache_delete_None: "get_meta c k = None \<Longrightarrow> cache_delete (Some c) k = (255, Some c)"
  by (simp add: cache_delete_def)

lemma cache_delete_Some:
  "table_inv c \<Longrightarrow> get_meta c k = Some m \<Longrightarrow> cache_delete (Some c) k = (0, Some (removed k m c))"
  using delete_from_bucket [of c k]
  by (simp add: cache_delete_def Let_def removed_def bucket_of_def)

lemma filter_one_less:
  assumes "distinct (map f xs)" and "x \<in> set xs"
  shows "length xs = Suc (length (filter (\<lambda>y. f y \<noteq> f x) xs))"
proof -
  have "filter (\<lambda>y. f y = f x) xs = [x]"
    using assms by (induction xs) (auto simp: filter_empty_conv image_iff)
  then show ?thesis
    using sum_length_filter_compl [of "\<lambda>y. f y = f x" xs] by simp
qed

lemma removed_spec:
  assumes inv: "cache_inv c" and m: "get_meta c k = Some m"
  shows "cache_inv (removed k m c)"
    and "cache_map (removed k m c) = (cache_map c)(k := None)"
    and "slab_manager (removed k m c) = man_delete (slab_manager c) (address m) (msize m)"
    and "csize (removed k m c) = csize c" and "maxmem (removed k m c) = maxmem c"
    and "get_meta (removed k m c) k = None"
proof -
  let ?man = "slab_manager c"
  define man' where "man' = man_delete ?man (address m) (msize m)"
  define c1 where "c1 = c\<lparr>slab_manager := man',
      buckets := map (filter (\<lambda>m. meta_str m \<noteq> k)) (buckets c), num_values := num_values c - 1\<rparr>"
  have tab: "table_inv c" and man: "man_inv ?man" and vals: "values_inv c" and cnt: "count_inv c"
    using inv by (auto simp: cache_inv_def)
  from m have mm: "m \<in> set (metas c)" "meta_str m = k"
    using get_meta_iff [OF tab] by auto
  with vals have "address m \<in> live ?man"
    by (auto simp: values_inv_def list_all_iff value_ok_def)
  note rel = slab_alloc.release_live [OF man this, of "msize m", folded man'_def]
  have lay: "layout man' = layout ?man"
    unfolding man'_def by (rule man_delete_spec(2) [OF man \<open>address m \<in> live ?man\<close>])
  have metas1: "metas c1 = filter (\<lambda>x. meta_str x \<noteq> k) (metas c)"
    using metas_drop_key [of k c] by (simp add: c1_def metas_def)
  have tab1: "table_inv c1"
    using table_inv_drop_key [OF tab, of k] by (simp add: table_inv_def c1_def metas_def bucket_of_def)
  have "value_ok man' x" if "x \<in> set (metas c1)" for x
  proof -
    from that metas1 have x: "x \<in> set (metas c)" "meta_str x \<noteq> k" by auto
    with vals mm have "address x \<noteq> address m"
      by (auto simp: values_inv_def distinct_map inj_on_def)
    with x vals rel show ?thesis
      by (auto simp: values_inv_def list_all_iff value_ok_def)
  qed
  then have vals1: "values_inv c1"
    using vals metas1 by (auto simp: values_inv_def list_all_iff distinct_map_filter c1_def)
  have "length (metas c) = Suc (length (metas c1))"
    using filter_one_less [of meta_str "metas c" m] tab mm metas1 by (simp add: table_inv_def)
  then have "num_values c1 = of_nat (length (metas c1))"
    using cnt by (simp add: count_inv_def c1_def [THEN arg_cong, of num_values])
  moreover have "length (slabs man') = length (slabs ?man)"
    by (rule layout_nth(1) [OF lay])
  ultimately have cnt1: "count_inv c1"
    using cnt by (simp add: count_inv_def) (simp add: c1_def)
  have inv1: "cache_inv c1"
    using rel tab1 vals1 cnt1 by (simp add: cache_inv_def c1_def)
  have gm: "get_meta c1 k' = (if k' = k then None else get_meta c k')" for k'
    using get_meta_drop_key [OF tab, of k k'] by (simp add: c1_def get_meta_def bucket_of_def)
  have map1: "cache_map c1 = (cache_map c)(k := None)"
    by (rule ext) (simp add: cache_map_def gm, simp add: c1_def)
  have eq: "removed k m c = update_timers c1"
    by (simp add: removed_def c1_def man'_def)
  show "cache_inv (removed k m c)"
    unfolding eq by (rule update_timers_spec(1) [OF inv1])
  show "cache_map (removed k m c) = (cache_map c)(k := None)"
    unfolding eq update_timers_spec(2) [OF inv1] by (rule map1)
  then show "get_meta (removed k m c) k = None"
    by (simp add: cache_map_None_iff [symmetric])
  show "slab_manager (removed k m c) = man_delete ?man (address m) (msize m)"
    "csize (removed k m c) = csize c" "maxmem (removed k m c) = maxmem c"
    by (simp_all add: eq update_timers_def c1_def man'_def)
qed

section \<open>Obtaining an entry\<close>

lemma cache_inv_manager:
  assumes inv: "cache_inv c" and gr: "slab_alloc.grown (slab_manager c) man'"
    and sz: "unat sz = get_slab_size * length (slabs man')" "unat sz < unat (maxmem c)"
  shows "cache_inv (c\<lparr>slab_manager := man', csize := sz\<rparr>)"
    and "cache_map (c\<lparr>slab_manager := man', csize := sz\<rparr>) = cache_map c"
proof -
  have "value_ok man' m" if "value_ok (slab_manager c) m" for m
    using that gr by (auto simp: value_ok_def slab_alloc.grown_def)
  then show "cache_inv (c\<lparr>slab_manager := man', csize := sz\<rparr>)"
    using inv gr sz
    by (auto simp: cache_inv_defs metas_def bucket_of_def slab_alloc.grown_def list_all_iff)
  show "cache_map (c\<lparr>slab_manager := man', csize := sz\<rparr>) = cache_map c"
    by (simp add: cache_map_def get_meta_def bucket_of_def fun_eq_iff)
qed

text \<open>Only the manager and the memory counter change.\<close>

definition same_table :: "cache_obj \<Rightarrow> cache_obj \<Rightarrow> bool" where
  "same_table c c' \<longleftrightarrow> (\<exists>man sz. c' = c\<lparr>slab_manager := man, csize := sz\<rparr>)"

lemma same_table_manager: "same_table c (c\<lparr>slab_manager := man\<rparr>)"
  unfolding same_table_def by (rule exI [of _ man], rule exI [of _ "csize c"]) simp

lemma same_table_simps:
  assumes "same_table c c'"
  shows "buckets c' = buckets c" "hasher c' = hasher c" "num_buckets c' = num_buckets c"
    "maxmem c' = maxmem c" "store c' = store c" "num_values c' = num_values c"
    "metas c' = metas c" "get_meta c' = get_meta c"
  using assms by (auto simp: same_table_def metas_def get_meta_def bucket_of_def fun_eq_iff)

definition free_post :: "cache_obj \<Rightarrow> nat \<Rightarrow> addr option \<Rightarrow> cache_obj \<Rightarrow> bool" where
  "free_post c sc r c' \<longleftrightarrow>
     cache_inv c' \<and> cache_map c' = cache_map c \<and> same_table c c'
     \<and> slab_alloc.grown (slab_manager c) (slab_manager c')
     \<and> slab_alloc.fresh_in (slab_manager c) sc r (slab_manager c')"

lemma slabs_length_get_address:
  "man_inv man \<Longrightarrow> get_address man n = (r, man') \<Longrightarrow> length (slabs man') = length (slabs man)"
  using get_address_spec [of man n r man'] layout_nth(1) [of man' man]
  by (simp add: get_address_post_def)

lemma get_address_cache:
  assumes inv: "cache_inv c" and get: "get_address (slab_manager c) sc = (r, man')"
  shows "free_post c sc r (c\<lparr>slab_manager := man'\<rparr>)"
proof -
  have man: "man_inv (slab_manager c)" using inv by (simp add: cache_inv_def)
  note step = slab_alloc.alloc_step [OF man get]
  have "unat (csize c) = get_slab_size * length (slabs man')" "unat (csize c) < unat (maxmem c)"
    using inv slabs_length_get_address [OF man get] by (auto simp: cache_inv_def count_inv_def)
  from cache_inv_manager [OF inv conjunct1 [OF step] this] step show ?thesis
    by (simp add: free_post_def same_table_manager)
qed

lemma count_inv_room:
  assumes "count_inv c"
  shows "unat (maxmem c - ucast (csize c)) = unat (maxmem c) - unat (csize c)"
    and "of_nat get_slab_size < maxmem c - ucast (csize c) \<Longrightarrow>
         unat (csize c + of_nat get_slab_size) = unat (csize c) + get_slab_size
         \<and> unat (csize c) + get_slab_size < unat (maxmem c)"
proof -
  have lt: "unat (csize c) < unat (maxmem c)" "unat (maxmem c) \<le> 2 ^ 32"
    using assms by (auto simp: count_inv_def)
  have uc: "unat (ucast (csize c) :: u64) = unat (csize c)"
    using lt by (simp add: unsigned_ucast_eq take_bit_nat_eq_self)
  with lt show *: "unat (maxmem c - ucast (csize c)) = unat (maxmem c) - unat (csize c)"
    by (simp add: unat_sub word_le_nat_alt)
  assume "of_nat get_slab_size < maxmem c - ucast (csize c)"
  then have "get_slab_size < unat (maxmem c) - unat (csize c)"
    unfolding word_less_nat_alt * by (simp add: get_slab_size_def memory_size_def)
  then have lt': "unat (csize c) + get_slab_size < unat (maxmem c)" by simp
  with lt have "unat (csize c) + unat (of_nat get_slab_size :: u32) < 2 ^ 32"
    by (simp add: get_slab_size_def memory_size_def)
  then have "unat (csize c + of_nat get_slab_size) = unat (csize c) + unat (of_nat get_slab_size :: u32)"
    by (subst unat_add_lem [symmetric]) simp
  then show "unat (csize c + of_nat get_slab_size) = unat (csize c) + get_slab_size
         \<and> unat (csize c) + get_slab_size < unat (maxmem c)"
    using lt' by (simp add: get_slab_size_def memory_size_def)
qed

lemma count_inv_less: "count_inv c \<Longrightarrow> ucast (csize c) < maxmem c"
  unfolding word_less_nat_alt
  by (simp add: count_inv_def unsigned_ucast_eq take_bit_nat_eq_self)

text \<open>Growing: the manager that \<open>expand_cache\<close> leaves, and the counters with it.\<close>

lemma expand_cache_cases:
  assumes inv: "cache_inv c" and mal: "malloc_ok mal" and sc: "class_ok sc"
    and ex: "expand_cache mal c sc = Inr c'"
  obtains "c' = c"
  | man' b where "c' = c\<lparr>slab_manager := man', csize := csize c + of_nat get_slab_size\<rparr>"
      "slab_add (\<lambda>_. Some b) (slab_manager c) sc = Inr man'" "fresh_block (slabs (slab_manager c)) b"
      "unat (csize c + of_nat get_slab_size) = get_slab_size * length (slabs man')"
      "unat (csize c + of_nat get_slab_size) < unat (maxmem c)"
proof (cases "of_nat get_slab_size < maxmem c - ucast (csize c)")
  case False
  with ex that(1) show thesis by (simp add: expand_cache_def)
next
  case True
  let ?man = "slab_manager c"
  from True ex obtain man' where add: "slab_add mal ?man sc = Inr man'"
    and c': "c' = c\<lparr>slab_manager := man', csize := csize c + of_nat get_slab_size\<rparr>"
    by (auto simp: expand_cache_def split: sum.splits)
  then obtain b where b: "mal (slabs ?man) = Some b"
    by (cases "mal (slabs ?man)") (auto simp: slab_add_def allocate_slab_def)
  with add have add': "slab_add (\<lambda>_. Some b) ?man sc = Inr man'"
    by (simp add: slab_add_def)
  have fr: "fresh_block (slabs ?man) b"
    using mal b by (simp add: malloc_ok_def)
  have man: "man_inv ?man" and cnt: "count_inv c"
    using inv by (auto simp: cache_inv_def)
  from slab_add_spec [where mal = "\<lambda>_. Some b", OF man sc refl fr] add'
  have "length (slabs man') = Suc (length (slabs ?man))"
    by auto
  with that(2) [OF c' add' fr] count_inv_room(2) [OF cnt True] cnt show thesis
    by (simp add: count_inv_def)
qed

lemma free_space_spec:
  assumes inv: "cache_inv c" and mal: "malloc_ok mal" and sc: "class_ok sc"
    and fs: "free_space mal c sc = Inr (r, c')"
  shows "free_post c sc r c'"
proof -
  obtain r1 man1 where g1: "get_address (slab_manager c) sc = (r1, man1)"
    by (cases "get_address (slab_manager c) sc")
  let ?c1 = "c\<lparr>slab_manager := man1\<rparr>"
  note post1 = get_address_cache [OF inv g1]
  show ?thesis
  proof (cases "r1 = None \<and> ucast (csize c) < maxmem c")
    case False
    with fs g1 post1 show ?thesis
      by (auto simp: free_space_def Let_def split: option.splits if_splits)
  next
    case True
    with fs g1 obtain c2 where ex: "expand_cache mal ?c1 sc = Inr c2"
      and g2: "r = fst (get_address (slab_manager c2) sc)"
        "c' = c2\<lparr>slab_manager := snd (get_address (slab_manager c2) sc)\<rparr>"
      by (auto simp: free_space_def Let_def split: option.splits if_splits sum.splits prod.splits)
    obtain man3 where g3: "get_address (slab_manager c2) sc = (r, man3)" "c' = c2\<lparr>slab_manager := man3\<rparr>"
      using g2 by (cases "get_address (slab_manager c2) sc") auto
    from post1 have inv1: "cache_inv ?c1" and map1: "cache_map ?c1 = cache_map c"
      and gr1: "slab_alloc.grown (slab_manager c) man1"
      by (auto simp: free_post_def)
    have man1: "man_inv man1" using inv1 by (simp add: cache_inv_def)
    from inv1 mal sc ex show ?thesis
    proof (cases rule: expand_cache_cases)
      case 1
      with g3 get_address_cache [OF inv1, of sc r man3] map1 gr1 show ?thesis
        by (auto simp: free_post_def same_table_manager
            intro: slab_alloc.grown_trans slab_alloc.fresh_in_mono)
    next
      case (2 man2 b)
      then have g4: "get_address man2 sc = (r, man3)" using g3 by simp
      have step: "slab_alloc.grown man1 man3 \<and> slab_alloc.fresh_in man1 sc r man3"
        by (rule slab_alloc.grow_alloc_step [OF man1 _ sc _ g4]) (use 2 in auto)
      then have gr: "slab_alloc.grown (slab_manager c) man3"
        using gr1 slab_alloc.grown_trans by blast
      have "man_inv man2"
        using slab_alloc.grow_Inr [OF man1, of b sc man2] 2 sc by simp
      then have "length (slabs man3) = length (slabs man2)"
        using slabs_length_get_address g4 by blast
      moreover have "c' = c\<lparr>slab_manager := man3, csize := csize c + of_nat get_slab_size\<rparr>"
        using g3(2) 2(1) by (cases c) simp
      ultimately show ?thesis
        using cache_inv_manager [OF inv gr, of "csize c + of_nat get_slab_size"] 2(4,5) gr step gr1
        by (auto simp: free_post_def same_table_def intro: slab_alloc.fresh_in_mono)
    qed
  qed
qed

section \<open>Eviction\<close>

lemma evict_fold_metas:
  "fold (\<lambda>b acc. fold (evict_step sc) b acc) bs acc = fold (evict_step sc) (concat bs) acc"
  by (induction bs arbitrary: acc) simp_all

definition oldest :: "nat \<Rightarrow> meta_obj set \<Rightarrow> u8 \<times> meta_obj option \<Rightarrow> bool" where
  "oldest sc M acc \<longleftrightarrow>
     (\<forall>m \<in> M. slab_class m = sc \<longrightarrow> timer m \<le> fst acc)
     \<and> (case snd acc of
          None \<Rightarrow> fst acc = 0
        | Some m \<Rightarrow> m \<in> M \<and> slab_class m = sc \<and> timer m = fst acc \<and> 0 < timer m)"

lemma oldest_step: "oldest sc M acc \<Longrightarrow> oldest sc (insert m M) (evict_step sc m acc)"
  by (cases acc) (auto simp: oldest_def evict_step_def word_gt_0 split: option.splits)

lemma oldest_fold: "oldest sc M acc \<Longrightarrow> oldest sc (M \<union> set ms) (fold (evict_step sc) ms acc)"
proof (induction ms arbitrary: M acc)
  case (Cons m ms)
  from Cons.IH [OF oldest_step [OF Cons.prems, of m]] show ?case by simp
qed simp

lemma evict_candidate_oldest:
  "case evict_candidate c sc of
     None \<Rightarrow> \<forall>m \<in> set (metas c). slab_class m = sc \<longrightarrow> timer m = 0
   | Some m \<Rightarrow> m \<in> set (metas c) \<and> slab_class m = sc \<and> 0 < timer m
       \<and> (\<forall>x \<in> set (metas c). slab_class x = sc \<longrightarrow> timer x \<le> timer m)"
proof -
  have "oldest sc {} (0, None)" by (simp add: oldest_def)
  from oldest_fold [OF this, of "metas c"] show ?thesis
    by (auto simp: oldest_def evict_candidate_def metas_def evict_fold_metas split: option.splits)
qed

text \<open>Eviction takes out the record it found, and makes room for the class it was asked for.\<close>

lemma cache_evict_None: "evict_candidate c sc = None \<Longrightarrow> cache_evict c sc = c"
  by (simp add: cache_evict_def)

lemma cache_evict_Some:
  assumes inv: "cache_inv c" and ev: "evict_candidate c sc = Some m"
  shows "get_meta c (meta_str m) = Some m" and "cache_evict c sc = removed (meta_str m) m c"
proof -
  have tab: "table_inv c" using inv by (simp add: cache_inv_def)
  from evict_candidate_oldest [of c sc] ev show gm: "get_meta c (meta_str m) = Some m"
    by (simp add: get_meta_iff [OF tab])
  with ev tab show "cache_evict c sc = removed (meta_str m) m c"
    by (simp add: cache_evict_def cache_delete_Some)
qed

lemma free_space_fst:
  "fst (get_address (slab_manager c) sc) = Some a \<Longrightarrow>
   free_space mal c sc = Inr (Some a, c\<lparr>slab_manager := snd (get_address (slab_manager c) sc)\<rparr>)"
  by (cases "get_address (slab_manager c) sc") (simp add: free_space_def)

lemma free_space_after_evict:
  assumes inv: "cache_inv c" and ev: "evict_candidate c sc = Some m"
  shows "\<exists>a c'. free_space mal (cache_evict c sc) sc = Inr (Some a, c')"
proof -
  let ?man = "slab_manager c"
  from evict_candidate_oldest [of c sc] ev have m: "m \<in> set (metas c)" "slab_class m = sc" by auto
  with inv have v: "value_ok ?man m" and man: "man_inv ?man"
    by (auto simp: cache_inv_def values_inv_def list_all_iff)
  have "get_slab_class ?man (get_slab_class ?man (msize m)) = get_slab_class ?man (msize m)"
    using get_slab_class_idem man by (simp add: man_inv_def)
  with v m have "extent ?man (address m) = get_slab_class ?man sc"
    unfolding value_ok_def by metis
  from slab_alloc.alloc_after_release [OF man _ this, of "msize m"] v
  have "fst (get_address (man_delete ?man (address m) (msize m)) sc) \<noteq> None"
    by (simp add: value_ok_def)
  with cache_evict_Some [OF inv ev] removed_spec(3) [OF inv, of "meta_str m" m] show ?thesis
    using free_space_fst by auto
qed

end
