(* ===== verification/Cache_Insert.thy ===== *)
theory Cache_Insert
  imports Cache_Inv
begin

text \<open>
  Adding a value: filling an entry, hanging a record into its bucket, and the two together
  as \<open>cache_set\<close> does them in \<open>cache.c\<close>.
\<close>

section \<open>Filling an entry\<close>

lemma fill_entry:
  assumes inv: "cache_inv c" and a: "a \<in> live (slab_manager c)" "a \<notin> address ` set (metas c)"
    and bs: "length bs \<le> extent (slab_manager c) a"
  shows "cache_inv (c\<lparr>store := memcpy (store c) a bs\<rparr>)"
    and "cache_map (c\<lparr>store := memcpy (store c) a bs\<rparr>) = cache_map c"
proof -
  show "cache_inv (c\<lparr>store := memcpy (store c) a bs\<rparr>)"
    using inv by (simp add: cache_inv_defs metas_def bucket_of_def)
  have tab: "table_inv c" and man: "man_inv (slab_manager c)" using inv by (auto simp: cache_inv_def)
  have "load (memcpy (store c) a bs) (address m) (msize m) = load (store c) (address m) (msize m)"
    if "get_meta c k = Some m" for k m
  proof -
    from that have m: "m \<in> set (metas c)" by (simp add: get_meta_iff [OF tab])
    with inv have "value_ok (slab_manager c) m"
      by (auto simp: cache_inv_def values_inv_def list_all_iff)
    with m a bs show ?thesis
      by (intro slab_alloc.fill_block [OF man a(1)]) (auto simp: value_ok_def)
  qed
  then show "cache_map (c\<lparr>store := memcpy (store c) a bs\<rparr>) = cache_map c"
    by (auto simp: cache_map_def fun_eq_iff get_meta_def bucket_of_def intro!: option.map_cong)
qed

section \<open>Hanging a record into its bucket\<close>

definition hang :: "meta_obj \<Rightarrow> cache_obj \<Rightarrow> cache_obj" where
  "hang m c =
     c\<lparr>buckets := (buckets c)[bucket_of c (meta_str m) := ll_append (buckets c ! bucket_of c (meta_str m)) m],
       num_values := num_values c + 1\<rparr>"

lemma hang_frame [simp]:
  "hasher (hang m c) = hasher c" "num_buckets (hang m c) = num_buckets c" "maxmem (hang m c) = maxmem c"
  "csize (hang m c) = csize c" "slab_manager (hang m c) = slab_manager c" "store (hang m c) = store c"
  "bucket_of (hang m c) = bucket_of c" "length (buckets (hang m c)) = length (buckets c)"
  by (simp_all add: hang_def bucket_of_def fun_eq_iff)

lemma metas_hang:
  assumes "table_inv c"
  obtains xs ys where "metas c = xs @ ys" "metas (hang m c) = xs @ m # ys"
proof
  let ?b = "bucket_of c (meta_str m)"
  note b = bucket_of_bound [OF assms, of "meta_str m"]
  show "metas c = (concat (take ?b (buckets c)) @ buckets c ! ?b) @ concat (drop (Suc ?b) (buckets c))"
    unfolding metas_def by (subst concat_list_update_split [OF b]) simp
  show "metas (hang m c) =
      (concat (take ?b (buckets c)) @ buckets c ! ?b) @ m # concat (drop (Suc ?b) (buckets c))"
    using concat_list_update [OF b] by (simp add: metas_def hang_def ll_append_def)
qed

lemma table_inv_hang:
  assumes inv: "table_inv c" and new: "get_meta c (meta_str m) = None"
  shows "table_inv (hang m c)"
proof -
  from metas_hang [OF inv] obtain xs ys where "metas c = xs @ ys" "metas (hang m c) = xs @ m # ys" .
  moreover have "distinct (map meta_str (metas c))" "meta_str m \<notin> meta_str ` set (metas c)"
    using inv new by (auto simp: table_inv_def get_meta_None_iff [OF inv])
  ultimately have "distinct (map meta_str (metas (hang m c)))"
    by auto
  moreover have "bucket_of c (meta_str x) = b"
    if "b < num_buckets c" "x \<in> set (buckets (hang m c) ! b)" for b x
    using inv that by (cases "b = bucket_of c (meta_str m)")
      (auto simp: hang_def ll_append_def table_inv_def)
  ultimately show ?thesis
    using inv by (simp add: table_inv_def)
qed

lemma get_meta_hang:
  assumes inv: "table_inv c" and new: "get_meta c (meta_str m) = None"
  shows "get_meta (hang m c) k = (if k = meta_str m then Some m else get_meta c k)"
proof -
  from metas_hang [OF inv] obtain xs ys where ms: "metas c = xs @ ys" "metas (hang m c) = xs @ m # ys" .
  note inv' = table_inv_hang [OF inv new]
  have "get_meta (hang m c) k = Some x \<longleftrightarrow> (if k = meta_str m then Some m else get_meta c k) = Some x" for x
    using ms new
    by (auto simp: get_meta_iff [OF inv'] get_meta_iff [OF inv] get_meta_None_iff [OF inv] image_iff)
      (metis UnCI)+
  then show ?thesis by (rule option_ext)
qed

lemma hang_spec:
  assumes inv: "cache_inv c" and new: "get_meta c (meta_str m) = None"
    and m: "value_ok (slab_manager c) m" "address m \<notin> address ` set (metas c)"
  shows "cache_inv (hang m c)"
    and "cache_map (hang m c) = (cache_map c)(meta_str m \<mapsto> load (store c) (address m) (msize m))"
proof -
  have tab: "table_inv c" using inv by (simp add: cache_inv_def)
  from metas_hang [OF tab] obtain xs ys where ms: "metas c = xs @ ys" "metas (hang m c) = xs @ m # ys" .
  have "values_inv (hang m c)"
    using inv m ms by (auto simp: cache_inv_def values_inv_def)
  moreover have "num_values (hang m c) = of_nat (length (metas (hang m c)))"
    using inv ms by (simp add: cache_inv_def count_inv_def hang_def)
  ultimately show "cache_inv (hang m c)"
    using inv table_inv_hang [OF tab new] by (simp add: cache_inv_def count_inv_def)
  show "cache_map (hang m c) = (cache_map c)(meta_str m \<mapsto> load (store c) (address m) (msize m))"
    by (simp add: cache_map_def get_meta_hang [OF tab new] fun_eq_iff)
qed

section \<open>The last part of \<open>cache_set\<close>\<close>

lemma cache_insert_hang:
  assumes "n \<le> sc" and "length k < 32"
  shows "cache_insert c k val n a sc =
           Inr (hang (create_meta k n a sc)
                  (update_timers (c\<lparr>store := memcpy (store c) a (take n val)\<rparr>)))"
  using assms by (simp add: cache_insert_def hang_def create_meta_def meta_str_def Let_def)

lemma cache_insert_spec:
  assumes inv: "cache_inv c" and k: "length k < 32" "cstring_ok k" and new: "get_meta c k = None"
    and a: "a \<in> live (slab_manager c)" "a \<notin> address ` set (metas c)" "extent (slab_manager c) a = sc"
    and n: "sc = get_slab_class (slab_manager c) n" "0 < n" "n \<le> sc" "n \<le> length val"
  shows "\<exists>c'. cache_insert c k val n a sc = Inr c' \<and> cache_inv c'
           \<and> cache_map c' = (cache_map c)(k \<mapsto> take n val)
           \<and> get_meta c' k = Some (create_meta k n a sc)"
proof -
  let ?m = "create_meta k n a sc"
  define c1 where "c1 = c\<lparr>store := memcpy (store c) a (take n val)\<rparr>"
  define c2 where "c2 = update_timers c1"
  have str: "meta_str ?m = k" using k by (simp add: create_meta_def meta_str_def)
  have "length (take n val) \<le> extent (slab_manager c) a" using n a by simp
  note fill = fill_entry [OF inv a(1,2) this, folded c1_def]
  note upd = update_timers_spec [OF fill(1), folded c2_def]
  have same: "slab_manager c2 = slab_manager c" "store c2 = memcpy (store c) a (take n val)"
    by (simp_all add: c2_def c1_def update_timers_def)
  have "metas c2 = map tick (metas c)"
    using metas_map_table [of tick c1] by (simp add: c2_def update_timers_def) (simp add: c1_def metas_def)
  moreover have "address (tick m) = address m" for m by (simp add: tick_def)
  ultimately have "address ?m \<notin> address ` set (metas c2)"
    using a(2) by (auto simp: create_meta_def image_iff)
  moreover have "cache_map c2 = cache_map c" using upd(2) fill(2) by simp
  moreover from this new have new2: "get_meta c2 (meta_str ?m) = None"
    by (metis cache_map_None_iff str)
  moreover have "value_ok (slab_manager c2) ?m"
    using k a n by (simp add: value_ok_def create_meta_def same)
  moreover have "load (store c2) (address ?m) (msize ?m) = take n val"
    using load_memcpy_same [of "store c" a "take n val"] n(4) same by (simp add: create_meta_def min_absorb2)
  moreover have "table_inv c2" using upd(1) by (simp add: cache_inv_def)
  ultimately show ?thesis
    using cache_insert_hang [OF n(3) k(1), of c val a] hang_spec [OF upd(1), of ?m] str
      get_meta_hang [OF _ new2, of k]
    by (simp add: c1_def c2_def)
qed

text \<open>An entry that \<open>free_space\<close> delivered is not the entry of any record.\<close>

lemma free_post_fresh:
  assumes inv: "cache_inv c" and post: "free_post c sc (Some a) c'"
  shows "a \<in> live (slab_manager c')" and "a \<notin> address ` set (metas c')"
    and "extent (slab_manager c') a = get_slab_class (slab_manager c) sc"
proof -
  from post have fr: "a \<notin> live (slab_manager c)" "a \<in> live (slab_manager c')"
    "extent (slab_manager c') a = get_slab_class (slab_manager c) sc" "metas c' = metas c"
    by (auto simp: free_post_def slab_alloc.fresh_in_def dest: same_table_simps)
  then show "a \<in> live (slab_manager c')" "extent (slab_manager c') a = get_slab_class (slab_manager c) sc"
    by auto
  have "address m \<in> live (slab_manager c)" if "m \<in> set (metas c)" for m
    using inv that by (auto simp: cache_inv_def values_inv_def list_all_iff value_ok_def)
  with fr show "a \<notin> address ` set (metas c')" by auto
qed

text \<open>
  The requests that are stored without a fault: a key that leaves room for its NUL, and a
  value that ends in NUL, fits a slab's array and is larger than the smallest class, whose
  slabs cannot be allocated.
\<close>

definition set_request_ok :: "cstring \<Rightarrow> byte list \<Rightarrow> nat \<Rightarrow> bool" where
  "set_request_ok k val n \<longleftrightarrow>
     length k < 32 \<and> cstring_ok k \<and> 64 < n \<and> n \<le> memory_size \<and> n \<le> length val \<and> val ! (n - 1) = NUL"

lemma insert_after_free:
  assumes inv: "cache_inv c" and post: "free_post c sc (Some a) c'"
    and req: "set_request_ok k val n" and new: "get_meta c k = None"
    and sc: "sc = get_slab_class (slab_manager c) n"
  shows "\<exists>c''. cache_insert c' k val n a sc = Inr c'' \<and> cache_inv c''
           \<and> cache_map c'' = (cache_map c)(k \<mapsto> take n val)
           \<and> get_meta c'' k = Some (create_meta k n a sc)"
proof -
  have p: "cache_inv c'" "cache_map c' = cache_map c" "get_meta c' k = None"
    "get_slab_class (slab_manager c') = get_slab_class (slab_manager c)"
    using post new by (auto simp: free_post_def slab_alloc.grown_def dest: same_table_simps(8))
  have cls: "classes (slab_manager c) = classes (initialize None)"
    using inv by (simp add: cache_inv_def man_inv_def)
  then have "get_slab_class (slab_manager c) sc = sc" "n \<le> sc"
    using get_slab_class_idem get_slab_class_cases(2) req unfolding sc set_request_ok_def by auto
  with cache_insert_spec [OF p(1) _ _ p(3), of a sc n val] free_post_fresh [OF inv post] req p sc
  show ?thesis by (simp add: set_request_ok_def)
qed

end
