(* ===== verification/Cache_Ops.thy ===== *)
theory Cache_Ops
  imports Cache_Insert
begin

text \<open>
  The operations that \<open>cache.h\<close> exports, against the finite map the cache represents: what
  each returns, what it does to the map, and that it keeps the invariant.
\<close>

section \<open>Setting a value\<close>

definition malloc_total :: "(slab list \<Rightarrow> slab option) \<Rightarrow> bool" where
  "malloc_total mal \<longleftrightarrow> (\<forall>ss. mal ss \<noteq> None)"

lemma bump_malloc_total: "malloc_total bump_malloc"
  by (simp add: malloc_total_def bump_malloc_def)

lemma free_space_no_fault:
  assumes inv: "cache_inv c" and mal: "malloc_ok mal" "malloc_total mal" and sc: "class_ok sc"
  obtains r c' where "free_space mal c sc = Inr (r, c')" "free_post c sc r c'"
proof -
  obtain r1 man1 where g1: "get_address (slab_manager c) sc = (r1, man1)"
    by (cases "get_address (slab_manager c) sc")
  have man: "man_inv man1"
    using get_address_cache [OF inv g1] by (simp add: free_post_def slab_alloc.grown_def)
  obtain b where b: "mal (slabs man1) = Some b" "fresh_block (slabs man1) b"
    using mal unfolding malloc_ok_def malloc_total_def by (metis not_None_eq)
  from slab_add_spec [where mal = mal, OF man sc b] obtain man2 where "slab_add mal man1 sc = Inr man2"
    by auto
  then have "expand_cache mal (c\<lparr>slab_manager := man1\<rparr>) sc \<noteq> Inl f" for f
    by (simp add: expand_cache_def)
  then obtain x where x: "free_space mal c sc = Inr x"
    using g1 by (cases "free_space mal c sc")
      (auto simp: free_space_def Let_def split: option.splits if_splits sum.splits prod.splits)
  obtain r c' where "x = (r, c')" by (cases x)
  with x that free_space_spec [OF inv mal(1) sc, of r c'] show thesis by auto
qed

text \<open>The cache after the old value of the key was taken out.\<close>

definition without :: "cstring \<Rightarrow> cache_obj \<Rightarrow> cache_obj" where
  "without k c = (case get_meta c k of None \<Rightarrow> c | Some old \<Rightarrow> the (snd (cache_delete (Some c) k)))"

lemma without_spec:
  assumes inv: "cache_inv c"
  shows "cache_inv (without k c)" and "cache_map (without k c) = (cache_map c)(k := None)"
    and "get_meta (without k c) k = None" and "maxmem (without k c) = maxmem c"
    and "csize (without k c) = csize c"
proof -
  have tab: "table_inv c" using inv by (simp add: cache_inv_def)
  have "cache_inv (without k c) \<and> cache_map (without k c) = (cache_map c)(k := None)
      \<and> get_meta (without k c) k = None \<and> maxmem (without k c) = maxmem c
      \<and> csize (without k c) = csize c"
  proof (cases "get_meta c k")
    case None
    with inv show ?thesis by (simp add: without_def cache_map_def fun_upd_idem)
  next
    case (Some m)
    with removed_spec [OF inv Some] show ?thesis
      by (simp add: without_def cache_delete_Some [OF tab])
  qed
  then show "cache_inv (without k c)" "cache_map (without k c) = (cache_map c)(k := None)"
    "get_meta (without k c) k = None" "maxmem (without k c) = maxmem c" "csize (without k c) = csize c"
    by auto
qed

lemma cache_evict_spec:
  assumes inv: "cache_inv c"
  shows "cache_inv (cache_evict c sc)"
    and "get_slab_class (slab_manager (cache_evict c sc)) = get_slab_class (slab_manager c)"
    and "cache_map (cache_evict c sc) =
           (case evict_candidate c sc of
              None \<Rightarrow> cache_map c
            | Some m \<Rightarrow> (cache_map c)(meta_str m := None))"
proof -
  show "cache_inv (cache_evict c sc)"
    "cache_map (cache_evict c sc) =
       (case evict_candidate c sc of
          None \<Rightarrow> cache_map c
        | Some m \<Rightarrow> (cache_map c)(meta_str m := None))"
    using inv cache_evict_None [of c sc] cache_evict_Some [OF inv, of sc] removed_spec(1,2) [OF inv]
    by (cases "evict_candidate c sc"; simp)+
  show "get_slab_class (slab_manager (cache_evict c sc)) = get_slab_class (slab_manager c)"
  proof (cases "evict_candidate c sc")
    case (Some m)
    note ev = cache_evict_Some [OF inv Some]
    then have "address m \<in> live (slab_manager c)" "man_inv (slab_manager c)"
      using inv by (auto simp: cache_inv_def get_meta_iff values_inv_def list_all_iff value_ok_def)
    from slab_alloc.release_live [OF this(2,1), of "msize m"] show ?thesis
      by (simp add: ev(2) removed_spec(3) [OF inv ev(1)])
  qed (simp add: cache_evict_None)
qed

text \<open>What \<open>cache_set\<close> does to the map: at most one other key \<open>e\<close> is lost (\<open>e = k\<close>: none).\<close>

definition set_effect :: "cache_obj \<Rightarrow> cstring \<Rightarrow> byte list \<Rightarrow> u8 \<Rightarrow> cache_obj \<Rightarrow> bool" where
  "set_effect c k v r c' \<longleftrightarrow>
     cache_inv c'
     \<and> (r = 0 \<and> (\<exists>e. cache_map c' = (cache_map c)(e := None, k \<mapsto> v))
        \<or> r = 4 \<and> cache_map c' = (cache_map c)(k := None))"

lemma no_key_lost: "\<exists>e. M(k \<mapsto> v) = M(e := None, k \<mapsto> v)"
  by (rule exI [of _ k]) simp

text \<open>The requests that pass the checks at the start of \<open>cache_set\<close>.\<close>

definition request_accepted :: "cstring \<Rightarrow> byte list \<Rightarrow> nat \<Rightarrow> bool" where
  "request_accepted k val n \<longleftrightarrow>
     length k \<le> 32 \<and> 0 < n \<and> n \<le> get_slab_size \<and> n \<le> length val \<and> val ! (n - 1) = NUL"

lemma set_request_accepted: "set_request_ok k val n \<Longrightarrow> request_accepted k val n"
  by (simp add: set_request_ok_def request_accepted_def get_slab_size_def)

lemma cache_set_unfold:
  assumes "cache_inv c" and "request_accepted k val n"
  shows "cache_set mal (Some c) k val n =
     (let c = without k c;
          sc = get_slab_class (slab_manager c) n
      in case free_space mal c sc of
           Inl f \<Rightarrow> Inl f
         | Inr (Some a, c) \<Rightarrow> map_sum id (\<lambda>c. (0, Some c)) (cache_insert c k val n a sc)
         | Inr (None, c) \<Rightarrow>
             (case free_space mal (cache_evict c sc) sc of
                Inl f \<Rightarrow> Inl f
              | Inr (None, c) \<Rightarrow> Inr (4, Some c)
              | Inr (Some a, c) \<Rightarrow> map_sum id (\<lambda>c. (0, Some c)) (cache_insert c k val n a sc)))"
proof -
  have "n \<le> unat (maxmem c)"
    using assms by (simp add: request_accepted_def cache_inv_def count_inv_def)
  with assms(2) show ?thesis
    by (simp add: cache_set_def without_def request_accepted_def strlen_def Let_def)
qed

lemma cache_set_effect:
  assumes inv: "cache_inv c" and mal: "malloc_ok mal" "malloc_total mal" and req: "set_request_ok k val n"
  shows "\<exists>r c'. cache_set mal (Some c) k val n = Inr (r, Some c') \<and> set_effect c k (take n val) r c'"
proof -
  define c0 where "c0 = without k c"
  define sc where "sc = get_slab_class (slab_manager c0) n"
  note w = without_spec [OF inv, of k, folded c0_def]
  note unf = cache_set_unfold [OF inv set_request_accepted [OF req], of mal, folded c0_def, unfolded Let_def, folded sc_def]
  have sc: "class_ok sc"
    using w(1) req by (simp add: sc_def get_slab_class_ok cache_inv_def set_request_ok_def)
  obtain r1 c1 where f1: "free_space mal c0 sc = Inr (r1, c1)" and p1: "free_post c0 sc r1 c1"
    using free_space_no_fault [OF w(1) mal sc] .
  show ?thesis
  proof (cases r1)
    case (Some a)
    have "\<exists>e. (cache_map c0)(k \<mapsto> v) = (cache_map c)(e := None, k \<mapsto> v)" for v
      using w(2) no_key_lost [of "cache_map c" k] by simp
    with insert_after_free [OF w(1) p1 [unfolded Some] req w(3) sc_def] Some show ?thesis
      by (auto simp: unf f1 set_effect_def)
  next
    case None
    define c2 where "c2 = cache_evict c1 sc"
    have inv1: "cache_inv c1" and map1: "cache_map c1 = (cache_map c)(k := None)"
      and cls1: "get_slab_class (slab_manager c1) = get_slab_class (slab_manager c0)"
      using p1 w(2) by (auto simp: free_post_def slab_alloc.grown_def)
    note ev = cache_evict_spec [OF inv1, of sc, folded c2_def]
    obtain r3 c3 where f3: "free_space mal c2 sc = Inr (r3, c3)" and p3: "free_post c2 sc r3 c3"
      using free_space_no_fault [OF ev(1) mal sc] .
    have new2: "get_meta c2 k = None"
      using ev(3) map1 by (auto simp: cache_map_None_iff [symmetric] split: option.splits)
    have sc2: "sc = get_slab_class (slab_manager c2) n" by (simp add: ev(2) cls1 sc_def)
    show ?thesis
    proof (cases r3)
      case (Some a)
      have "\<exists>e. (cache_map c2)(k \<mapsto> v) = (cache_map c)(e := None, k \<mapsto> v)" for v
        using ev(3) map1 no_key_lost [of "cache_map c" k] by (auto simp: fun_upd_twist split: option.splits)
      with insert_after_free [OF ev(1) p3 [unfolded Some] req new2 sc2] Some None show ?thesis
        by (auto simp: unf f1 f3 [unfolded c2_def] set_effect_def)
    next
      case r3: None
      then have "evict_candidate c1 sc = None"
        using free_space_after_evict [OF inv1, of sc _ mal] f3 by (cases "evict_candidate c1 sc") (auto simp: c2_def)
      with r3 None ev(3) map1 p3 show ?thesis
        by (auto simp: unf f1 f3 [unfolded c2_def] set_effect_def free_post_def)
    qed
  qed
qed

text \<open>While there is room for another slab, a set neither fails nor evicts.\<close>

lemma free_space_room:
  assumes inv: "cache_inv c" and mal: "malloc_ok mal" "malloc_total mal"
    and sc: "class_ok sc" "sc \<le> 2 ^ 15" "get_slab_class (slab_manager c) sc = sc"
    and room: "get_slab_size < unat (maxmem c) - unat (csize c)"
  obtains a c' where "free_space mal c sc = Inr (Some a, c')" "free_post c sc (Some a) c'"
proof -
  obtain r c' where fs: "free_space mal c sc = Inr (r, c')" and post: "free_post c sc r c'"
    using free_space_no_fault [OF inv mal sc(1)] .
  obtain r1 man1 where g1: "get_address (slab_manager c) sc = (r1, man1)"
    by (cases "get_address (slab_manager c) sc")
  let ?c1 = "c\<lparr>slab_manager := man1\<rparr>"
  have man1: "man_inv man1" and sc1: "get_slab_class man1 sc = sc"
    using get_address_cache [OF inv g1] sc by (simp_all add: free_post_def slab_alloc.grown_def)
  obtain b where b: "mal (slabs man1) = Some b" "fresh_block (slabs man1) b"
    using mal unfolding malloc_ok_def malloc_total_def by (metis not_None_eq)
  from slab_add_spec [where mal = mal, OF man1 sc(1) b] obtain man2 where
    add: "slab_add mal man1 sc = Inr man2" by auto
  have cnt: "count_inv c" using inv by (simp add: cache_inv_def)
  have big: "of_nat get_slab_size < maxmem c - ucast (csize c)"
    unfolding word_less_nat_alt count_inv_room(1) [OF cnt] using room
    by (simp add: get_slab_size_def memory_size_def)
  then have ex: "expand_cache mal ?c1 sc =
      Inr (?c1\<lparr>slab_manager := man2, csize := csize c + of_nat get_slab_size\<rparr>)"
    by (simp add: expand_cache_def add)
  have "ucast (csize c) < maxmem c"
    using count_inv_less [OF cnt] .
  with ex g1 fs slab_add_room [where mal = mal, OF man1 sc(1,2) b add sc1] have "r \<noteq> None"
    by (auto simp: free_space_def split: option.splits prod.splits)
  with fs post that show thesis by blast
qed

lemma cache_set_room:
  assumes inv: "cache_inv c" and mal: "malloc_ok mal" "malloc_total mal" and req: "set_request_ok k val n"
    and n: "n \<le> 2 ^ 15" and room: "get_slab_size < unat (maxmem c) - unat (csize c)"
  shows "\<exists>c'. cache_set mal (Some c) k val n = Inr (0, Some c') \<and> cache_inv c'
           \<and> cache_map c' = (cache_map c)(k \<mapsto> take n val)"
proof -
  define c0 where "c0 = without k c"
  define sc where "sc = get_slab_class (slab_manager c0) n"
  note w = without_spec [OF inv, of k, folded c0_def]
  note unf = cache_set_unfold [OF inv set_request_accepted [OF req], of mal, folded c0_def, unfolded Let_def, folded sc_def]
  have man: "man_inv (slab_manager c0)" using w(1) by (simp add: cache_inv_def)
  then have cls: "classes (slab_manager c0) = classes (initialize None)" by (simp add: man_inv_def)
  have "2 ^ 15 \<in> set (butlast (classes (slab_manager c0)))" unfolding cls default_classes by simp
  with get_slab_class_cases(3) [OF cls] n have "sc \<le> 2 ^ 15" unfolding sc_def by blast
  moreover have "get_slab_class (slab_manager c0) sc = sc"
    unfolding sc_def by (rule get_slab_class_idem [OF cls])
  moreover have "class_ok sc" unfolding sc_def using req by (intro get_slab_class_ok [OF man]) (simp add: set_request_ok_def)
  moreover have "get_slab_size < unat (maxmem c0) - unat (csize c0)" using room w(4,5) by simp
  ultimately obtain a c1 where f1: "free_space mal c0 sc = Inr (Some a, c1)"
    and p1: "free_post c0 sc (Some a) c1"
    using free_space_room [OF w(1) mal] by blast
  from insert_after_free [OF w(1) p1 req w(3) sc_def] w(2) show ?thesis
    by (auto simp: unf f1)
qed

section \<open>Getting a value\<close>

definition reset_timer :: "cstring \<Rightarrow> meta_obj \<Rightarrow> meta_obj" where
  "reset_timer k m = (if meta_str m = k then m\<lparr>timer := 0\<rparr> else m)"

lemma only_timer_reset: "only_timer (reset_timer k)"
  by (simp add: only_timer_def reset_timer_def)

lemma modify_bucket:
  assumes inv: "table_inv c"
  shows "(buckets c)[bucket_of c k := ll_modify meta_compare (buckets c ! bucket_of c k) k (\<lambda>m. m\<lparr>timer := 0\<rparr>)] =
           map (map (reset_timer k)) (buckets c)" (is "?l = ?r")
proof (rule nth_equalityI)
  fix i
  assume "i < length ?l"
  then have i: "i < length (buckets c)" by simp
  show "?l ! i = ?r ! i"
  proof (cases "i = bucket_of c k")
    case True
    with i meta_keys.modify_map [OF bucket_distinct [OF inv i], of k "\<lambda>m. m\<lparr>timer := 0\<rparr>"]
    show ?thesis by (simp add: reset_timer_def)
  next
    case False
    have "reset_timer k m = m" if "m \<in> set (buckets c ! i)" for m
      using inv i that False by (auto simp: table_inv_def reset_timer_def)
    then have "map (reset_timer k) (buckets c ! i) = buckets c ! i"
      by (simp add: map_idI)
    with i False show ?thesis by simp
  qed
qed simp

lemma cache_get_Some:
  assumes inv: "table_inv c" and m: "get_meta c k = Some m" and pos: "0 < msize m"
  shows "cache_get (Some c) k =
           (if strlen_at (store c) (address m) (msize m - 1)
            then Inr ((Some (address m), Some (msize m)), Some (map_table (reset_timer k) c))
            else Inl Assertion)"
  using m pos by (simp add: cache_get_def modify_bucket [OF inv] Let_def)

lemma reset_spec:
  assumes "cache_inv c"
  shows "cache_inv (map_table (reset_timer k) c)"
    and "cache_map (map_table (reset_timer k) c) = cache_map c"
  using assms cache_inv_map_table [OF only_timer_reset] cache_map_map_table [OF only_timer_reset]
  by (auto simp: cache_inv_def)

lemma value_ok_get: "cache_inv c \<Longrightarrow> get_meta c k = Some m \<Longrightarrow> value_ok (slab_manager c) m"
  by (auto simp: cache_inv_def values_inv_def list_all_iff get_meta_iff)

text \<open>
  A value is returned exactly as it was stored when it is a C string; the assertion in
  \<open>cache_get\<close> stops the program when the stored bytes have an inner NUL.
\<close>

definition is_cstring :: "byte list \<Rightarrow> bool" where
  "is_cstring v \<longleftrightarrow> v = cstr v @ [NUL]"

lemma is_cstring_strlen:
  assumes "0 < n"
  shows "strlen_at st a (n - 1) \<longleftrightarrow> is_cstring (load st a n)"
proof -
  have "(\<exists>s. cstring_ok s \<and> length s = n - 1 \<and> load st a n = s @ [NUL]) \<longleftrightarrow> is_cstring (load st a n)"
    (is "?l \<longleftrightarrow> ?r")
  proof
    assume ?l
    then show ?r by (auto simp: is_cstring_def)
  next
    assume r: ?r
    then have "length (cstr (load st a n)) = n - 1"
      unfolding is_cstring_def by (metis diff_Suc_1 length_append_singleton length_load)
    with r show ?l unfolding is_cstring_def by (metis cstr_ok)
  qed
  with strlen_at_load [of st a "n - 1"] assms show ?thesis by simp
qed

lemma cache_get_spec:
  assumes inv: "cache_inv c"
  shows "case cache_map c k of
           None \<Rightarrow> cache_get (Some c) k = Inr ((None, Some 0), Some c)
         | Some v \<Rightarrow>
             if is_cstring v
             then \<exists>a c'. cache_get (Some c) k = Inr ((Some a, Some (length v)), Some c')
                    \<and> load (store c') a (length v) = v \<and> cache_inv c' \<and> cache_map c' = cache_map c
             else cache_get (Some c) k = Inl Assertion"
proof (cases "get_meta c k")
  case None
  then show ?thesis by (simp add: cache_map_def cache_get_def)
next
  case (Some m)
  have pos: "0 < msize m" using value_ok_get [OF inv Some] by (simp add: value_ok_def)
  have tab: "table_inv c" using inv by (simp add: cache_inv_def)
  show ?thesis
    using Some cache_get_Some [OF tab Some pos] is_cstring_strlen [OF pos] reset_spec [OF inv, of k]
    by (simp add: cache_map_def)
qed

section \<open>Deleting a value\<close>

lemma cache_delete_spec:
  assumes inv: "cache_inv c"
  shows "case cache_map c k of
           None \<Rightarrow> cache_delete (Some c) k = (255, Some c)
         | Some v \<Rightarrow> \<exists>c'. cache_delete (Some c) k = (0, Some c') \<and> cache_inv c'
                        \<and> cache_map c' = (cache_map c)(k := None)"
proof (cases "get_meta c k")
  case None
  then show ?thesis by (simp add: cache_map_def cache_delete_None)
next
  case (Some m)
  have "table_inv c" using inv by (simp add: cache_inv_def)
  from cache_delete_Some [OF this Some] removed_spec(1,2) [OF inv Some] Some show ?thesis
    by (simp add: cache_map_def)
qed

section \<open>Creating a cache\<close>

lemma man_inv_initialize: "man_inv (initialize None)"
  by (simp add: man_inv_def initialize_def slabs_apart_def)

lemma create_maxmem:
  "unat (maxmem (create_cache mm h)) =
     (if unat mm < get_slab_size then 2 * get_slab_size else min (2 ^ 32) (unat mm))"
proof -
  have "unat (2 ^ 32 :: u64) = 2 ^ 32" by simp
  then show ?thesis
    by (auto simp: create_cache_def Let_def word_less_nat_alt get_slab_size_def memory_size_def)
qed

lemma create_cache_spec:
  "cache_inv (create_cache mm h)" "cache_map (create_cache mm h) = Map.empty"
proof -
  let ?c = "create_cache mm h"
  have c: "csize ?c = 0" "slab_manager ?c = initialize None" "buckets ?c = replicate 30 []"
    "num_buckets ?c = 30" "num_values ?c = 0"
    by (simp_all add: create_cache_def Let_def)
  have "metas ?c = []" by (simp add: metas_def c)
  moreover have "count_inv ?c"
    using \<open>metas ?c = []\<close> create_maxmem [of mm h] c
    by (auto simp: count_inv_def initialize_def get_slab_size_def memory_size_def)
  ultimately show inv: "cache_inv ?c"
    by (simp add: cache_inv_def table_inv_def values_inv_def c man_inv_initialize)
  have "get_meta ?c k = None" for k
    using inv \<open>metas ?c = []\<close> by (simp add: cache_inv_def get_meta_None_iff)
  then show "cache_map ?c = Map.empty" by (simp add: cache_map_def fun_eq_iff)
qed

section \<open>Correctness of the operations\<close>

text \<open>
  Property C3. \<open>cache_set\<close> on a well-formed cache, with a key of at most 31 bytes and a value
  of more than 64 and at most 2^20 bytes that ends in NUL, while \<open>malloc\<close> never returns NULL:
  no fault; it returns 0 or 4 and keeps the invariant. With 0 the key has the new value and at
  most one other key was evicted; with 4 the key has no value and everything else is as before.
\<close>

theorem cache_set_correct:
  assumes "cache_inv c" and "malloc_ok mal" and "malloc_total mal" and "set_request_ok k val n"
  shows "\<exists>r c'. cache_set mal (Some c) k val n = Inr (r, Some c') \<and> cache_inv c'
           \<and> (r = 0 \<and> (\<exists>e. cache_map c' = (cache_map c)(e := None, k \<mapsto> take n val))
              \<or> r = 4 \<and> cache_map c' = (cache_map c)(k := None))"
  using cache_set_effect [OF assms] unfolding set_effect_def by blast

text \<open>A string of 99 bytes, stored with its NUL in an entry of 128 bytes.\<close>

definition sample_value :: cstring where
  "sample_value = replicate 99 CHR ''v''"

lemma sample_value_ok: "cstring_ok sample_value" "length sample_value = 99"
  by (simp_all add: sample_value_def cstring_ok_def)

lemma sample_request: "set_request_ok ''k'' (sample_value @ [NUL]) 100"
  by (simp add: set_request_ok_def memory_size_def sample_value_ok nth_append)

theorem cache_set_correct_witness:
  "\<exists>r c'. cache_set bump_malloc (Some (create_cache 0 None)) ''k'' (sample_value @ [NUL]) 100 = Inr (r, Some c')"
  using cache_set_correct [OF create_cache_spec(1) bump_malloc_ok bump_malloc_total sample_request]
  by blast

text \<open>
  Property C24. While there is memory for another slab and \<open>malloc\<close> delivers it, a set with a
  key of at most 31 bytes and a value of more than 64 and at most 2^15 bytes that ends in NUL
  succeeds and evicts nothing.
\<close>

theorem cache_set_with_room:
  assumes "cache_inv c" and "malloc_ok mal" and "malloc_total mal" and "set_request_ok k val n"
    and "n \<le> 2 ^ 15" and "get_slab_size < unat (maxmem c) - unat (csize c)"
  shows "\<exists>c'. cache_set mal (Some c) k val n = Inr (0, Some c') \<and> cache_inv c'
           \<and> cache_map c' = (cache_map c)(k \<mapsto> take n val)"
  using assms by (rule cache_set_room)

lemma create_room: "get_slab_size < unat (maxmem (create_cache 0 None)) - unat (csize (create_cache 0 None))"
  unfolding create_maxmem by (simp add: create_cache_def Let_def get_slab_size_def memory_size_def)

theorem cache_set_with_room_witness:
  "\<exists>c'. cache_set bump_malloc (Some (create_cache 0 None)) ''k'' (sample_value @ [NUL]) 100 = Inr (0, Some c')
     \<and> cache_map c' ''k'' = Some (sample_value @ [NUL])"
  using cache_set_with_room [OF create_cache_spec(1) bump_malloc_ok bump_malloc_total sample_request _ create_room]
  by (auto simp: sample_value_ok)

text \<open>
  Property C20. \<open>cache_get\<close> returns a pointer to the stored bytes and their number, or NULL and
  0 when the key has no value; the contents of the cache do not change. A stored value with an
  inner NUL stops the program at the assertion.
\<close>

theorem cache_get_correct:
  assumes "cache_inv c"
  shows "case cache_map c k of
           None \<Rightarrow> cache_get (Some c) k = Inr ((None, Some 0), Some c)
         | Some v \<Rightarrow>
             if is_cstring v
             then \<exists>a c'. cache_get (Some c) k = Inr ((Some a, Some (length v)), Some c')
                    \<and> load (store c') a (length v) = v \<and> cache_inv c' \<and> cache_map c' = cache_map c
             else cache_get (Some c) k = Inl Assertion"
  using assms by (rule cache_get_spec)

theorem cache_get_correct_witness:
  "cache_get (Some (create_cache 0 None)) ''k'' = Inr ((None, Some 0), Some (create_cache 0 None))"
  using cache_get_correct [OF create_cache_spec(1), of 0 None "''k''"] by (simp add: create_cache_spec(2))

text \<open>
  Property C25. \<open>cache_delete\<close> returns 0 and removes exactly the value of the key, or returns
  255 (\<open>-1\<close>) and leaves the cache alone when there is none.
\<close>

theorem cache_delete_correct:
  assumes "cache_inv c"
  shows "case cache_map c k of
           None \<Rightarrow> cache_delete (Some c) k = (255, Some c)
         | Some v \<Rightarrow> \<exists>c'. cache_delete (Some c) k = (0, Some c') \<and> cache_inv c'
                        \<and> cache_map c' = (cache_map c)(k := None)"
  using assms by (rule cache_delete_spec)

theorem cache_delete_correct_witness:
  "cache_delete (Some (create_cache 0 None)) ''k'' = (255, Some (create_cache 0 None))"
  using cache_delete_correct [OF create_cache_spec(1), of 0 None "''k''"] by (simp add: create_cache_spec(2))

text \<open>
  A new cache is well formed and empty, and its memory limit is the requested
  one, raised to two slabs if it is below one slab and lowered to 4 GB.
\<close>

theorem create_cache_correct:
  "cache_inv (create_cache mm h) \<and> cache_map (create_cache mm h) = Map.empty
   \<and> unat (maxmem (create_cache mm h)) =
       (if unat mm < get_slab_size then 2 * get_slab_size else min (2 ^ 32) (unat mm))"
  using create_cache_spec create_maxmem by blast

end
