(* ===== verification/Kv_Spec.thy ===== *)
theory Kv_Spec
  imports Prelude
begin

text \<open>
  What a cache promises its clients, as the README of the program words it: a get returns
  the most recently set value of the key or nothing, a deleted value is never returned, and
  a value that was set is found as long as no other set occurs. The contract is a locale;
  the consequences for whole histories of requests are proved from it.
\<close>

datatype ('k, 'v) kv_op = Set_Op 'k 'v | Get_Op 'k | Delete_Op 'k

text \<open>The result of a request: for a get the value found.\<close>

datatype 'v kv_out = Stored bool | Found "'v option" | Deleted bool

type_synonym ('s, 'k, 'v) kv_set = "'s \<Rightarrow> 'k \<Rightarrow> 'v \<Rightarrow> (bool \<times> 's) c_result"
type_synonym ('s, 'k, 'v) kv_get = "'s \<Rightarrow> 'k \<Rightarrow> ('v option \<times> 's) c_result"
type_synonym ('s, 'k) kv_del = "'s \<Rightarrow> 'k \<Rightarrow> bool \<times> 's"

fun kv_step ::
  "('s, 'k, 'v) kv_set \<Rightarrow> ('s, 'k, 'v) kv_get \<Rightarrow> ('s, 'k) kv_del \<Rightarrow> 's \<Rightarrow> ('k, 'v) kv_op \<Rightarrow>
   ('v kv_out \<times> 's) c_result" where
  "kv_step st gt dl s (Set_Op k v) = map_sum id (map_prod Stored id) (st s k v)"
| "kv_step st gt dl s (Get_Op k) = map_sum id (map_prod Found id) (gt s k)"
| "kv_step st gt dl s (Delete_Op k) = Inr (map_prod Deleted id (dl s k))"

fun kv_run ::
  "('s, 'k, 'v) kv_set \<Rightarrow> ('s, 'k, 'v) kv_get \<Rightarrow> ('s, 'k) kv_del \<Rightarrow> 's \<Rightarrow> ('k, 'v) kv_op list \<Rightarrow>
   ('v kv_out list \<times> 's) c_result" where
  "kv_run st gt dl s [] = Inr ([], s)"
| "kv_run st gt dl s (x # xs) =
     (case kv_step st gt dl s x of
        Inl f \<Rightarrow> Inl f
      | Inr (y, s') \<Rightarrow> map_sum id (map_prod (Cons y) id) (kv_run st gt dl s' xs))"

text \<open>The unbounded store: what a history of requests leaves for each key.\<close>

fun kv_latest :: "('k \<rightharpoonup> 'v) \<Rightarrow> ('k, 'v) kv_op \<Rightarrow> ('k \<rightharpoonup> 'v)" where
  "kv_latest M (Set_Op k v) = M(k \<mapsto> v)"
| "kv_latest M (Get_Op k) = M"
| "kv_latest M (Delete_Op k) = M(k := None)"

text \<open>An answer that agrees with the unbounded store, or is a miss.\<close>

fun kv_answer_ok :: "('k \<rightharpoonup> 'v) \<Rightarrow> ('k, 'v) kv_op \<Rightarrow> 'v kv_out \<Rightarrow> bool" where
  "kv_answer_ok M (Get_Op k) (Found r) \<longleftrightarrow> r = None \<or> r = M k"
| "kv_answer_ok M (Set_Op k v) (Stored b) \<longleftrightarrow> True"
| "kv_answer_ok M (Delete_Op k) (Deleted b) \<longleftrightarrow> b \<longrightarrow> M k \<noteq> None"
| "kv_answer_ok M _ _ \<longleftrightarrow> False"

fun kv_answers_ok :: "('k \<rightharpoonup> 'v) \<Rightarrow> ('k, 'v) kv_op list \<Rightarrow> 'v kv_out list \<Rightarrow> bool" where
  "kv_answers_ok M [] [] \<longleftrightarrow> True"
| "kv_answers_ok M (x # xs) (y # ys) \<longleftrightarrow> kv_answer_ok M x y \<and> kv_answers_ok (kv_latest M x) xs ys"
| "kv_answers_ok M _ _ \<longleftrightarrow> False"

fun kv_op_ok :: "('k \<Rightarrow> 'v \<Rightarrow> bool) \<Rightarrow> ('k, 'v) kv_op \<Rightarrow> bool" where
  "kv_op_ok req (Set_Op k v) = req k v"
| "kv_op_ok req _ = True"

text \<open>Requests that leave the value of \<open>k\<close> alone: no set at all, and no delete of \<open>k\<close>.\<close>

fun kv_harmless :: "'k \<Rightarrow> ('k, 'v) kv_op \<Rightarrow> bool" where
  "kv_harmless k (Set_Op _ _) \<longleftrightarrow> False"
| "kv_harmless k (Get_Op _) \<longleftrightarrow> True"
| "kv_harmless k (Delete_Op k') \<longleftrightarrow> k' \<noteq> k"

locale kv_store =
  fixes kinv :: "'s \<Rightarrow> bool"
    and view :: "'s \<Rightarrow> 'k \<rightharpoonup> 'v"
    and req :: "'k \<Rightarrow> 'v \<Rightarrow> bool"
    and st :: "('s, 'k, 'v) kv_set"
    and gt :: "('s, 'k, 'v) kv_get"
    and dl :: "('s, 'k) kv_del"
  assumes set_law:
      "\<lbrakk> kinv s; req k v \<rbrakk> \<Longrightarrow>
       \<exists>b s'. st s k v = Inr (b, s') \<and> kinv s'
         \<and> (if b then \<exists>e. view s' = (view s)(e := None, k \<mapsto> v) else view s' = (view s)(k := None))"
    and get_law:
      "kinv s \<Longrightarrow> \<exists>s'. gt s k = Inr (view s k, s') \<and> kinv s' \<and> view s' = view s"
    and del_law:
      "kinv s \<Longrightarrow>
       \<exists>s'. dl s k = (view s k \<noteq> None, s') \<and> kinv s' \<and> view s' = (view s)(k := None)"
begin

text \<open>One request: the answer is right, and nothing is in the store that was not put there.\<close>

lemma step_ok:
  assumes inv: "kinv s" and op: "kv_op_ok req x" and le: "view s \<subseteq>\<^sub>m M"
  obtains y s' where "kv_step st gt dl s x = Inr (y, s')" "kinv s'" "kv_answer_ok M x y"
    "view s' \<subseteq>\<^sub>m kv_latest M x"
proof (cases x)
  case (Set_Op k v)
  with op have "req k v" by simp
  from set_law [OF inv this] obtain b s' where s': "st s k v = Inr (b, s')" "kinv s'"
    "if b then \<exists>e. view s' = (view s)(e := None, k \<mapsto> v) else view s' = (view s)(k := None)"
    by blast
  moreover have "view s' \<subseteq>\<^sub>m M(k \<mapsto> v)"
    using s'(3) le by (auto simp: map_le_def split: if_splits) (metis domI)
  ultimately show thesis using that Set_Op by simp
next
  case (Get_Op k)
  moreover from get_law [OF inv] obtain s' where "gt s k = Inr (view s k, s')" "kinv s'" "view s' = view s"
    by blast
  moreover have "view s k = None \<or> view s k = M k" using le by (auto simp: map_le_def)
  ultimately show thesis using that le by simp
next
  case (Delete_Op k)
  moreover from del_law [OF inv, of k] obtain s' where
    "dl s k = (view s k \<noteq> None, s')" "kinv s'" "view s' = (view s)(k := None)"
    by blast
  moreover have "view s k \<noteq> None \<longrightarrow> M k \<noteq> None" using le by (metis domIff map_le_def)
  ultimately show thesis using that le by (auto simp: map_le_def)
qed

text \<open>Histories: no request faults and every answer is right.\<close>

lemma run_ok:
  assumes "kinv s" and "list_all (kv_op_ok req) xs" and "view s \<subseteq>\<^sub>m M"
  shows "\<exists>ys s'. kv_run st gt dl s xs = Inr (ys, s') \<and> kinv s' \<and> kv_answers_ok M xs ys
           \<and> view s' \<subseteq>\<^sub>m foldl kv_latest M xs"
  using assms
proof (induction xs arbitrary: s M)
  case (Cons x xs)
  then have "kv_op_ok req x" by simp
  from step_ok [OF Cons.prems(1) this Cons.prems(3)] obtain y s' where
    s': "kv_step st gt dl s x = Inr (y, s')" "kinv s'" "kv_answer_ok M x y" "view s' \<subseteq>\<^sub>m kv_latest M x" .
  from Cons.IH [OF s'(2) _ s'(4)] Cons.prems(2) s' show ?case by auto
qed simp

lemma harmless_step:
  assumes inv: "kinv s" and x: "kv_harmless k x"
  obtains y s' where "kv_step st gt dl s x = Inr (y, s')" "kinv s'" "view s' k = view s k"
proof (cases x)
  case (Get_Op k')
  with get_law [OF inv, of k'] that show thesis by auto
next
  case (Delete_Op k')
  with del_law [OF inv, of k'] that x show thesis by auto
qed (use x in simp)

lemma harmless_run:
  "\<lbrakk> kinv s; list_all (kv_harmless k) xs \<rbrakk> \<Longrightarrow>
   \<exists>ys s'. kv_run st gt dl s xs = Inr (ys, s') \<and> kinv s' \<and> view s' k = view s k"
proof (induction xs arbitrary: s)
  case (Cons x xs)
  then have "kv_harmless k x" by simp
  from harmless_step [OF Cons.prems(1) this] obtain y s' where
    s': "kv_step st gt dl s x = Inr (y, s')" "kinv s'" "view s' k = view s k" .
  from Cons.IH [OF s'(2)] Cons.prems(2) s' show ?case by auto
qed simp

text \<open>A value that was stored is found after any harmless requests.\<close>

lemma stored_found:
  assumes inv: "kinv s" and rq: "req k v" and set: "st s k v = Inr (True, s')"
    and xs: "list_all (kv_harmless k) xs"
  shows "\<exists>ys s'' s3. kv_run st gt dl s' xs = Inr (ys, s'') \<and> gt s'' k = Inr (Some v, s3)"
proof -
  from set_law [OF inv rq] set have s': "kinv s'" "view s' k = Some v" by auto
  from harmless_run [OF s'(1) xs] s'(2) get_law show ?thesis by metis
qed

end

end
