(* ===== verification/Cache_Kv.thy ===== *)
theory Cache_Kv
  imports Cache_Ops Kv_Spec
begin

text \<open>
  The cache fulfils the contract of \<open>Kv_Spec\<close>: values are C strings, and the state is the
  cache together with the C allocator it calls.
\<close>

type_synonym cache_env = "(slab list \<Rightarrow> slab option) \<times> cache_obj"

definition env_inv :: "cache_env \<Rightarrow> bool" where
  "env_inv e \<longleftrightarrow>
     malloc_ok (fst e) \<and> malloc_total (fst e) \<and> cache_inv (snd e)
     \<and> (\<forall>k v. cache_map (snd e) k = Some v \<longrightarrow> is_cstring v)"

definition env_view :: "cache_env \<Rightarrow> cstring \<rightharpoonup> cstring" where
  "env_view e = (\<lambda>k. map_option cstr (cache_map (snd e) k))"

text \<open>
  The sets that are covered: keys of at most 31 bytes, and values that with their NUL take
  more than 64 and at most 2^20 bytes.
\<close>

definition env_req :: "cstring \<Rightarrow> cstring \<Rightarrow> bool" where
  "env_req k v \<longleftrightarrow> length k < 32 \<and> cstring_ok k \<and> cstring_ok v
     \<and> 64 \<le> length v \<and> length v < memory_size"

text \<open>The three operations as a client sees them, with strings for values.\<close>

definition env_set :: "(cache_env, cstring, cstring) kv_set" where
  "env_set e k v =
     map_sum id (\<lambda>(r, c). (r = 0, (fst e, the c)))
       (cache_set (fst e) (Some (snd e)) k (v @ [NUL]) (strlen v + 1))"

definition env_get :: "(cache_env, cstring, cstring) kv_get" where
  "env_get e k =
     map_sum id
       (\<lambda>((a, n), c). (map_option (\<lambda>a. cstr (load (store (the c)) a (the n))) a, (fst e, the c)))
       (cache_get (Some (snd e)) k)"

definition env_delete :: "(cache_env, cstring) kv_del" where
  "env_delete e k = (case cache_delete (Some (snd e)) k of (r, c) \<Rightarrow> (r = 0, (fst e, the c)))"

lemma is_cstring_snoc [simp]: "cstring_ok s \<Longrightarrow> is_cstring (s @ [NUL])"
  by (simp add: is_cstring_def)

lemma env_view_upd:
  assumes "cache_map c' = (cache_map c)(e := None, k \<mapsto> v)"
  shows "env_view (mal, c') = (env_view (mal, c))(e := None, k \<mapsto> cstr v)"
  using assms by (auto simp: env_view_def)

lemma env_view_del:
  assumes "cache_map c' = (cache_map c)(k := None)"
  shows "env_view (mal, c') = (env_view (mal, c))(k := None)"
  using assms by (auto simp: env_view_def)

lemma env_set_law:
  assumes inv: "env_inv (mal, c)" and req: "env_req k v"
  shows "\<exists>b s'. env_set (mal, c) k v = Inr (b, s') \<and> env_inv s'
     \<and> (if b then \<exists>e. env_view s' = (env_view (mal, c))(e := None, k \<mapsto> v)
        else env_view s' = (env_view (mal, c))(k := None))"
proof -
  have "set_request_ok k (v @ [NUL]) (strlen v + 1)"
    using req by (simp add: set_request_ok_def env_req_def strlen_def)
  from cache_set_effect [OF _ _ _ this, of c mal] inv obtain r c' where
    set: "cache_set mal (Some c) k (v @ [NUL]) (strlen v + 1) = Inr (r, Some c')"
    and eff: "set_effect c k (v @ [NUL]) r c'"
    by (auto simp: env_inv_def strlen_def)
  have "is_cstring (v @ [NUL])" "cstr (v @ [NUL]) = v" using req by (auto simp: env_req_def)
  with eff inv have "env_inv (mal, c')"
    by (auto simp: env_inv_def set_effect_def split: if_splits)
  moreover have "if r = 0 then \<exists>e. env_view (mal, c') = (env_view (mal, c))(e := None, k \<mapsto> v)
      else env_view (mal, c') = (env_view (mal, c))(k := None)"
    using eff env_view_upd [of c' c _ k "v @ [NUL]" mal] env_view_del [of c' c k mal] \<open>cstr (v @ [NUL]) = v\<close>
    by (auto simp: set_effect_def)
  ultimately show ?thesis using set by (simp add: env_set_def)
qed

lemma env_get_law:
  assumes inv: "env_inv s"
  shows "\<exists>s'. env_get s k = Inr (env_view s k, s') \<and> env_inv s' \<and> env_view s' = env_view s"
proof -
  obtain mal c where s: "s = (mal, c)" by (cases s)
  have "cache_inv c" using inv s by (simp add: env_inv_def)
  from cache_get_spec [OF this, of k] show ?thesis
  proof (cases "cache_map c k")
    case None
    with cache_get_spec [OF \<open>cache_inv c\<close>, of k] inv show ?thesis
      by (simp add: s env_get_def env_view_def)
  next
    case (Some v)
    with inv have "is_cstring v" by (simp add: env_inv_def s)
    with Some cache_get_spec [OF \<open>cache_inv c\<close>, of k] obtain a c' where
      "cache_get (Some c) k = Inr ((Some a, Some (length v)), Some c')"
      "load (store c') a (length v) = v" "cache_inv c'" "cache_map c' = cache_map c"
      by auto
    with inv Some show ?thesis by (simp add: s env_get_def env_view_def env_inv_def)
  qed
qed

lemma env_delete_law:
  assumes inv: "env_inv s"
  shows "\<exists>s'. env_delete s k = (env_view s k \<noteq> None, s') \<and> env_inv s'
           \<and> env_view s' = (env_view s)(k := None)"
proof -
  obtain mal c where s: "s = (mal, c)" by (cases s)
  have "cache_inv c" using inv s by (simp add: env_inv_def)
  show ?thesis
  proof (cases "cache_map c k")
    case None
    with cache_delete_spec [OF \<open>cache_inv c\<close>, of k] inv show ?thesis
      by (simp add: s env_delete_def env_view_def fun_upd_idem)
  next
    case (Some v)
    with cache_delete_spec [OF \<open>cache_inv c\<close>, of k] obtain c' where
      c': "cache_delete (Some c) k = (0, Some c')" "cache_inv c'" "cache_map c' = (cache_map c)(k := None)"
      by auto
    with inv s have "env_inv (mal, c')" by (auto simp: env_inv_def split: if_splits)
    moreover have "env_view s k \<noteq> None" using Some by (simp add: s env_view_def)
    ultimately show ?thesis
      using c' env_view_del [OF c'(3), of mal] by (simp add: s env_delete_def)
  qed
qed

interpretation cache_kv: kv_store env_inv env_view env_req env_set env_get env_delete
proof unfold_locales
  fix e :: cache_env and k v
  assume "env_inv e" "env_req k v"
  then show "\<exists>b e'. env_set e k v = Inr (b, e') \<and> env_inv e'
      \<and> (if b then \<exists>x. env_view e' = (env_view e)(x := None, k \<mapsto> v)
         else env_view e' = (env_view e)(k := None))"
    by (cases e) (simp only: env_set_law)
qed (fact env_get_law, fact env_delete_law)

section \<open>Histories of requests\<close>

lemma env_inv_create: "malloc_ok mal \<Longrightarrow> malloc_total mal \<Longrightarrow> env_inv (mal, create_cache mm h)"
  by (simp add: env_inv_def create_cache_spec)

text \<open>
  Property C1. The README's definition of a correct cache, while \<open>malloc\<close> never returns NULL.
  For every sequence of sets, gets and deletes on a new cache, whose sets have keys of at most
  31 bytes and values of 64 to 2^20 - 1 bytes without their NUL: no operation faults; every get
  returns the value most recently set for the key, and not deleted since, or nothing; and
  whatever the cache holds at the end is such a value.
\<close>

theorem cache_histories_correct:
  assumes "malloc_ok mal" and "malloc_total mal" and "list_all (kv_op_ok env_req) xs"
  shows "\<exists>ys e. kv_run env_set env_get env_delete (mal, create_cache mm h) xs = Inr (ys, e)
           \<and> kv_answers_ok Map.empty xs ys \<and> env_view e \<subseteq>\<^sub>m foldl kv_latest Map.empty xs"
  using cache_kv.run_ok [OF env_inv_create [OF assms(1,2)] assms(3), of mm h Map.empty]
  by (auto simp: env_view_def create_cache_spec(2))

lemma sample_env_req: "env_req ''k'' sample_value"
  by (simp add: env_req_def memory_size_def sample_value_ok)

theorem cache_histories_correct_witness:
  "\<exists>ys e. kv_run env_set env_get env_delete (bump_malloc, create_cache 0 None)
       [Set_Op ''k'' sample_value, Get_Op ''k'', Delete_Op ''k'', Get_Op ''k''] = Inr (ys, e)
     \<and> env_view e ''k'' = None"
proof -
  let ?xs = "[Set_Op ''k'' sample_value, Get_Op ''k'', Delete_Op ''k'', Get_Op ''k'']"
  have "list_all (kv_op_ok env_req) ?xs" by (simp add: sample_env_req)
  from cache_histories_correct [OF bump_malloc_ok bump_malloc_total this, of 0 None] obtain ys e where
    "kv_run env_set env_get env_delete (bump_malloc, create_cache 0 None) ?xs = Inr (ys, e)"
    "env_view e \<subseteq>\<^sub>m foldl kv_latest Map.empty ?xs"
    by blast
  then show ?thesis by (intro exI [of _ ys] exI [of _ e]) (auto simp: map_le_def)
qed

text \<open>
  Property C19. The README's optimistic clause, for a key of at most 31 bytes and a value of 64
  to 2^20 - 1 bytes without its NUL, in a well-formed cache of C strings whose \<open>malloc\<close> never
  returns NULL: a value whose set succeeded is returned by a get after any gets and deletes of
  other keys.
\<close>

theorem stored_value_found:
  assumes "env_inv e" and "env_req k v" and "env_set e k v = Inr (True, e')"
    and "list_all (kv_harmless k) xs"
  shows "\<exists>ys e'' e3. kv_run env_set env_get env_delete e' xs = Inr (ys, e'')
           \<and> env_get e'' k = Inr (Some v, e3)"
  using assms by (rule cache_kv.stored_found)

theorem stored_value_found_witness:
  "\<exists>e' ys e'' e3. env_set (bump_malloc, create_cache 0 None) ''k'' sample_value = Inr (True, e')
     \<and> kv_run env_set env_get env_delete e' [Delete_Op ''j'', Get_Op ''k''] = Inr (ys, e'')
     \<and> env_get e'' ''k'' = Inr (Some sample_value, e3)"
proof -
  obtain c' where "cache_set bump_malloc (Some (create_cache 0 None)) ''k'' (sample_value @ [NUL]) 100 = Inr (0, Some c')"
    using cache_set_room [OF create_cache_spec(1) bump_malloc_ok bump_malloc_total sample_request _ create_room]
    by auto
  then have set: "env_set (bump_malloc, create_cache 0 None) ''k'' sample_value = Inr (True, (bump_malloc, c'))"
    by (simp add: env_set_def strlen_def sample_value_ok)
  from stored_value_found [OF env_inv_create [OF bump_malloc_ok bump_malloc_total] sample_env_req set,
      of "[Delete_Op ''j'', Get_Op ''k'']"] set
  show ?thesis by auto
qed

end
