(* ===== verification/Cache_Limits.thy ===== *)
theory Cache_Limits
  imports Cache_Kv
begin

text \<open>
  Bounds and limits of the cache: how much memory the values take, what the 8-bit ages can
  tell apart, which requests are refused, and what happens at the edges of the size checks.
\<close>

section \<open>Memory\<close>

lemma space_used_fold:
  "fold (\<lambda>b sz. fold (\<lambda>m sz. sz + of_nat (msize m)) b sz) bs a =
     a + (of_nat (sum_list (map msize (concat bs))) :: u64)"
proof (induction bs arbitrary: a)
  case (Cons b bs)
  have "fold (\<lambda>m sz. sz + of_nat (msize m)) ms x = x + (of_nat (sum_list (map msize ms)) :: u64)" for ms x
    by (induction ms arbitrary: x) (simp_all add: algebra_simps)
  with Cons show ?case by (simp add: algebra_simps)
qed simp

lemma value_in_slab:
  assumes inv: "cache_inv c" and m: "m \<in> set (metas c)"
  shows "{address m ..< address m + msize m}
           \<subseteq> (\<Union>s \<in> set (slabs (slab_manager c)). {base s ..< base s + memory_size})"
proof -
  let ?man = "slab_manager c"
  have man: "man_inv ?man" and v: "value_ok ?man m"
    using inv m by (auto simp: cache_inv_def values_inv_def list_all_iff)
  then obtain si k where si: "si < length (slabs ?man)" "k < capacity (slabs ?man ! si)"
    and a: "address m = slot_addr (slabs ?man ! si) k"
    by (auto simp: value_ok_def live_iff)
  have "msize m \<le> sclass (slabs ?man ! si)"
    using v extent_slot [OF man si] a by (simp add: value_ok_def)
  with slot_in_slab [OF man_inv_slab [OF man si(1)] si(2)] a
  have "{address m ..< address m + msize m}
      \<subseteq> {base (slabs ?man ! si) ..< base (slabs ?man ! si) + memory_size}" by auto
  with si(1) show ?thesis by (meson UN_upper nth_mem order_trans)
qed

lemma values_disjoint:
  assumes inv: "cache_inv c" and m: "m \<in> set (metas c)" "x \<in> set (metas c)" "m \<noteq> x"
  shows "{address m ..< address m + msize m} \<inter> {address x ..< address x + msize x} = {}"
proof -
  let ?man = "slab_manager c"
  have man: "man_inv ?man" and v: "value_ok ?man m" "value_ok ?man x" and "address m \<noteq> address x"
    using inv m by (auto simp: cache_inv_def values_inv_def list_all_iff distinct_map inj_on_def)
  then have "disjoint_blocks (address m) (extent ?man (address m)) (address x) (extent ?man (address x))"
    by (intro slab_alloc.live_disjoint) (auto simp: value_ok_def)
  with v have "disjoint_blocks (address m) (msize m) (address x) (msize x)"
    by (elim disjoint_blocks_mono) (auto simp: value_ok_def)
  then show ?thesis by (auto simp: disjoint_blocks_def)
qed

lemma values_size_bound:
  assumes inv: "cache_inv c"
  shows "sum_list (map msize (metas c)) \<le> memory_size * length (slabs (slab_manager c))"
proof -
  let ?B = "\<lambda>m. {address m ..< address m + msize m}" and ?M = "set (metas c)"
  let ?S = "\<lambda>s :: slab. {base s ..< base s + memory_size}" and ?ss = "slabs (slab_manager c)"
  have "distinct (metas c)"
    using inv by (auto simp: cache_inv_def values_inv_def distinct_map)
  then have "sum_list (map msize (metas c)) = (\<Sum>m \<in> ?M. card (?B m))"
    by (simp add: sum_list_distinct_conv_sum_set)
  also have "\<dots> = card (\<Union>m \<in> ?M. ?B m)"
    using values_disjoint [OF inv] by (intro card_UN_disjoint [symmetric]) auto
  also have "\<dots> \<le> card (\<Union>s \<in> set ?ss. ?S s)"
    using value_in_slab [OF inv] by (intro card_mono) auto
  also have "\<dots> \<le> (\<Sum>s \<in> set ?ss. card (?S s))"
    by (rule card_UN_le) simp
  also have "\<dots> \<le> memory_size * length ?ss"
    by (simp add: card_length)
  finally show ?thesis .
qed

lemma space_used_sum:
  assumes "cache_inv c"
  shows "unat (cache_space_used (Some c)) = sum_list (map msize (metas c))"
proof -
  have cnt: "get_slab_size * length (slabs (slab_manager c)) < unat (maxmem c)" "unat (maxmem c) \<le> 2 ^ 32"
    using assms by (auto simp: cache_inv_def count_inv_def)
  note le = values_size_bound [OF assms]
  have "memory_size * length (slabs (slab_manager c)) \<le> get_slab_size * length (slabs (slab_manager c))"
    by (simp add: get_slab_size_def)
  with le cnt have "sum_list (map msize (metas c)) < 2 ^ 32" by linarith
  then have "sum_list (map msize (metas c)) < 2 ^ 64" by simp
  then show ?thesis
    by (simp add: cache_space_used_def space_used_fold metas_def unat_of_nat take_bit_nat_eq_self)
qed

text \<open>No operation changes the memory limit.\<close>

lemma cache_delete_maxmem: "cache_delete (Some c) k = (r, Some c') \<Longrightarrow> maxmem c' = maxmem c"
  by (auto simp: cache_delete_def update_timers_def Let_def split: option.splits)

lemma cache_evict_maxmem: "maxmem (cache_evict c sc) = maxmem c"
  by (auto simp: cache_evict_def cache_delete_def update_timers_def Let_def split: option.splits)

lemma without_maxmem: "maxmem (without k c) = maxmem c"
  by (auto simp: without_def cache_delete_def update_timers_def Let_def split: option.splits)

lemma free_space_maxmem: "free_space mal c sc = Inr (r, c') \<Longrightarrow> maxmem c' = maxmem c"
  by (auto simp: free_space_def expand_cache_def Let_def
      split: option.splits prod.splits if_splits sum.splits)

lemma cache_insert_maxmem: "cache_insert c k val n a sc = Inr c' \<Longrightarrow> maxmem c' = maxmem c"
  by (auto simp: cache_insert_def update_timers_def Let_def split: if_splits)

lemma cache_set_maxmem:
  assumes "cache_set mal (Some c) k val n = Inr (r, Some c')"
  shows "maxmem c' = maxmem c"
  using assms unfolding cache_set_def without_def [symmetric]
  by (auto simp: Let_def cache_evict_maxmem without_maxmem map_sum_eq_Inr
      dest!: free_space_maxmem cache_insert_maxmem split: if_splits sum.splits option.splits)

lemma env_step_maxmem:
  assumes inv: "env_inv (mal, c)" and x: "kv_op_ok env_req x"
    and step: "kv_step env_set env_get env_delete (mal, c) x = Inr (y, (mal', c'))"
  shows "maxmem c' = maxmem c"
proof (cases x)
  case (Set_Op k v)
  with x have "set_request_ok k (v @ [NUL]) (strlen v + 1)"
    by (simp add: set_request_ok_def env_req_def strlen_def nth_append)
  from cache_set_effect [OF _ _ _ this, of c mal] inv obtain r c2 where
    set: "cache_set mal (Some c) k (v @ [NUL]) (strlen v + 1) = Inr (r, Some c2)"
    by (auto simp: env_inv_def)
  with step Set_Op have "c' = c2" by (simp add: env_set_def)
  with cache_set_maxmem [OF set] show ?thesis by simp
next
  case (Get_Op k)
  with step show ?thesis
    by (auto simp: env_get_def cache_get_def Let_def map_sum_eq_Inr split: option.splits if_splits)
next
  case (Delete_Op k)
  with step show ?thesis
    by (auto simp: env_delete_def cache_delete_def update_timers_def Let_def split: option.splits)
qed

lemma env_run_maxmem:
  "\<lbrakk> env_inv (mal, c); list_all (kv_op_ok env_req) xs;
     kv_run env_set env_get env_delete (mal, c) xs = Inr (ys, (mal', c')) \<rbrakk> \<Longrightarrow>
   env_inv (mal', c') \<and> maxmem c' = maxmem c"
proof (induction xs arbitrary: mal c ys)
  case (Cons x xs)
  then have x: "kv_op_ok env_req x" by simp
  obtain y mal1 c1 where step: "kv_step env_set env_get env_delete (mal, c) x = Inr (y, (mal1, c1))"
    and inv1: "env_inv (mal1, c1)"
    using cache_kv.step_ok [OF Cons.prems(1) x map_le_refl] by (metis prod.exhaust)
  with Cons.prems(3) obtain zs where "kv_run env_set env_get env_delete (mal1, c1) xs = Inr (zs, (mal', c'))"
    by (auto simp: map_sum_eq_Inr)
  from Cons.IH [OF inv1 _ this] Cons.prems(2) env_step_maxmem [OF Cons.prems(1) x step] show ?case by simp
qed simp

text \<open>
  Property C26. After every sequence of sets, gets and deletes on a new cache, whose sets have
  keys of at most 31 bytes and values of 64 to 2^20 - 1 bytes without their NUL, while \<open>malloc\<close>
  never returns NULL: the slabs take less memory than the limit of the cache, the size that the cache keeps of them is
  right, and \<open>cache_space_used\<close> adds up the sizes of the stored values without overflow, which
  fit into the arrays of the slabs.
\<close>

theorem cache_memory_bounded:
  assumes "malloc_ok mal" and "malloc_total mal" and "list_all (kv_op_ok env_req) xs"
    and "kv_run env_set env_get env_delete (mal, create_cache mm h) xs = Inr (ys, (mal', c))"
  shows "get_slab_size * length (slabs (slab_manager c)) < unat (maxmem (create_cache mm h))
    \<and> unat (csize c) = get_slab_size * length (slabs (slab_manager c))
    \<and> unat (cache_space_used (Some c)) = sum_list (map msize (metas c))
    \<and> unat (cache_space_used (Some c)) \<le> memory_size * length (slabs (slab_manager c))"
proof -
  from env_run_maxmem [OF env_inv_create [OF assms(1,2)] assms(3,4)] have inv: "cache_inv c"
    and mm: "maxmem c = maxmem (create_cache mm h)" by (simp_all add: env_inv_def)
  with values_size_bound [OF inv] space_used_sum [OF inv] show ?thesis
    by (simp add: cache_inv_def count_inv_def)
qed

theorem cache_memory_bounded_witness:
  "\<exists>ys mal c. kv_run env_set env_get env_delete (bump_malloc, create_cache 0 None)
       [Set_Op ''k'' sample_value] = Inr (ys, (mal, c))
     \<and> 100 \<le> unat (cache_space_used (Some c)) \<and> unat (cache_space_used (Some c)) \<le> memory_size * length (slabs (slab_manager c))
     \<and> get_slab_size * length (slabs (slab_manager c)) < unat (maxmem (create_cache 0 None))"
proof -
  let ?c = "create_cache 0 None" and ?xs = "[Set_Op ''k'' sample_value]"
  obtain c where set: "cache_set bump_malloc (Some ?c) ''k'' (sample_value @ [NUL]) 100 = Inr (0, Some c)"
    and map: "cache_map c ''k'' = Some (sample_value @ [NUL])"
    using cache_set_room [OF create_cache_spec(1) bump_malloc_ok bump_malloc_total sample_request _ create_room]
    by (auto simp: sample_value_ok)
  then have run: "kv_run env_set env_get env_delete (bump_malloc, ?c) ?xs = Inr ([Stored True], (bump_malloc, c))"
    by (simp add: env_set_def strlen_def sample_value_ok)
  have req: "list_all (kv_op_ok env_req) ?xs" by (simp add: sample_env_req)
  note bound = cache_memory_bounded [OF bump_malloc_ok bump_malloc_total req run]
  have "table_inv c"
    using env_run_maxmem [OF env_inv_create [OF bump_malloc_ok bump_malloc_total] req run]
    by (simp add: env_inv_def cache_inv_def)
  with map obtain m where m: "m \<in> set (metas c)" "load (store c) (address m) (msize m) = sample_value @ [NUL]"
    by (auto simp: cache_map_def get_meta_iff)
  from arg_cong [OF m(2), of length] have "msize m = 100" by (simp add: sample_value_ok)
  with m(1) have "100 \<in> set (map msize (metas c))" by force
  then have "100 \<le> sum_list (map msize (metas c))" by (intro member_le_sum_list) auto
  with bound run show ?thesis by auto
qed

section \<open>Ages\<close>

lemma update_timers_funpow:
  "(update_timers ^^ n) c = map_table (\<lambda>m. m\<lparr>timer := timer m + of_nat n\<rparr>) c"
proof (induction n)
  case (Suc n)
  have "(- 1 :: u8) = 255" by simp
  then have "timer m \<le> 255" for m :: meta_obj by (metis word_order.extremum)
  then have "tick m = m\<lparr>timer := timer m + 1\<rparr>" for m :: meta_obj by (simp add: tick_def)
  with Suc show ?case
    by (simp add: update_timers_def add.assoc add.commute)
qed simp

text \<open>
  The age of a record is an 8-bit counter that is incremented unconditionally
  (the test \<open>timer <= 255\<close> always holds): after 256 sets and deletes every record is as young
  as it was, so the order of eviction is not the order of use.
\<close>

theorem update_timers_wrap: "(update_timers ^^ 256) c = c"
proof -
  have "(of_nat 256 :: u8) = 0" by simp
  then show ?thesis
    by (simp add: update_timers_funpow del: of_nat_numeral)
qed

text \<open>
  Property C33. The record that \<open>cache_evict\<close> takes out is of the requested class and has the
  largest age of that class; the other values stay. Nothing is taken out only if no record
  of the class has a positive age.
\<close>

theorem cache_evict_takes_oldest:
  assumes "cache_inv c"
  shows "(\<exists>m \<in> set (metas c). slab_class m = sc \<and> 0 < timer m
             \<and> (\<forall>x \<in> set (metas c). slab_class x = sc \<longrightarrow> timer x \<le> timer m)
             \<and> cache_map (cache_evict c sc) = (cache_map c)(meta_str m := None))
         \<or> (\<forall>x \<in> set (metas c). slab_class x = sc \<longrightarrow> timer x = 0) \<and> cache_evict c sc = c"
  using evict_candidate_oldest [of c sc] cache_evict_spec(3) [OF assms, of sc]
    cache_evict_None [of c sc]
  by (cases "evict_candidate c sc") auto

theorem cache_evict_takes_oldest_witness:
  "cache_evict (create_cache 0 None) 64 = create_cache 0 None"
proof -
  have "metas (create_cache 0 None) = []" by (simp add: create_cache_def Let_def metas_def)
  with cache_evict_takes_oldest [OF create_cache_spec(1), of 0 None 64] show ?thesis by simp
qed

section \<open>Refused requests\<close>

text \<open>
  The refusals of \<open>cache_set\<close>: a NULL cache, a key of more than 32 bytes, a
  value larger than a slab or than the memory limit, a value that does not end in NUL. Each
  has its own code and leaves the cache as it was.
\<close>

theorem cache_set_refusals:
  "cache_set mal None k val n = Inr (5, None)
   \<and> (32 < length k \<longrightarrow> cache_set mal (Some c) k val n = Inr (1, Some c))
   \<and> (length k \<le> 32 \<and> get_slab_size < n \<longrightarrow> cache_set mal (Some c) k val n = Inr (2, Some c))
   \<and> (length k \<le> 32 \<and> n \<le> get_slab_size \<and> unat (maxmem c) < n \<longrightarrow>
        cache_set mal (Some c) k val n = Inr (3, Some c))
   \<and> (length k \<le> 32 \<and> n \<le> get_slab_size \<and> n \<le> unat (maxmem c) \<and> 0 < n \<and> n \<le> length val
        \<and> val ! (n - 1) \<noteq> NUL \<longrightarrow> cache_set mal (Some c) k val n = Inr (6, Some c))"
  by (simp add: cache_set_def strlen_def)

theorem cache_set_refusals_witness:
  "cache_set bump_malloc (Some (create_cache 0 None)) ''k'' ''ab'' 2 = Inr (6, Some (create_cache 0 None))"
  using cache_set_refusals [of bump_malloc "''k''" "''ab''" 2 "create_cache 0 None"]
    create_maxmem [of 0 None]
  by (simp add: get_slab_size_def memory_size_def)

lemma cache_map_store_None: "cache_map (c\<lparr>store := s\<rparr>) k = None \<longleftrightarrow> get_meta c k = None"
  by (simp add: cache_map_def get_meta_def bucket_of_def)

section \<open>The edges of the size checks\<close>

text \<open>
  A key of 32 bytes passes the length check and fills the array of its record, so the string
  found there runs on into the address unless the lowest byte of the address is 0.
\<close>

lemma full_key_str:
  assumes "length k = 32" and "cstring_ok k" and "a mod 256 \<noteq> 0"
  shows "meta_str (create_meta k n a sc) \<noteq> k"
proof -
  let ?b = "char_of a :: char"
  have "?b \<noteq> NUL"
  proof
    assume "?b = NUL"
    then have "of_char ?b = (0 :: nat)" by simp
    with assms(3) show False by simp
  qed
  have "le_bytes 8 a = ?b # map (\<lambda>i. char_of (a div 256 ^ i)) [1..<8]"
    by (simp add: le_bytes_def upt_conv_Cons)
  then obtain r where r: "le_bytes 8 a @ le_bytes 4 n = ?b # r" by simp
  have "cstr (k @ ?b # r) = k @ cstr (?b # r)"
    using assms(2) unfolding cstring_ok_def cstr_def by (subst takeWhile_append2) auto
  with r \<open>?b \<noteq> NUL\<close> show ?thesis
    using assms(1) by (simp add: meta_str_def create_meta_def) (simp add: cstr_def)
qed

text \<open>
  Property C36. A value stored under a key of 32 bytes is not found again: the record that
  \<open>cache_set\<close> hangs into the bucket does not compare equal to its own key, whenever the entry's
  address has a nonzero lowest byte.
\<close>

theorem full_key_lost:
  assumes "table_inv c" and "get_meta c k = None" and "length k = 32" and "cstring_ok k"
    and "a mod 256 \<noteq> 0" and "n \<le> sc"
  shows "\<exists>c'. cache_insert c k val n a sc = Inr c' \<and> get_meta c' k = None"
proof -
  define c1 where "c1 = update_timers (c\<lparr>store := memcpy (store c) a (take n val)\<rparr>)"
  define c2 where "c2 = c1\<lparr>buckets := (buckets c1)[bucket_of c1 k :=
      ll_append (buckets c1 ! bucket_of c1 k) (create_meta k n a sc)], num_values := num_values c1 + 1\<rparr>"
  have ins: "cache_insert c k val n a sc = Inr c2"
    using assms(6) by (simp add: cache_insert_def Let_def c1_def c2_def)
  have tab: "table_inv (c\<lparr>store := memcpy (store c) a (take n val)\<rparr>)"
    using assms(1) by (simp add: table_inv_def metas_def bucket_of_def)
  have "get_meta c1 k = None"
    using cache_map_map_table [OF only_timer_tick tab] assms(2)
    unfolding c1_def update_timers_def
    by (metis cache_map_None_iff cache_map_store_None)
  moreover have "bucket_of c1 k < length (buckets c1)"
    using bucket_of_bound [OF table_inv_map_table [OF only_timer_tick tab]]
    by (simp add: c1_def update_timers_def)
  ultimately have "get_meta c2 k = None"
    using full_key_str [OF assms(3-5)] meta_keys.find_snoc [of "buckets c1 ! bucket_of c1 k"]
    by (simp add: get_meta_def c2_def bucket_of_def meta_keys.find_None)
  with ins show ?thesis by blast
qed

theorem full_key_lost_witness:
  "\<exists>c'. cache_insert (create_cache 0 None) (replicate 32 CHR ''x'') ''v'' 1 16 64 = Inr c'
     \<and> get_meta c' (replicate 32 CHR ''x'') = None"
proof -
  have inv: "table_inv (create_cache 0 None)" using create_cache_spec(1) by (simp add: cache_inv_def)
  moreover have "get_meta (create_cache 0 None) (replicate 32 CHR ''x'') = None"
    unfolding get_meta_None_iff [OF inv] by (simp add: create_cache_def Let_def metas_def)
  moreover have "cstring_ok (replicate 32 CHR ''x'')" by (simp add: cstring_ok_def)
  ultimately show ?thesis by (intro full_key_lost) auto
qed

text \<open>
  Property C37. The size check of \<open>cache_set\<close> compares with the size of the whole slab
  structure, which is larger than the slab's array: a value in between is never stored, and if
  an entry is found for it, the copy runs past the end of the array.
\<close>

theorem oversized_value_overruns:
  assumes "cache_inv c" and "malloc_ok mal" and "malloc_total mal"
    and "request_accepted k val n" and "memory_size < n"
  shows "cache_set mal (Some c) k val n = Inl Out_Of_Bounds
    \<or> (\<exists>c'. cache_set mal (Some c) k val n = Inr (4, Some c'))"
proof -
  define c0 where "c0 = without k c"
  define sc where "sc = get_slab_class (slab_manager c0) n"
  note w = without_spec [OF assms(1), of k, folded c0_def]
  note unf = cache_set_unfold [OF assms(1,4), of mal, folded c0_def, unfolded Let_def, folded sc_def]
  have sc: "class_ok sc"
    using w(1) assms(5) by (simp add: sc_def get_slab_class_ok cache_inv_def memory_size_def)
  with assms(5) have ins: "cache_insert x k val n a sc = Inl Out_Of_Bounds" for x a
    by (simp add: cache_insert_def class_ok_def)
  obtain r1 c1 where f1: "free_space mal c0 sc = Inr (r1, c1)" and p1: "free_post c0 sc r1 c1"
    using free_space_no_fault [OF w(1) assms(2,3) sc] .
  then have "cache_inv (cache_evict c1 sc)"
    using cache_evict_spec(1) by (simp add: free_post_def)
  then obtain r2 c2 where f2: "free_space mal (cache_evict c1 sc) sc = Inr (r2, c2)"
    using free_space_no_fault assms(2,3) sc by blast
  show ?thesis
    by (cases r1; cases r2) (simp_all add: unf f1 f2 ins)
qed

theorem oversized_value_overruns_witness:
  "cache_set bump_malloc (Some (create_cache 0 None)) ''k'' (replicate memory_size CHR ''x'' @ [NUL])
     (Suc memory_size) = Inl Out_Of_Bounds
   \<or> (\<exists>c'. cache_set bump_malloc (Some (create_cache 0 None)) ''k'' (replicate memory_size CHR ''x'' @ [NUL])
     (Suc memory_size) = Inr (4, Some c'))"
proof (rule oversized_value_overruns)
  show "request_accepted ''k'' (replicate memory_size CHR ''x'' @ [NUL]) (Suc memory_size)"
    by (simp add: request_accepted_def get_slab_size_def nth_append)
qed (simp_all add: create_cache_spec bump_malloc_ok bump_malloc_total)

text \<open>
  No slab of the smallest class, 64 bytes, can be allocated: the loop that sets the last
  allocation bits writes behind the array. A cache that has none never gets one.
\<close>

definition no_small_slab :: "cache_obj \<Rightarrow> bool" where
  "no_small_slab c \<longleftrightarrow> list_all (\<lambda>s. sclass s \<noteq> 64) (slabs (slab_manager c))"

lemma no_small_slab_without:
  assumes inv: "cache_inv c" and "no_small_slab c"
  shows "no_small_slab (without k c)"
proof (cases "get_meta c k")
  case (Some m)
  have "table_inv c" "man_inv (slab_manager c)" using inv by (auto simp: cache_inv_def)
  have "address m \<in> live (slab_manager c)" using value_ok_get [OF inv Some] by (simp add: value_ok_def)
  note lay = layout_nth [OF man_delete_spec(2) [OF \<open>man_inv (slab_manager c)\<close> this, of "msize m"]]
  with assms(2) lay show ?thesis
    using Some removed_spec(3) [OF inv Some]
    by (simp add: no_small_slab_def without_def cache_delete_Some [OF \<open>table_inv c\<close>] list_all_length)
qed (use assms in \<open>simp add: without_def\<close>)

lemma no_small_slab_get_address:
  "no_small_slab c \<Longrightarrow> man_inv (slab_manager c) \<Longrightarrow>
   get_address (slab_manager c) 64 = (None, slab_manager c)"
  by (subst get_address.simps)
    (auto simp: get_slab_class_small get_slab_def no_small_slab_def list_all_length find_None_iff
      split: option.splits dest!: find_Some_mem)

lemma no_small_slab_evict:
  assumes inv: "cache_inv c" and "no_small_slab c"
  shows "cache_evict c 64 = c"
proof (cases "evict_candidate c 64")
  case None
  then show ?thesis by (rule cache_evict_None)
next
  case (Some m)
  then have m: "m \<in> set (metas c)" "slab_class m = 64"
    using evict_candidate_oldest [of c 64] by auto
  have man: "man_inv (slab_manager c)" using inv by (simp add: cache_inv_def)
  from m inv have v: "value_ok (slab_manager c) m" by (auto simp: cache_inv_def values_inv_def list_all_iff)
  then obtain si k where "si < length (slabs (slab_manager c))" "k < capacity (slabs (slab_manager c) ! si)"
    "address m = slot_addr (slabs (slab_manager c) ! si) k" by (auto simp: value_ok_def live_iff)
  with v m(2) assms(2) extent_slot [OF man] show ?thesis
    by (simp add: value_ok_def no_small_slab_def list_all_length)
qed

lemma free_space_small:
  assumes inv: "cache_inv c" and mal: "malloc_ok mal" "malloc_total mal" and small: "no_small_slab c"
  shows "free_space mal c 64 =
           (if get_slab_size < unat (maxmem c) - unat (csize c) then Inl Out_Of_Bounds else Inr (None, c))"
proof -
  have man: "man_inv (slab_manager c)" and cnt: "count_inv c" using inv by (auto simp: cache_inv_def)
  obtain b where b: "mal (slabs (slab_manager c)) = Some b" "length (status b) = 512"
    using mal unfolding malloc_ok_def malloc_total_def fresh_block_def by (metis not_None_eq)
  then have add: "slab_add mal (slab_manager c) 64 = Inl Out_Of_Bounds"
    by (simp add: slab_add_def allocate_slab_64)
  have big: "of_nat get_slab_size < maxmem c - ucast (csize c) \<longleftrightarrow>
      get_slab_size < unat (maxmem c) - unat (csize c)"
    unfolding word_less_nat_alt count_inv_room(1) [OF cnt] by (simp add: get_slab_size_def memory_size_def)
  show ?thesis
    using no_small_slab_get_address [OF small man] count_inv_less [OF cnt] add big
    by (simp add: free_space_def expand_cache_def)
qed

text \<open>
  Property C38. A value of at most 64 bytes, its NUL included, is never stored in a cache
  without slabs of class 64, which every new cache is: while there is memory for another slab
  the set writes past the end of the new slab's \<open>status\<close> array, and otherwise it is refused.
\<close>

theorem small_value_overruns:
  assumes "cache_inv c" and "malloc_ok mal" and "malloc_total mal" and "no_small_slab c"
    and "request_accepted k val n" and "n \<le> 64"
  shows "if get_slab_size < unat (maxmem c) - unat (csize c)
         then cache_set mal (Some c) k val n = Inl Out_Of_Bounds
         else \<exists>c'. cache_set mal (Some c) k val n = Inr (4, Some c')
                \<and> cache_map c' = (cache_map c)(k := None) \<and> no_small_slab c'"
proof -
  define c0 where "c0 = without k c"
  note w = without_spec [OF assms(1), of k, folded c0_def]
  note unf = cache_set_unfold [OF assms(1,5), of mal, folded c0_def, unfolded Let_def]
  note small = no_small_slab_without [OF assms(1,4), of k, folded c0_def]
  have "get_slab_class (slab_manager c0) n = 64"
    using w(1) assms(6) by (simp add: get_slab_class_small cache_inv_def)
  with unf free_space_small [OF w(1) assms(2,3) small] no_small_slab_evict [OF w(1) small] w small
  show ?thesis by simp
qed

theorem small_value_overruns_witness:
  "cache_set bump_malloc (Some (create_cache 0 None)) ''k'' (''v'' @ [NUL]) 2 = Inl Out_Of_Bounds"
proof -
  have "no_small_slab (create_cache 0 None)"
    by (simp add: no_small_slab_def create_cache_def Let_def initialize_def)
  moreover have "request_accepted ''k'' (''v'' @ [NUL]) 2"
    by (simp add: request_accepted_def get_slab_size_def memory_size_def)
  ultimately show ?thesis
    using small_value_overruns [OF create_cache_spec(1) bump_malloc_ok bump_malloc_total, of 0 None "''k''" "''v'' @ [NUL]" 2]
      create_room by simp
qed

text \<open>
  A cache created with exactly the size of a slab, which the message of
  \<open>create_cache\<close> calls sufficient, cannot store anything: \<open>expand_cache\<close> asks for strictly
  more than a slab. Every value that passes the checks is answered with code 4.
\<close>

theorem one_slab_cache_stores_nothing:
  assumes "request_accepted k val n"
  shows "cache_set mal (Some (create_cache (of_nat get_slab_size) h)) k val n =
           Inr (4, Some (create_cache (of_nat get_slab_size) h))"
proof -
  define c where "c = create_cache (of_nat get_slab_size) h"
  have c: "csize c = 0" "slab_manager c = initialize None" "buckets c = replicate 30 []"
    "maxmem c = of_nat get_slab_size"
    by (simp_all add: c_def create_cache_def Let_def get_slab_size_def memory_size_def)
  have inv: "cache_inv c" and "cache_map c = Map.empty"
    unfolding c_def by (rule create_cache_spec)+
  then have w: "without k c = c"
    by (metis cache_map_None_iff option.simps(4) without_def)
  have g: "get_address (initialize None) sc = (None, initialize None)" for sc
    by (subst get_address.simps) (simp add: get_slab_def initialize_def)
  have "c\<lparr>slab_manager := initialize None\<rparr> = c" using c(2) by (cases c) simp
  then have f: "free_space mal c sc = Inr (None, c)" for sc
    by (simp add: free_space_def c(1,2,4) g expand_cache_def Let_def)
  have "metas c = []" by (simp add: metas_def c)
  then have "evict_candidate c sc = None" for sc
    using evict_candidate_oldest [of c sc] by (cases "evict_candidate c sc") auto
  then have "cache_evict c sc = c" for sc by (rule cache_evict_None)
  with cache_set_unfold [OF inv assms, of mal] show ?thesis
    by (simp add: w f Let_def flip: c_def)
qed

theorem one_slab_cache_stores_nothing_witness:
  "cache_set bump_malloc (Some (create_cache (of_nat get_slab_size) None)) ''k'' (''v'' @ [NUL]) 2 =
     Inr (4, Some (create_cache (of_nat get_slab_size) None))"
  by (rule one_slab_cache_stores_nothing)
    (simp add: request_accepted_def get_slab_size_def memory_size_def)

section \<open>Resizing the table\<close>

lemma resize_copy_loop_Some:
  assumes "resize_copy_loop h n cur ks = Some r"
  shows "cur = []"
  by (rule resize_copy_loop.raw_induct [where P = "\<lambda>h n cur ks r. cur = []", OF _ assms])
    (fastforce simp: Let_def split: list.splits)

lemma resize_copy_Some: "resize_copy h n bs ks = Some r \<Longrightarrow> concat bs = []"
  by (induction h n bs ks rule: resize_copy.induct)
    (auto split: option.splits dest: resize_copy_loop_Some)

text \<open>
  Property C39. The copy loop of \<open>resize_keys\<close> does not advance: with at least one record in
  the table and a load factor that asks for a resize to ten or more buckets, it does not
  return.
\<close>

theorem resize_keys_diverges:
  assumes "metas c \<noteq> []"
    and "unat (num_values c) > num_buckets c \<and> 5 \<le> num_buckets c
         \<or> 4 * unat (num_values c) < num_buckets c \<and> 20 \<le> num_buckets c"
  shows "resize_keys c = None"
proof -
  have "resize_copy (hasher c) n (buckets c) ks = None" for n ks
    using assms(1) resize_copy_Some [of "hasher c" n "buckets c" ks] unfolding metas_def
    by (cases "resize_copy (hasher c) n (buckets c) ks") auto
  with assms(2) show ?thesis by (auto simp: resize_keys_def Let_def)
qed

definition one_record :: cache_obj where
  "one_record = (create_cache 0 None)\<lparr>buckets := [create_meta ''k'' 2 16 64] # replicate 29 [], num_values := 1\<rparr>"

theorem resize_keys_diverges_witness: "resize_keys one_record = None"
  by (rule resize_keys_diverges) (simp_all add: one_record_def metas_def create_cache_def Let_def)

end
