(* ===== verification/Clib.thy ===== *)
theory Clib
  imports Prelude
begin

text \<open>
  The parts of the C library that the server, the client and the workload generator use on
  strings: decimal output of \<open>printf\<close>, \<open>atoi\<close>, and the conversions of \<open>sscanf\<close>.
\<close>

section \<open>Decimal output\<close>

definition digit :: "nat \<Rightarrow> byte" where
  "digit d = char_of (48 + d)"

text \<open>\<open>%u\<close>, \<open>%lu\<close>, \<open>%i\<close> of a number that is not negative.\<close>

fun decimal :: "nat \<Rightarrow> cstring" where
  "decimal n = (if n < 10 then [digit n] else decimal (n div 10) @ [digit (n mod 10)])"

declare decimal.simps [simp del]

definition digit_value :: "byte \<Rightarrow> nat option" where
  "digit_value c = (let x = of_char c in if 48 \<le> x \<and> x < 58 then Some (x - 48) else None)"

lemma of_char_digit: "d < 10 \<Longrightarrow> of_char (digit d) = (48 + d :: nat)"
  by (simp add: digit_def)

lemma digit_value_digit: "d < 10 \<Longrightarrow> digit_value (digit d) = Some d"
  by (simp add: digit_value_def of_char_digit)

lemma decimal_nonempty [simp]: "decimal n \<noteq> []"
  by (subst decimal.simps) simp

lemma digit_neq: "d < 10 \<Longrightarrow> of_char c < (48 :: nat) \<Longrightarrow> digit d \<noteq> c"
  using of_char_digit by fastforce

lemma decimal_digits: "c \<in> set (decimal n) \<Longrightarrow> \<exists>d < 10. c = digit d"
proof (induction n rule: decimal.induct)
  case (1 n)
  have "\<exists>d < 10. digit (n mod 10) = digit d" by (rule exI [of _ "n mod 10"]) simp
  with 1 show ?case
    by (subst (asm) (2) decimal.simps) (auto split: if_splits)
qed

lemma cstring_ok_decimal [simp]: "cstring_ok (decimal n)"
proof -
  have "NUL \<noteq> digit d" if "d < 10" for d using digit_neq [OF that, of NUL] by auto
  with decimal_digits show ?thesis unfolding cstring_ok_def by blast
qed

lemma length_decimal_le: "n < 10 ^ k \<Longrightarrow> 0 < k \<Longrightarrow> length (decimal n) \<le> k"
proof (induction n arbitrary: k rule: decimal.induct)
  case (1 n)
  show ?case
  proof (cases "n < 10")
    case True
    with 1 show ?thesis by (subst decimal.simps) simp
  next
    case False
    obtain j where j: "k = Suc j" using "1.prems" by (cases k) auto
    with False "1.prems" have "0 < j" by (cases j) auto
    moreover have "n div 10 < 10 ^ j" using "1.prems" j by (simp add: less_mult_imp_div_less)
    ultimately have "length (decimal (n div 10)) \<le> j" using "1.IH" [OF False] by simp
    with False j show ?thesis by (subst decimal.simps) simp
  qed
qed

lemma length_decimal_ge: "10 ^ k \<le> n \<Longrightarrow> k < length (decimal n)"
proof (induction n arbitrary: k rule: decimal.induct)
  case (1 n)
  show ?case
  proof (cases "n < 10")
    case True
    with "1.prems" have "(10 :: nat) ^ k < 10 ^ 1" by simp
    then have "k < 1" by (rule power_less_imp_less_exp [rotated]) simp
    then show ?thesis by simp
  next
    case False
    have "k - 1 < length (decimal (n div 10))"
      using "1.prems" False by (intro "1.IH") (cases k; simp add: less_eq_div_iff_mult_less_eq)+
    with False show ?thesis by (subst decimal.simps) simp
  qed
qed

text \<open>The decimal text of a 64-bit number has at most 20 characters.\<close>

lemma length_decimal_u64: "length (decimal (unat (x :: u64))) \<le> 20"
proof -
  have "unat x < 10 ^ 20" using unsigned_less [of x] by (rule less_trans) simp
  then show ?thesis by (rule length_decimal_le) simp
qed

section \<open>Reading numbers\<close>

definition isspace :: "byte \<Rightarrow> bool" where
  "isspace c \<longleftrightarrow> c = CHR '' '' \<or> of_char c \<in> {9 :: nat .. 13}"

fun read_digits :: "nat \<Rightarrow> byte list \<Rightarrow> nat" where
  "read_digits acc [] = acc"
| "read_digits acc (c # cs) =
     (case digit_value c of None \<Rightarrow> acc | Some d \<Rightarrow> read_digits (10 * acc + d) cs)"

text \<open>\<open>strtol\<close> with base 10: white space, a sign, digits; it saturates at the limits of \<open>long\<close>.\<close>

definition strtol :: "cstring \<Rightarrow> int" where
  "strtol s =
     (let r = dropWhile isspace s;
          v = (case r of
                 [] \<Rightarrow> 0
               | c # cs \<Rightarrow>
                   if c = CHR ''-'' then - int (read_digits 0 cs)
                   else if c = CHR ''+'' then int (read_digits 0 cs)
                   else int (read_digits 0 r))
      in max (- (2 ^ 63)) (min (2 ^ 63 - 1) v))"

text \<open>\<open>atoi\<close> is \<open>(int) strtol\<close>: the low 32 bits, read as a signed number.\<close>

definition atoi :: "cstring \<Rightarrow> int" where
  "atoi s = sint (word_of_int (strtol s) :: u32)"

text \<open>An \<open>int\<close> converted to \<open>uint64_t\<close>.\<close>

definition u64_of_int :: "int \<Rightarrow> u64" where
  "u64_of_int x = word_of_int x"

lemma read_digits_append:
  "\<forall>c \<in> set xs. digit_value c \<noteq> None \<Longrightarrow> read_digits a (xs @ ys) = read_digits (read_digits a xs) ys"
  by (induction xs arbitrary: a) auto

lemma decimal_digit_values: "c \<in> set (decimal n) \<Longrightarrow> digit_value c \<noteq> None"
  using decimal_digits digit_value_digit by fastforce

lemma read_digits_decimal: "read_digits 0 (decimal n) = n"
proof (induction n rule: decimal.induct)
  case (1 n)
  show ?case
  proof (cases "n < 10")
    case True
    then show ?thesis by (subst decimal.simps) (simp add: digit_value_digit)
  next
    case False
    then show ?thesis
      using "1.IH" decimal_digit_values
      by (subst decimal.simps) (simp add: read_digits_append digit_value_digit)
  qed
qed

lemma strtol_decimal: "n < 2 ^ 63 \<Longrightarrow> strtol (decimal n) = int n"
proof -
  assume n: "n < 2 ^ 63"
  obtain c cs where d: "decimal n = c # cs" by (cases "decimal n") auto
  then have "\<exists>i < 10. c = digit i" using decimal_digits [of c n] by simp
  then have "\<not> isspace c \<and> c \<noteq> CHR ''-'' \<and> c \<noteq> CHR ''+''"
    using digit_neq [of _ "CHR ''-''"] digit_neq [of _ "CHR ''+''"] digit_neq [of _ "CHR '' ''"]
    by (auto simp: isspace_def of_char_digit)
  with d n read_digits_decimal [of n] show ?thesis
    by (simp add: strtol_def)
qed

lemma atoi_decimal: "n < 2 ^ 31 \<Longrightarrow> atoi (decimal n) = int n"
  using strtol_decimal [of n] by (simp add: atoi_def signed_of_nat signed_take_bit_int_eq_self)

section \<open>sscanf\<close>

text \<open>
  \<open>%s\<close>: white space is skipped, then the longest run of other characters is read, with at
  least one. The result is what was read and what is left.
\<close>

definition scan_word :: "cstring \<Rightarrow> (cstring \<times> cstring) option" where
  "scan_word s =
     (let r = dropWhile isspace s;
          w = takeWhile (\<lambda>c. \<not> isspace c) r
      in if w = [] then None else Some (w, dropWhile (\<lambda>c. \<not> isspace c) r))"

text \<open>\<open>%[^c]\<close>: the longest run of characters other than \<open>c\<close>, with at least one.\<close>

definition scan_until :: "byte \<Rightarrow> cstring \<Rightarrow> (cstring \<times> cstring) option" where
  "scan_until c s =
     (let w = takeWhile (\<lambda>x. x \<noteq> c) s
      in if w = [] then None else Some (w, dropWhile (\<lambda>x. x \<noteq> c) s))"

lemma scan_word_space:
  assumes "w \<noteq> []" and "list_all (\<lambda>c. \<not> isspace c) w"
  shows "scan_word (w @ CHR '' '' # r) = Some (w, CHR '' '' # r)"
proof -
  obtain c cs where w: "w = c # cs" using assms(1) by (cases w) auto
  with assms(2) have "\<not> isspace c" by simp
  then have "dropWhile isspace (w @ CHR '' '' # r) = w @ CHR '' '' # r" by (simp add: w)
  moreover have "takeWhile (\<lambda>c. \<not> isspace c) (w @ CHR '' '' # r) = w"
    "dropWhile (\<lambda>c. \<not> isspace c) (w @ CHR '' '' # r) = CHR '' '' # r"
    using assms(2) by (simp_all add: takeWhile_append dropWhile_append list_all_iff isspace_def)
  ultimately show ?thesis using assms(1) by (simp add: scan_word_def)
qed

lemma scan_until_end: "c \<notin> set w \<Longrightarrow> w \<noteq> [] \<Longrightarrow> scan_until c w = Some (w, [])"
proof -
  assume c: "c \<notin> set w" and w: "w \<noteq> []"
  from c have "takeWhile (\<lambda>x. x \<noteq> c) w = w" "dropWhile (\<lambda>x. x \<noteq> c) w = []"
    by (auto simp: takeWhile_eq_all_conv)
  with w show ?thesis unfolding scan_until_def Let_def by metis
qed

lemma scan_until_found:
  "c \<notin> set w \<Longrightarrow> w \<noteq> [] \<Longrightarrow> scan_until c (w @ c # r) = Some (w, c # r)"
  by (auto simp: scan_until_def takeWhile_append dropWhile_append)

end
