(* ===== verification/Server.thy ===== *)
theory Server
  imports Cache_Kv Clib
begin

text \<open>
  The server of \<open>server.c\<close>: parsing a request, calling the cache, formatting the reply. The
  socket library is outside this theory: a message comes in as a list of bytes, and what is
  handed to \<open>nn_send\<close> is recorded.
\<close>

section \<open>State\<close>

text \<open>
  The globals \<open>global_cache\<close>, \<open>global_sock\<close> and \<open>cache_has_been_set\<close>, and the messages
  that were passed to \<open>nn_send\<close> with the socket they were sent on.
\<close>

record server =
  global_cache :: cache_t
  global_sock :: int
  cache_has_been_set :: u8
  sent :: "(int \<times> byte list) list"

text \<open>
  \<open>req_value\<close> are the bytes from the pointer \<open>value\<close> on.
\<close>

record request_obj =
  buf :: "byte list"
  request_type :: u8
  req_key :: cstring
  req_value :: "byte list"
  req_size :: nat

section \<open>Replies\<close>

definition crlf :: cstring where
  "crlf = [CHR 0x0D, CHR 0x0A]"

definition quoted :: "cstring \<Rightarrow> cstring" where
  "quoted s = CHR 0x22 # s @ [CHR 0x22]"

definition reply_text :: "cstring \<Rightarrow> nat \<Rightarrow> cstring \<Rightarrow> cstring" where
  "reply_text head_line used body =
     ''HTTP/1.1 '' @ head_line @ crlf
     @ ''Content-Type: application/json'' @ crlf
     @ ''Date: Date goes here'' @ crlf
     @ ''cache-space-used: '' @ decimal used @ crlf
     @ crlf
     @ body @ [CHR 0x0A]"

text \<open>
  \<open>cache_reply\<close> sends the whole array \<open>msg\<close>: the text, its NUL, and behind it the bytes that
  the stack happened to hold, given by \<open>junk\<close>.
\<close>

definition cache_reply :: "(nat \<Rightarrow> byte) \<Rightarrow> server \<Rightarrow> cstring \<Rightarrow> cstring \<Rightarrow> server c_result" where
  "cache_reply junk s head_line body =
     (let msg_len = strlen head_line + strlen body + 256;
          text = reply_text head_line (unat (cache_space_used (global_cache s))) body
      in if msg_len < length text + 1 then Inl Out_Of_Bounds
         else Inr (s\<lparr>sent := sent s @
                     [(global_sock s, text @ NUL # map junk [length text + 1..<msg_len])]\<rparr>))"

definition get_body :: "cstring \<Rightarrow> cstring \<Rightarrow> cstring" where
  "get_body k v =
     ''{ '' @ quoted ''key'' @ '' : '' @ quoted k @ '', '' @ quoted ''value'' @ '' : '' @ quoted v @ '' }''"

text \<open>
  \<open>cache_get\<close> writes the size through a pointer to a 32-bit integer, that is, into the low
  half of \<open>req->size\<close>.
\<close>

definition take_get_request :: "(nat \<Rightarrow> byte) \<Rightarrow> server \<Rightarrow> request_obj \<Rightarrow> server c_result" where
  "take_get_request junk s req =
     (case cache_get (global_cache s) (req_key req) of
        Inl f \<Rightarrow> Inl f
      | Inr ((val, sz), c) \<Rightarrow>
          (let s = s\<lparr>global_cache := c\<rparr>;
               rsize = (case sz of None \<Rightarrow> req_size req | Some n \<Rightarrow> req_size req div 2 ^ 32 * 2 ^ 32 + n)
           in case val of
                None \<Rightarrow> cache_reply junk s ''204 No Content'' ''Value not found in cache.''
              | Some a \<Rightarrow>
                  (let msg = get_body (req_key req) (cstr (load (store (the c)) a (the sz)))
                   in if rsize + strlen (req_key req) + 32 < length msg + 1 then Inl Out_Of_Bounds
                      else cache_reply junk s ''200 OK'' msg)))"

definition take_head_request :: "(nat \<Rightarrow> byte) \<Rightarrow> server \<Rightarrow> server c_result" where
  "take_head_request junk s = cache_reply junk s ''200 OK'' []"

section \<open>Handling a request\<close>

definition not_created :: cstring where
  "not_created =
     ''Cache was not created because '' @ quoted ''cache_has_been_set'' @
     '' was true. Make sure you've destroyed all previous caches'' @ [CHR 0x0A]"

definition shutdown_failed :: cstring where
  "shutdown_failed = ''Shutdown failed; cache was not destroyed. Aborting server.'' @ [CHR 0x0A]"

definition post_usage :: cstring where
  "post_usage = ''Usage: POST /shutdown || POST /memsize/value'' @ [CHR 0x0A]"

definition delete_failed :: "cstring \<Rightarrow> cstring" where
  "delete_failed k = ''Delete of key '' @ k @ '' failed for some reason.'' @ [CHR 0x0A]"

definition handle_request ::
  "(slab list \<Rightarrow> slab option) \<Rightarrow> (nat \<Rightarrow> byte) \<Rightarrow> server \<Rightarrow> request_obj \<Rightarrow> server c_result" where
  "handle_request mal junk s req =
     (if request_type req = 4 then
        (if req_key req = ''memsize'' then
           (if cache_has_been_set s = 0 then
              cache_reply junk
                (s\<lparr>global_cache := Some (create_cache (u64_of_int (atoi (cstr (req_value req)))) None)\<rparr>)
                ''201 Created'' []
            else cache_reply junk s ''500 Internal Server Error'' not_created)
         else if req_key req = ''shutdown'' then
           (let failure = fst (destroy_cache (global_cache s));
                s = s\<lparr>global_cache := None, cache_has_been_set := 0\<rparr>
            in if failure = 0 then cache_reply junk s ''204 No Content'' []
               else case cache_reply junk s ''500 Internal Server Error'' shutdown_failed of
                      Inl f \<Rightarrow> Inl f
                    | Inr s \<Rightarrow> Inl (Process_Exit (-1)))
         else cache_reply junk s ''400 Bad Request'' post_usage)
      else if request_type req = 1 then
        (case cache_delete (global_cache s) (req_key req) of
           (failure, c) \<Rightarrow>
             (let s = s\<lparr>global_cache := c\<rparr>
              in if failure = 0 then cache_reply junk s ''204 No Content'' []
                 else if strlen (req_key req) + 64 < length (delete_failed (req_key req)) + 1
                 then Inl Out_Of_Bounds
                 else cache_reply junk s ''500 Internal Server Error'' (delete_failed (req_key req))))
      else if request_type req = 2 then take_get_request junk s req
      else if request_type req = 5 then
        (case cache_set mal (global_cache s) (req_key req) (req_value req) (req_size req) of
           Inl f \<Rightarrow> Inl f
         | Inr (failure, c) \<Rightarrow>
             (let s = s\<lparr>global_cache := c\<rparr>
              in if failure = 0
                 then cache_reply junk (s\<lparr>cache_has_been_set := 1\<rparr>) ''204 No Content'' []
                 else cache_reply junk s ''500 Internal Server Error'' []))
      else if request_type req = 3 then take_head_request junk s
      else cache_reply junk s ''400 Bad Request'' [])"

section \<open>Parsing a request\<close>

text \<open>
  \<open>sscanf(buf, "%s /%[^/]/", request_string, req->key)\<close>: the two strings, \<open>None\<close> where the
  conversion does not happen and the array keeps its indeterminate contents.
\<close>

definition sscanf_request :: "cstring \<Rightarrow> cstring option \<times> cstring option" where
  "sscanf_request s =
     (case scan_word s of
        None \<Rightarrow> (None, None)
      | Some (w, r) \<Rightarrow>
          (Some w,
           case dropWhile isspace r of
             [] \<Rightarrow> None
           | c # r' \<Rightarrow> if c = CHR ''/'' then map_option fst (scan_until (CHR ''/'') r') else None))"

definition type_of_request :: "cstring \<Rightarrow> u8" where
  "type_of_request w =
     (if w = ''DELETE'' then 1
      else if w = ''GET'' then 2
      else if w = ''HEAD'' then 3
      else if w = ''POST'' then 4
      else if w = ''PUT'' then 5
      else 0)"

text \<open>
  \<open>behind\<close> is the memory that follows the message: for a request without a second slash,
  \<open>value\<close> points one byte past the message's NUL. The arrays \<open>request_string\<close> and \<open>key\<close>
  have 16 and 200 bytes.
\<close>

definition parse_request :: "byte list \<Rightarrow> byte list \<Rightarrow> request_obj c_result" where
  "parse_request behind msg =
     (if NUL \<notin> set msg then Inl Out_Of_Bounds
      else
        case sscanf_request (cstr msg) of
          (Some w, Some k) \<Rightarrow>
            (let val = drop (strlen w + strlen k + 3) (msg @ behind)
             in if 16 \<le> strlen w \<or> 200 \<le> strlen k \<or> NUL \<notin> set val then Inl Out_Of_Bounds
                else Inr \<lparr>buf = msg, request_type = type_of_request w, req_key = k,
                          req_value = val, req_size = strlen (cstr val) + 1\<rparr>)
        | (Some w, None) \<Rightarrow> if 16 \<le> strlen w then Inl Out_Of_Bounds else Inl Uninitialised
        | (None, _) \<Rightarrow> Inl Uninitialised)"

section \<open>The server loop\<close>

text \<open>
  \<open>recv\<close>: \<open>None\<close> is a failed \<open>nn_recv\<close>, which every branch of its switch ignores. What a
  call of \<open>nn_recv\<close> delivers comes with the memory behind the message and the bytes on the
  stack of the reply.
\<close>

record delivery =
  message :: "byte list"
  behind :: "byte list"
  stack_junk :: "nat \<Rightarrow> byte"

definition recv :: "(slab list \<Rightarrow> slab option) \<Rightarrow> server \<Rightarrow> delivery option \<Rightarrow> server c_result" where
  "recv mal s result =
     (case result of
        None \<Rightarrow> Inr s
      | Some d \<Rightarrow>
          (case parse_request (behind d) (message d) of
             Inl f \<Rightarrow> Inl f
           | Inr req \<Rightarrow> handle_request mal (stack_junk d) s req))"

text \<open>The endless loop of \<open>send_recv\<close>, over the results of the successive calls of \<open>nn_recv\<close>.\<close>

fun recv_loop ::
  "(slab list \<Rightarrow> slab option) \<Rightarrow> server \<Rightarrow> delivery option list \<Rightarrow> server c_result" where
  "recv_loop mal s [] = Inr s"
| "recv_loop mal s (d # ds) =
     (case recv mal s d of Inl f \<Rightarrow> Inl f | Inr s \<Rightarrow> recv_loop mal s ds)"

text \<open>
  The socket library as \<open>send_recv\<close> sees it: the socket that \<open>nn_socket\<close> returns, the results
  of \<open>nn_bind\<close> for an address and of \<open>nn_setsockopt\<close> for the receive timeout, and what the
  calls of \<open>nn_recv\<close> on a socket deliver.
\<close>

record socket_lib =
  lib_socket :: int
  lib_bind :: "int \<Rightarrow> cstring \<Rightarrow> int"
  lib_setsockopt :: "int \<Rightarrow> int \<Rightarrow> int"
  lib_recv :: "int \<Rightarrow> delivery option list"

text \<open>
  \<open>send_recv\<close> keeps its socket in a local variable; replies go to \<open>global_sock\<close>, which no
  code assigns.
\<close>

definition send_recv ::
  "(slab list \<Rightarrow> slab option) \<Rightarrow> socket_lib \<Rightarrow> server \<Rightarrow> cstring \<Rightarrow> server c_result" where
  "send_recv mal lib s url =
     (let sock = lib_socket lib
      in if sock < 0 then Inl Assertion
         else if lib_bind lib sock url < 0 then Inl Assertion
         else if lib_setsockopt lib sock 100 < 0 then Inl Assertion
         else recv_loop mal s (lib_recv lib sock))"

section \<open>Starting the server\<close>

text \<open>
  The argument loop of \<open>main\<close>: the port, if there is one, and the memory limit; \<open>Inr None\<close> is
  the early \<open>return -1\<close>. \<open>argv[argc]\<close> is NULL.
\<close>

fun main_args ::
  "cstring list \<Rightarrow> cstring option \<Rightarrow> u64 \<Rightarrow> (cstring option \<times> u64) option c_result" where
  "main_args [] port mm = Inr (Some (port, mm))"
| "main_args (arg # rest) port mm =
     (if arg = ''-t'' then
        (case rest of
           [] \<Rightarrow> Inl Null_Pointer
         | p # _ \<Rightarrow> if strlen p > 5 then Inr None else main_args rest (Some p) mm)
      else if arg = ''-m'' then
        (case rest of
           [] \<Rightarrow> Inl Null_Pointer
         | m # _ \<Rightarrow> main_args rest port (u64_of_int (atoi m)))
      else main_args rest port mm)"

text \<open>The address to bind and the state in which \<open>send_recv\<close> is entered.\<close>

definition server_main :: "cstring list \<Rightarrow> (cstring \<times> server) option c_result" where
  "server_main argv =
     (case main_args argv None 0 of
        Inl f \<Rightarrow> Inl f
      | Inr None \<Rightarrow> Inr None
      | Inr (Some (port, mm)) \<Rightarrow>
          (let port = (case port of None \<Rightarrow> ''50000'' | Some p \<Rightarrow> p);
               mm = (if mm = 0 then 2 ^ 26 else mm);
               addr = ''tcp://0.0.0.0:'' @ port
           in if 64 < length addr + 1 then Inl Out_Of_Bounds
              else Inr (Some (addr,
                \<lparr>global_cache = Some (create_cache mm None), global_sock = 0,
                 cache_has_been_set = 0, sent = []\<rparr>))))"

end
