(* ===== verification/Client.thy ===== *)
theory Client
  imports Clib Cache_Kv
begin

text \<open>
  The client library of \<open>client.c\<close>, which has the interface of \<open>cache.h\<close> and turns its calls
  into messages. The results of the socket calls are arguments.
\<close>

definition buffer_size :: nat where
  "buffer_size = 1048576"

text \<open>The client's \<open>struct cache_obj\<close>, with the messages handed to \<open>nn_send\<close> so far.\<close>

record client =
  sock :: int
  buffer :: "byte list"
  out :: "byte list list"

text \<open>\<open>sprintf\<close> into the buffer: the text and its NUL overwrite the start.\<close>

definition buffer_printf :: "client \<Rightarrow> cstring \<Rightarrow> client c_result" where
  "buffer_printf c text =
     (if buffer_size < strlen text + 1 then Inl Out_Of_Bounds
      else Inr (c\<lparr>buffer := text @ NUL # drop (strlen text + 1) (buffer c)\<rparr>))"

datatype errno = EBADF | ENOTSUP | EFSM | EAGAIN | EINTR | ETIMEDOUT | ETERM | Other_Errno

text \<open>
  \<open>cache_recv\<close>: \<open>result\<close> is what \<open>nn_recv\<close> returned. An error outside the switch falls
  through to the final \<open>return 1\<close>.
\<close>

definition cache_recv :: "int \<Rightarrow> errno \<Rightarrow> int" where
  "cache_recv result errno =
     (if result < 0 \<and> errno = EAGAIN then 0
      else if result < 0 \<and> errno \<in> {EBADF, ENOTSUP, EFSM, EINTR, ETIMEDOUT, ETERM} then 0
      else 1)"

text \<open>\<open>cache_send\<close>: \<open>nn_send\<close> maps the message to the result of the call.\<close>

definition cache_send :: "(byte list \<Rightarrow> int) \<Rightarrow> client \<Rightarrow> client c_result" where
  "cache_send nn_send c =
     (let msg = cstr (buffer c) @ [NUL]
      in if nn_send msg > 0 then Inr (c\<lparr>out := out c @ [msg]\<rparr>) else Inl Assertion)"

definition client_get :: "(byte list \<Rightarrow> int) \<Rightarrow> client \<Rightarrow> cstring \<Rightarrow> client c_result" where
  "client_get nn_send c k =
     (case buffer_printf c (''GET /'' @ k) of
        Inl f \<Rightarrow> Inl f
      | Inr c \<Rightarrow> cache_send nn_send c)"

definition client_set ::
  "(byte list \<Rightarrow> int) \<Rightarrow> client \<Rightarrow> cstring \<Rightarrow> byte list \<Rightarrow> nat \<Rightarrow> (u8 \<times> client) c_result" where
  "client_set nn_send c k val sz =
     (if sz = 0 \<or> length val < sz then Inl Out_Of_Bounds
      else if val ! (sz - 1) \<noteq> NUL then Inl Assertion
      else
        case buffer_printf c (''PUT /'' @ k @ ''/'' @ cstr val) of
          Inl f \<Rightarrow> Inl f
        | Inr c \<Rightarrow> map_sum id (Pair 0) (cache_send nn_send c))"

text \<open>
  \<open>create_cache\<close> of the client: \<open>raw\<close> is the allocated object with its indeterminate buffer,
  \<open>sk\<close> and \<open>connected\<close> are the results of \<open>nn_socket\<close> and \<open>nn_connect\<close>.
\<close>

definition client_create ::
  "(byte list \<Rightarrow> int) \<Rightarrow> int \<Rightarrow> int \<Rightarrow> client \<Rightarrow> u64 \<Rightarrow> client c_result" where
  "client_create nn_send sk connected raw mm =
     (let c = raw\<lparr>sock := sk\<rparr>
      in if sk < 0 then Inl Assertion
         else if connected < 0 then Inl Assertion
         else if 0 < mm then
           (case buffer_printf c (''POST /memsize/'' @ decimal (unat mm)) of
              Inl f \<Rightarrow> Inl f
            | Inr c \<Rightarrow> cache_send nn_send c)
         else Inr c)"

section \<open>What the calls send\<close>

lemma cache_send_printf:
  assumes "cstring_ok text"
  shows "(case buffer_printf c text of Inl f \<Rightarrow> Inl f | Inr c \<Rightarrow> cache_send nn_send c) =
           (if buffer_size < length text + 1 then Inl Out_Of_Bounds
            else if nn_send (text @ [NUL]) > 0
            then Inr (c\<lparr>buffer := text @ NUL # drop (length text + 1) (buffer c),
                        out := out c @ [text @ [NUL]]\<rparr>)
            else Inl Assertion)"
  using assms by (simp add: buffer_printf_def cache_send_def strlen_def)

lemma client_get_sends:
  assumes "cstring_ok k" and "length k + 6 \<le> buffer_size" and "nn_send (''GET /'' @ k @ [NUL]) > 0"
  shows "\<exists>c'. client_get nn_send c k = Inr c' \<and> out c' = out c @ [''GET /'' @ k @ [NUL]]"
  using assms cache_send_printf [of "''GET /'' @ k", where c = c and nn_send = nn_send]
  by (simp add: client_get_def)

lemma client_set_text:
  assumes "0 < sz" and "sz \<le> length val" and "val ! (sz - 1) = NUL" and "cstring_ok k"
    and line: "line = ''PUT /'' @ k @ ''/'' @ cstr val"
  shows "client_set nn_send c k val sz =
    (if buffer_size < length k + length (cstr val) + 7 then Inl Out_Of_Bounds
     else if nn_send (line @ [NUL]) > 0
     then Inr (0, c\<lparr>buffer := line @ NUL # drop (length line + 1) (buffer c), out := out c @ [line @ [NUL]]\<rparr>)
     else Inl Assertion)"
proof -
  have ok: "cstring_ok line" and len: "length line + 1 = length k + length (cstr val) + 7"
    using assms(4) by (simp_all add: line)
  have "client_set nn_send c k val sz =
      map_sum id (Pair 0) (case buffer_printf c line of Inl f \<Rightarrow> Inl f | Inr c \<Rightarrow> cache_send nn_send c)"
    using assms(1-3) by (simp add: client_set_def line split: sum.splits)
  then show ?thesis
    unfolding cache_send_printf [OF ok] len by simp
qed

lemma client_set_sends:
  assumes "cstring_ok k" and "cstring_ok v" and "length k + length v + 7 \<le> buffer_size"
    and "nn_send (''PUT /'' @ k @ ''/'' @ v @ [NUL]) > 0"
  shows "\<exists>c'. client_set nn_send c k (v @ [NUL]) (length v + 1) = Inr (0, c')
           \<and> out c' = out c @ [''PUT /'' @ k @ ''/'' @ v @ [NUL]]"
proof -
  have "cstr (v @ [NUL]) = v" using assms(2) by simp
  with assms client_set_text [of "length v + 1" "v @ [NUL]" k _ nn_send c, OF _ _ _ _ refl] show ?thesis
    by simp
qed

end
