(* ===== verification/Server_Correct.thy ===== *)
theory Server_Correct
  imports Server Client
begin

text \<open>
  The server against the contract of the cache: parsing undoes the client's formatting, every
  reply fits its buffer, and a sequence of requests is answered the way the key-value contract
  demands.
\<close>

section \<open>Parsing\<close>

definition key_ok :: "cstring \<Rightarrow> bool" where
  "key_ok k \<longleftrightarrow> k \<noteq> [] \<and> CHR ''/'' \<notin> set k \<and> cstring_ok k \<and> length k < 200"

definition method_ok :: "cstring \<Rightarrow> bool" where
  "method_ok w \<longleftrightarrow> w \<noteq> [] \<and> list_all (\<lambda>c. \<not> isspace c) w \<and> cstring_ok w \<and> length w < 16"

lemma sscanf_key:
  assumes "method_ok w" and "k \<noteq> []" and "CHR ''/'' \<notin> set k"
  shows "sscanf_request (w @ '' /'' @ k) = (Some w, Some k)"
    and "sscanf_request (w @ '' /'' @ k @ ''/'' @ v) = (Some w, Some k)"
  using assms scan_word_space [of w "CHR ''/'' # k"] scan_word_space [of w "CHR ''/'' # k @ CHR ''/'' # v"]
    scan_until_end [of "CHR ''/''" k] scan_until_found [of "CHR ''/''" k v]
  by (simp_all add: sscanf_request_def method_ok_def isspace_def)

lemma sscanf_no_key:
  assumes "method_ok w"
  shows "sscanf_request (w @ '' /'' @ ''/'' @ v) = (Some w, None)"
  using assms scan_word_space [of w "CHR ''/'' # CHR ''/'' # v"]
  by (simp add: sscanf_request_def method_ok_def isspace_def scan_until_def)

text \<open>The offset that \<open>parse_request\<close> computes is that of the byte after the key's delimiter.\<close>

lemma value_offset: "drop (length w + length k + 3) (w @ '' /'' @ k @ c # r) = r"
proof -
  have "length w + length k + 3 = length (w @ '' /'' @ k @ [c])" by simp
  then show ?thesis by (metis append_Cons append_Nil append_assoc append_eq_conv_conj)
qed

lemma parse_split:
  assumes "method_ok w" and "k \<noteq> []" and "CHR ''/'' \<notin> set k" and "cstring_ok k" and "cstring_ok v"
  shows "parse_request rest (w @ '' /'' @ k @ ''/'' @ v @ [NUL]) =
           (if 200 \<le> length k then Inl Out_Of_Bounds
            else Inr \<lparr>buf = w @ '' /'' @ k @ ''/'' @ v @ [NUL], request_type = type_of_request w, req_key = k,
                      req_value = v @ NUL # rest, req_size = length v + 1\<rparr>)"
proof -
  let ?text = "w @ '' /'' @ k @ ''/'' @ v"
  have "cstring_ok ?text" using assms by (simp add: method_ok_def)
  then have "cstr (?text @ [NUL]) = ?text" by (rule cstr_terminated)
  then show ?thesis
    using sscanf_key(2) [OF assms(1-3), of v] value_offset [of w k "CHR ''/''" "v @ NUL # rest"] assms
    by (simp add: parse_request_def strlen_def method_ok_def Let_def del: drop_append)
qed

lemma parse_key_value:
  assumes "method_ok w" and "key_ok k" and "cstring_ok v"
  shows "parse_request rest (w @ '' /'' @ k @ ''/'' @ v @ [NUL]) =
           Inr \<lparr>buf = w @ '' /'' @ k @ ''/'' @ v @ [NUL], request_type = type_of_request w, req_key = k,
                req_value = v @ NUL # rest, req_size = length v + 1\<rparr>"
  using parse_split [OF assms(1), of k v rest] assms(2,3) by (simp add: key_ok_def)

lemma parse_no_key:
  assumes "method_ok w" and "cstring_ok v"
  shows "parse_request rest (w @ '' /'' @ ''/'' @ v @ [NUL]) = Inl Uninitialised"
proof -
  let ?text = "w @ '' /'' @ ''/'' @ v"
  have "cstring_ok ?text" using assms by (simp add: method_ok_def)
  then have "cstr (?text @ [NUL]) = ?text" by (rule cstr_terminated)
  then show ?thesis
    using sscanf_no_key [OF assms(1), of v] assms
    by (simp add: parse_request_def strlen_def method_ok_def)
qed

lemma parse_key:
  assumes "method_ok w" and "key_ok k"
  shows "parse_request rest (w @ '' /'' @ k @ [NUL]) =
           (if NUL \<in> set rest
            then Inr \<lparr>buf = w @ '' /'' @ k @ [NUL], request_type = type_of_request w, req_key = k,
                      req_value = rest, req_size = length (cstr rest) + 1\<rparr>
            else Inl Out_Of_Bounds)"
proof -
  let ?text = "w @ '' /'' @ k"
  have "cstring_ok ?text" using assms by (simp add: method_ok_def key_ok_def)
  then have "cstr (?text @ [NUL]) = ?text" by (rule cstr_terminated)
  then show ?thesis
    using sscanf_key(1) [OF assms(1), of k] value_offset [of w k NUL rest] assms
    by (simp add: parse_request_def strlen_def method_ok_def key_ok_def Let_def del: drop_append)
qed

section \<open>Replies\<close>

definition reply_message :: "(nat \<Rightarrow> byte) \<Rightarrow> cstring \<Rightarrow> nat \<Rightarrow> cstring \<Rightarrow> byte list" where
  "reply_message junk h used body =
     (let text = reply_text h used body
      in text @ NUL # map junk [length text + 1..<length h + length body + 256])"

lemma reply_text_length:
  "length (reply_text h used body) = length h + length body + length (decimal used) + 88"
  by (simp add: reply_text_def crlf_def)

lemma cache_reply_fits:
  "cache_reply junk s h body =
     Inr (s\<lparr>sent := sent s @
            [(global_sock s, reply_message junk h (unat (cache_space_used (global_cache s))) body)]\<rparr>)"
proof -
  have "length (decimal (unat (cache_space_used (global_cache s)))) \<le> 20"
    by (rule length_decimal_u64)
  then show ?thesis
    by (simp add: cache_reply_def reply_message_def Let_def strlen_def reply_text_length)
qed

lemma reply_cstr:
  assumes "cstring_ok h" and "cstring_ok body"
  shows "cstr (reply_message junk h used body) = reply_text h used body"
proof -
  have "cstring_ok (reply_text h used body)"
    using assms by (simp add: reply_text_def crlf_def)
  then show ?thesis by (simp add: reply_message_def Let_def)
qed

lemma get_body_length: "length (get_body k v) = length k + length v + 28"
  by (simp add: get_body_def quoted_def)

section \<open>Requests and answers\<close>

text \<open>The request lines that \<open>server.c\<close> documents, for the three operations on keys.\<close>

fun request_text :: "(cstring, cstring) kv_op \<Rightarrow> cstring" where
  "request_text (Set_Op k v) = ''PUT'' @ '' /'' @ k @ ''/'' @ v"
| "request_text (Get_Op k) = ''GET'' @ '' /'' @ k"
| "request_text (Delete_Op k) = ''DELETE'' @ '' /'' @ k"

fun request_ok :: "(cstring, cstring) kv_op \<Rightarrow> bool" where
  "request_ok (Set_Op k v) \<longleftrightarrow> key_ok k \<and> env_req k v"
| "request_ok (Get_Op k) \<longleftrightarrow> key_ok k"
| "request_ok (Delete_Op k) \<longleftrightarrow> key_ok k"

text \<open>Status line and body of the reply to an answer of the cache.\<close>

fun answer_reply :: "(cstring, cstring) kv_op \<Rightarrow> cstring kv_out \<Rightarrow> cstring \<times> cstring" where
  "answer_reply (Get_Op k) (Found (Some v)) = (''200 OK'', get_body k v)"
| "answer_reply (Get_Op k) (Found None) = (''204 No Content'', ''Value not found in cache.'')"
| "answer_reply (Delete_Op k) (Deleted False) = (''500 Internal Server Error'', delete_failed k)"
| "answer_reply (Set_Op k v) (Stored False) = (''500 Internal Server Error'', [])"
| "answer_reply _ _ = (''204 No Content'', [])"

definition replied :: "delivery \<Rightarrow> server \<Rightarrow> cache_obj \<Rightarrow> cstring \<times> cstring \<Rightarrow> server \<Rightarrow> bool" where
  "replied d s c r s' \<longleftrightarrow>
     global_cache s' = Some c \<and> global_sock s' = global_sock s
     \<and> sent s' = sent s @ [(global_sock s,
         reply_message (stack_junk d) (fst r) (unat (cache_space_used (Some c))) (snd r))]"

lemma methods_ok: "method_ok ''PUT''" "method_ok ''GET''" "method_ok ''DELETE''"
  by (simp_all add: method_ok_def isspace_def)

lemma cache_set_string:
  "cache_set mal c k (v @ NUL # rest) (length v + 1) = cache_set mal c k (v @ [NUL]) (length v + 1)"
proof -
  have *: "cache_insert x k (v @ NUL # rest) (length v + 1) a sc =
        cache_insert x k (v @ [NUL]) (length v + 1) a sc"
    "(v @ NUL # rest) ! (length v + 1 - 1) = (v @ [NUL]) ! (length v + 1 - 1)"
    "length (v @ NUL # rest) < length v + 1 \<longleftrightarrow> length (v @ [NUL]) < length v + 1" for x a sc
    by (simp_all add: cache_insert_def)
  show ?thesis unfolding cache_set_def * by (rule refl)
qed

lemma recv_set:
  assumes c: "global_cache s = Some c" "env_inv (mal, c)" and k: "key_ok k" "env_req k v"
    and d: "message d = ''PUT'' @ '' /'' @ k @ ''/'' @ v @ [NUL]"
  shows "\<exists>r c' s'. cache_set mal (Some c) k (v @ [NUL]) (length v + 1) = Inr (r, Some c')
           \<and> recv mal s (Some d) = Inr s' \<and> replied d s c' (answer_reply (Set_Op k v) (Stored (r = 0))) s'"
proof -
  have "set_request_ok k (v @ [NUL]) (length v + 1)"
    using k by (simp add: set_request_ok_def env_req_def)
  from cache_set_effect [OF _ _ _ this, of c mal] c(2) obtain r c' where
    set: "cache_set mal (Some c) k (v @ [NUL]) (length v + 1) = Inr (r, Some c')"
    by (auto simp: env_inv_def)
  have "parse_request (behind d) (message d) =
      Inr \<lparr>buf = message d, request_type = 5, req_key = k, req_value = v @ NUL # behind d,
           req_size = length v + 1\<rparr>"
    using parse_key_value [OF methods_ok(1) k(1), of v "behind d"] k(2)
    unfolding d by (simp add: env_req_def type_of_request_def)
  moreover have "cache_set mal (Some c) k (v @ NUL # behind d) (length v + 1) = Inr (r, Some c')"
    using cache_set_string set by (rule trans)
  ultimately have "\<exists>s'. recv mal s (Some d) = Inr s'
      \<and> replied d s c' (answer_reply (Set_Op k v) (Stored (r = 0))) s'"
    using c(1) by (cases "r = 0") (simp_all add: recv_def handle_request_def cache_reply_fits replied_def)
  with set show ?thesis by blast
qed

lemma recv_get:
  assumes c: "global_cache s = Some c" "env_inv (mal, c)" and k: "key_ok k"
    and d: "message d = ''GET'' @ '' /'' @ k @ [NUL]" "NUL \<in> set (behind d)"
  shows "\<exists>v e s' c'. env_get (mal, c) k = Inr (v, (mal, c')) \<and> recv mal s (Some d) = Inr s'
           \<and> replied d s c' (answer_reply (Get_Op k) (Found v)) s'"
proof -
  have inv: "cache_inv c" using c(2) by (simp add: env_inv_def)
  have parse: "parse_request (behind d) (message d) =
      Inr \<lparr>buf = message d, request_type = 2, req_key = k, req_value = behind d,
           req_size = length (cstr (behind d)) + 1\<rparr>"
    using parse_key [OF methods_ok(2) k, of "behind d"] d(2) unfolding d(1) by (simp add: type_of_request_def)
  show ?thesis
  proof (cases "cache_map c k")
    case None
    with cache_get_spec [OF inv, of k] parse c show ?thesis
      by (simp add: recv_def handle_request_def take_get_request_def cache_reply_fits replied_def env_get_def)
  next
    case (Some v)
    then have v: "is_cstring v" using c(2) by (simp add: env_inv_def)
    with Some cache_get_spec [OF inv, of k] obtain a c' where
      get: "cache_get (Some c) k = Inr ((Some a, Some (length v)), Some c')" "load (store c') a (length v) = v"
      by auto
    from v have "length v = Suc (length (cstr v))"
      unfolding is_cstring_def by (metis length_append_singleton)
    with get parse c show ?thesis
      by (simp add: recv_def handle_request_def take_get_request_def cache_reply_fits replied_def
          env_get_def Let_def strlen_def get_body_length)
  qed
qed

lemma recv_delete:
  assumes c: "global_cache s = Some c" "env_inv (mal, c)" and k: "key_ok k"
    and d: "message d = ''DELETE'' @ '' /'' @ k @ [NUL]" "NUL \<in> set (behind d)"
  shows "\<exists>b c' s'. env_delete (mal, c) k = (b, (mal, c')) \<and> recv mal s (Some d) = Inr s'
           \<and> replied d s c' (answer_reply (Delete_Op k) (Deleted b)) s'"
proof -
  have inv: "cache_inv c" using c(2) by (simp add: env_inv_def)
  have parse: "parse_request (behind d) (message d) =
      Inr \<lparr>buf = message d, request_type = 1, req_key = k, req_value = behind d,
           req_size = length (cstr (behind d)) + 1\<rparr>"
    using parse_key [OF methods_ok(3) k, of "behind d"] d(2) unfolding d(1) by (simp add: type_of_request_def)
  obtain r c' where del: "cache_delete (Some c) k = (r, Some c')"
    using cache_delete_spec [OF inv, of k] by (cases "cache_map c k") auto
  then have "env_delete (mal, c) k = (r = 0, (mal, c'))" by (simp add: env_delete_def)
  moreover have "\<exists>s'. recv mal s (Some d) = Inr s'
      \<and> replied d s c' (answer_reply (Delete_Op k) (Deleted (r = 0))) s'"
    using parse c del by (cases "r = 0") (simp_all add: recv_def handle_request_def cache_reply_fits
        replied_def strlen_def delete_failed_def)
  ultimately show ?thesis by blast
qed

section \<open>Refinement\<close>

definition delivers :: "delivery \<Rightarrow> (cstring, cstring) kv_op \<Rightarrow> bool" where
  "delivers d x \<longleftrightarrow> message d = request_text x @ [NUL] \<and> NUL \<in> set (behind d)"

text \<open>One request: the server does the step of the cache and replies with its answer.\<close>

lemma recv_refines:
  assumes c: "global_cache s = Some c" "env_inv (mal, c)" and x: "request_ok x" and d: "delivers d x"
  shows "\<exists>y c' s'. kv_step env_set env_get env_delete (mal, c) x = Inr (y, (mal, c'))
           \<and> recv mal s (Some d) = Inr s' \<and> replied d s c' (answer_reply x y) s'"
proof (cases x)
  case (Set_Op k v)
  with recv_set [OF c, of k v d] x d obtain r c' s' where
    "cache_set mal (Some c) k (v @ [NUL]) (length v + 1) = Inr (r, Some c')" "recv mal s (Some d) = Inr s'"
    "replied d s c' (answer_reply x (Stored (r = 0))) s'"
    by (auto simp: delivers_def)
  with Set_Op show ?thesis by (intro exI conjI) (auto simp: env_set_def strlen_def)
next
  case (Get_Op k)
  with recv_get [OF c, of k d] x d obtain v s' c' where
    "env_get (mal, c) k = Inr (v, (mal, c'))" "recv mal s (Some d) = Inr s'"
    "replied d s c' (answer_reply x (Found v)) s'"
    by (auto simp: delivers_def)
  with Get_Op show ?thesis by (intro exI conjI) auto
next
  case (Delete_Op k)
  with recv_delete [OF c, of k d] x d obtain b c' s' where
    "env_delete (mal, c) k = (b, (mal, c'))" "recv mal s (Some d) = Inr s'"
    "replied d s c' (answer_reply x (Deleted b)) s'"
    by (auto simp: delivers_def)
  with Delete_Op show ?thesis by (intro exI conjI) auto
qed

lemma request_kv_ok: "request_ok x \<Longrightarrow> kv_op_ok env_req x"
  by (cases x) auto

text \<open>The reply, read as a string, is the formatted answer.\<close>

definition reply_is :: "byte list \<Rightarrow> cstring \<times> cstring \<Rightarrow> bool" where
  "reply_is m r \<longleftrightarrow> (\<exists>used. cstr m = reply_text (fst r) used (snd r))"

fun replies_match :: "(cstring, cstring) kv_op list \<Rightarrow> cstring kv_out list \<Rightarrow> byte list list \<Rightarrow> bool" where
  "replies_match [] [] [] \<longleftrightarrow> True"
| "replies_match (x # xs) (y # ys) (m # ms) \<longleftrightarrow> reply_is m (answer_reply x y) \<and> replies_match xs ys ms"
| "replies_match _ _ _ \<longleftrightarrow> False"

lemma answer_reply_ok:
  assumes "kv_step env_set env_get env_delete e x = Inr (y, e')" and "request_ok x"
  shows "cstring_ok (fst (answer_reply x y)) \<and> cstring_ok (snd (answer_reply x y))"
proof (cases x)
  case (Get_Op k)
  with assms(1) obtain v where v: "env_get e k = Inr (v, e')" "y = Found v"
    by (cases "env_get e k") auto
  then have "v = Some w \<Longrightarrow> cstring_ok w" for w
    by (cases "cache_get (Some (snd e)) k") (auto simp: env_get_def)
  with Get_Op v assms(2) show ?thesis by (cases v) (auto simp: get_body_def quoted_def key_ok_def)
next
  case (Set_Op k v)
  with assms(1) obtain b where "y = Stored b" by (cases "env_set e k v") auto
  with Set_Op show ?thesis by (cases b) auto
next
  case (Delete_Op k)
  with assms obtain b where "y = Deleted b" by (cases "env_delete e k") auto
  with Delete_Op assms(2) show ?thesis by (cases b) (auto simp: delete_failed_def key_ok_def)
qed

text \<open>A call of \<open>nn_recv\<close> that fails, for example with a timeout, changes nothing.\<close>

lemma recv_loop_timeouts: "recv_loop mal s rs = recv_loop mal s (map Some (List.map_filter id rs))"
  by (induction rs arbitrary: s) (auto simp: recv_def List.map_filter_simps split: option.split sum.split)

lemma server_run:
  assumes "global_cache s = Some c" and "env_inv (mal, c)" and "list_all request_ok xs"
    and "list_all2 delivers ds xs"
  shows "\<exists>ys c' s' ms. kv_run env_set env_get env_delete (mal, c) xs = Inr (ys, (mal, c'))
           \<and> recv_loop mal s (map Some ds) = Inr s' \<and> global_cache s' = Some c'
           \<and> global_sock s' = global_sock s
           \<and> sent s' = sent s @ map (Pair (global_sock s)) ms \<and> replies_match xs ys ms"
  using assms
proof (induction xs arbitrary: s c ds)
  case (Cons x xs)
  then obtain d ds' where ds: "ds = d # ds'" "delivers d x" "list_all2 delivers ds' xs"
    by (auto simp: list_all2_Cons2)
  have x: "request_ok x" and xs: "list_all request_ok xs" using Cons.prems(3) by auto
  from recv_refines [OF Cons.prems(1,2) x ds(2)] obtain y c1 s1 where
    step: "kv_step env_set env_get env_delete (mal, c) x = Inr (y, (mal, c1))"
    and rcv: "recv mal s (Some d) = Inr s1" and rep: "replied d s c1 (answer_reply x y) s1"
    by blast
  have inv1: "env_inv (mal, c1)"
    using cache_kv.step_ok [OF Cons.prems(2) request_kv_ok [OF x] map_le_refl] step by force
  have s1: "global_cache s1 = Some c1" "global_sock s1 = global_sock s"
    using rep by (auto simp: replied_def)
  from Cons.IH [OF s1(1) inv1 xs ds(3)] obtain ys c' s' ms where
    rest: "kv_run env_set env_get env_delete (mal, c1) xs = Inr (ys, (mal, c'))"
      "recv_loop mal s1 (map Some ds') = Inr s'" "global_cache s' = Some c'"
      "global_sock s' = global_sock s" "sent s' = sent s1 @ map (Pair (global_sock s)) ms"
      "replies_match xs ys ms"
    unfolding s1(2) by blast
  from rep obtain m where m: "sent s1 = sent s @ [(global_sock s, m)]" "reply_is m (answer_reply x y)"
    using answer_reply_ok [OF step x] reply_cstr by (fastforce simp: replied_def reply_is_def)
  with rest step rcv ds(1) show ?case
    by (intro exI [of _ "y # ys"] exI [of _ c'] exI [of _ s'] exI [of _ "m # ms"]) simp
qed simp

end
