(* ===== verification/Server_Props.thy ===== *)
theory Server_Props
  imports Server_Correct
begin

text \<open>
  What the server and the client library guarantee together, from the arguments of \<open>main\<close> to
  the replies on the wire, and where the protocol's edges are.
\<close>

section \<open>Starting up\<close>

lemma main_args_port:
  "\<lbrakk> main_args argv port mm = Inr (Some (Some p, mm')); port = None \<or> length (the port) \<le> 5 \<rbrakk> \<Longrightarrow>
   length p \<le> 5"
proof (induction argv arbitrary: port mm)
  case (Cons arg rest)
  consider "arg = ''-t''" | "arg = ''-m''" | "arg \<noteq> ''-t''" "arg \<noteq> ''-m''" by blast
  then show ?case
  proof cases
    case 1
    then obtain q qs where "rest = q # qs" "length q \<le> 5" "main_args rest (Some q) mm = Inr (Some (Some p, mm'))"
      using Cons.prems(1) by (cases rest) (auto simp: strlen_def simp del: main_args.simps(2) split: if_splits
          simp: main_args.simps(2) [of "''-t''"])
    with Cons.IH show ?thesis by fastforce
  next
    case 2
    then have "\<exists>m. main_args rest port m = Inr (Some (Some p, mm'))"
      using Cons.prems(1) by (cases rest) (auto simp del: main_args.simps(2) simp: main_args.simps(2) [of "''-m''"])
    with Cons.IH Cons.prems(2) show ?thesis by blast
  next
    case 3
    with Cons.prems Cons.IH show ?thesis by simp
  qed
qed auto

lemma server_main_cases:
  assumes "server_main argv = Inr (Some (addr, s))"
  obtains mm where "s = \<lparr>global_cache = Some (create_cache mm None), global_sock = 0,
      cache_has_been_set = 0, sent = []\<rparr>"
  using assms by (auto simp: server_main_def Let_def split: sum.splits option.splits if_splits)

text \<open>
  The address that \<open>main\<close> builds always fits its array of 64 bytes: the port is
  checked before it is appended.
\<close>

theorem server_address_fits: "server_main argv \<noteq> Inl Out_Of_Bounds"
proof -
  have args: "main_args argv port mm \<noteq> Inl Out_Of_Bounds" for port mm
    by (induction argv port mm rule: main_args.induct) (auto split: list.splits)
  have "length p \<le> 5" if "main_args argv None 0 = Inr (Some (Some p, mm))" for p mm
    using main_args_port [OF that] by simp
  with args [of None 0] show ?thesis
    by (fastforce simp: server_main_def Let_def split: sum.splits option.splits)
qed

lemma main_args_one:
  "main_args [program] None 0 =
     (if program = ''-t'' \<or> program = ''-m'' then Inl Null_Pointer else Inr (Some (None, 0)))"
  by simp

lemma server_main_one:
  "server_main [program] =
     (if program = ''-t'' \<or> program = ''-m'' then Inl Null_Pointer
      else Inr (Some (''tcp://0.0.0.0:50000'',
             \<lparr>global_cache = Some (create_cache (2 ^ 26) None), global_sock = 0,
              cache_has_been_set = 0, sent = []\<rparr>)))"
  unfolding server_main_def main_args_one by (simp add: Let_def del: main_args.simps)

text \<open>
  Without arguments the server binds port 50000 (the comment above \<open>main\<close> says
  8075) and creates a cache of 2^26 bytes.
\<close>

theorem server_defaults:
  "server_main [program] =
     (if program = ''-t'' \<or> program = ''-m'' then Inl Null_Pointer
      else Inr (Some (''tcp://0.0.0.0:50000'',
             \<lparr>global_cache = Some (create_cache (2 ^ 26) None), global_sock = 0,
              cache_has_been_set = 0, sent = []\<rparr>)))"
  by (rule server_main_one)

section \<open>Histories\<close>

text \<open>
  Property C2. From the start of \<open>main\<close> on, when the socket is created, bound and configured
  without error and \<open>malloc\<close> never returns NULL: for every sequence of PUT, GET and DELETE
  messages, interleaved with failed receives, the server answers each message with one message
  and never faults; read as a string, each is the formatted answer of the cache, and the answers
  are correct, so a GET is answered with the value most recently PUT and not deleted since, or
  with "Value not found". Keys are non-empty, without slash and shorter than 200 bytes, those of
  a PUT at most 31 bytes; values take more than 64 and at most 2^20 bytes with their NUL; and
  the memory behind each received message holds a NUL, which the parser relies on. The answers
  go to socket number 0, whatever socket the messages came from.
\<close>

theorem server_histories_correct:
  assumes "malloc_ok mal" and "malloc_total mal" and "server_main argv = Inr (Some (addr, s))"
    and "0 \<le> lib_socket lib" and "0 \<le> lib_bind lib (lib_socket lib) addr"
    and "0 \<le> lib_setsockopt lib (lib_socket lib) 100"
    and "list_all request_ok xs" and "list_all2 delivers (List.map_filter id (lib_recv lib (lib_socket lib))) xs"
  shows "\<exists>ys s' ms. send_recv mal lib s addr = Inr s' \<and> sent s' = map (Pair 0) ms
           \<and> replies_match xs ys ms \<and> kv_answers_ok Map.empty xs ys"
proof -
  from server_main_cases [OF assms(3)] obtain mm where s: "global_cache s = Some (create_cache mm None)"
    "global_sock s = 0" "sent s = []" by (metis server.select_convs(1,2,4))
  note inv = env_inv_create [OF assms(1,2), of mm None]
  have "list_all (kv_op_ok env_req) xs"
    using assms(7) by (auto simp: list_all_iff request_kv_ok)
  from cache_kv.run_ok [OF inv this, of Map.empty] server_run [OF s(1) inv assms(7,8)] s(2,3)
    recv_loop_timeouts [of mal s "lib_recv lib (lib_socket lib)"] assms(4-6)
  show ?thesis by (fastforce simp: env_view_def create_cache_spec(2) send_recv_def)
qed

text \<open>A library whose socket delivers a PUT, then a timeout, then a GET.\<close>

definition sample_lib :: socket_lib where
  "sample_lib = \<lparr>lib_socket = 0, lib_bind = (\<lambda>_ _. 1), lib_setsockopt = (\<lambda>_ _. 0),
     lib_recv = (\<lambda>_.
       [Some \<lparr>message = ''PUT /k/'' @ sample_value @ [NUL], behind = [NUL], stack_junk = (\<lambda>_. NUL)\<rparr>, None,
        Some \<lparr>message = ''GET /k'' @ [NUL], behind = [NUL], stack_junk = (\<lambda>_. NUL)\<rparr>])\<rparr>"

theorem server_histories_correct_witness:
  "\<exists>s addr ys s' ms. server_main [''server''] = Inr (Some (addr, s))
     \<and> send_recv bump_malloc sample_lib s addr = Inr s'
     \<and> sent s' = map (Pair 0) ms \<and> replies_match [Set_Op ''k'' sample_value, Get_Op ''k''] ys ms"
proof -
  obtain addr s where main: "server_main [''server''] = Inr (Some (addr, s))"
    using server_main_one [of "''server''"] by simp
  let ?xs = "[Set_Op ''k'' sample_value, Get_Op ''k'']"
  have "list_all request_ok ?xs" by (simp add: key_ok_def sample_env_req)
  moreover have "list_all2 delivers (List.map_filter id (lib_recv sample_lib (lib_socket sample_lib))) ?xs"
    by (simp add: delivers_def sample_lib_def List.map_filter_simps)
  moreover have "0 \<le> lib_socket sample_lib" "0 \<le> lib_bind sample_lib (lib_socket sample_lib) addr"
    "0 \<le> lib_setsockopt sample_lib (lib_socket sample_lib) 100"
    by (simp_all add: sample_lib_def)
  ultimately obtain ys s' ms where "send_recv bump_malloc sample_lib s addr = Inr s'"
    "sent s' = map (Pair 0) ms" "replies_match ?xs ys ms"
    using server_histories_correct [where lib = sample_lib, OF bump_malloc_ok bump_malloc_total main] by blast
  with main show ?thesis by blast
qed

section \<open>The wire format\<close>

definition fresh_client :: client where
  "fresh_client = \<lparr>sock = 0, buffer = replicate buffer_size NUL, out = []\<rparr>"

text \<open>
  Property C34. What becomes of a value that the client library sends with \<open>cache_set\<close>, for
  every key and value that fit the client's buffer, when \<open>nn_send\<close> succeeds, and whatever memory
  follows the message. The server's parser takes the key up to its first slash; a key without
  slash, not empty and shorter than 200 bytes, arrives as it was, with its value and size. From
  a key with a slash the rest becomes part of the value. A key that starts with a slash, or an
  empty one, leaves the server's key uninitialised, and 200 bytes before the first slash overrun
  the server's array.
\<close>

theorem client_put_parsed:
  assumes "cstring_ok k" and "cstring_ok v" and "length k + length v + 7 \<le> buffer_size"
    and "nn_send (''PUT /'' @ k @ ''/'' @ v @ [NUL]) > 0"
    and "k1 = takeWhile (\<lambda>c. c \<noteq> CHR ''/'') k" and "v1 = drop (length k1 + 1) (k @ ''/'' @ v)"
  shows "\<exists>c' m. client_set nn_send c k (v @ [NUL]) (length v + 1) = Inr (0, c') \<and> out c' = out c @ [m]
           \<and> parse_request rest m =
               (if k1 = [] then Inl Uninitialised
                else if 200 \<le> length k1 then Inl Out_Of_Bounds
                else Inr \<lparr>buf = m, request_type = 5, req_key = k1, req_value = v1 @ NUL # rest,
                          req_size = length v1 + 1\<rparr>)
           \<and> (CHR ''/'' \<notin> set k \<longrightarrow> k1 = k \<and> v1 = v)"
proof -
  from client_set_sends [where nn_send = nn_send, OF assms(1-4), of c] obtain c' where
    c': "client_set nn_send c k (v @ [NUL]) (length v + 1) = Inr (0, c')"
      "out c' = out c @ [''PUT /'' @ k @ ''/'' @ v @ [NUL]]"
    by blast
  have k1: "CHR ''/'' \<notin> set k1" "k1 @ ''/'' @ v1 = k @ ''/'' @ v"
    unfolding assms(5,6) by (induction k) auto
  have "cstring_ok (k1 @ ''/'' @ v1)" unfolding k1(2) using assms(1,2) by simp
  then have ok: "cstring_ok k1" "cstring_ok v1" by simp_all
  have m: "''PUT /'' @ k @ ''/'' @ v @ [NUL] = ''PUT'' @ '' /'' @ k1 @ ''/'' @ v1 @ [NUL]"
    using k1(2) by (metis append.assoc append_Cons append_Nil)
  have "type_of_request ''PUT'' = 5" by (simp add: type_of_request_def)
  with parse_split [OF methods_ok(1) _ k1(1) ok, of rest] parse_no_key [OF methods_ok(1) ok(2), of rest]
  have "parse_request rest (''PUT /'' @ k @ ''/'' @ v @ [NUL]) =
      (if k1 = [] then Inl Uninitialised
       else if 200 \<le> length k1 then Inl Out_Of_Bounds
       else Inr \<lparr>buf = ''PUT /'' @ k @ ''/'' @ v @ [NUL], request_type = 5, req_key = k1,
                 req_value = v1 @ NUL # rest, req_size = length v1 + 1\<rparr>)"
    unfolding m by (cases "k1 = []") simp_all
  moreover have "k1 = k \<and> v1 = v" if "CHR ''/'' \<notin> set k"
  proof -
    have "k1 = k" using that unfolding assms(5) by (simp add: takeWhile_eq_all_conv) blast
    with assms(6) show ?thesis by simp
  qed
  ultimately show ?thesis using c' by blast
qed

theorem client_put_parsed_witness:
  "\<exists>c' m. client_set (\<lambda>m. 1) fresh_client ''a/b'' (''v'' @ [NUL]) (length ''v'' + 1) = Inr (0, c')
     \<and> out c' = out fresh_client @ [m]
     \<and> parse_request [] m = Inr \<lparr>buf = m, request_type = 5, req_key = ''a'', req_value = ''b/v'' @ [NUL], req_size = 4\<rparr>"
proof -
  have "cstring_ok ''a/b''" "cstring_ok ''v''" "length ''a/b'' + length ''v'' + 7 \<le> buffer_size"
    by (simp_all add: buffer_size_def)
  from client_put_parsed [where nn_send = "\<lambda>m. 1", OF this zero_less_one refl refl, of fresh_client "[]"]
  show ?thesis by (simp add: numeral_eq_Suc)
qed

text \<open>The size that the parser computes from the memory behind a GET does not reach the reply.\<close>

lemma take_get_request_size:
  assumes "req_key r = req_key r'"
  shows "take_get_request junk s r = take_get_request junk s r'"
proof -
  have fits: "\<not> y div 2 ^ 32 * 2 ^ 32 + n + length k + 32 < length (get_body k (cstr (load st a n))) + 1"
    for y k st a n
  proof -
    have "length (cstr (load st a n)) \<le> n"
      unfolding cstr_def by (rule order_trans [OF length_takeWhile_le]) simp
    then show ?thesis unfolding get_body_length by linarith
  qed
  have size: "val = None \<or> (\<exists>n. sz = Some n)" if "cache_get (global_cache s) k = Inr ((val, sz), c)" for k val sz c
    using that by (auto simp: cache_get_def Let_def split: option.splits if_splits)
  show ?thesis
    unfolding take_get_request_def assms
    using size fits by (fastforce simp: Let_def strlen_def split: sum.split prod.split option.split)
qed

text \<open>
  Property C40. For a key that is not empty, without slash and shorter than 200 bytes, when
  \<open>nn_send\<close> succeeds: the server reads past the end of the GET message the client sends, and on
  until it meets a NUL, because the position it takes for the value lies behind the message's
  own NUL. Without a NUL in the memory behind the message the read leaves that memory; with one,
  the server's new state and its reply are the same whatever that memory holds.
\<close>

theorem client_get_overread:
  assumes "key_ok k" and "length k + 6 \<le> buffer_size" and "nn_send (''GET /'' @ k @ [NUL]) > 0"
  shows "\<exists>c' m. client_get nn_send c k = Inr c' \<and> out c' = out c @ [m]
           \<and> recv mal s (Some \<lparr>message = m, behind = rest, stack_junk = junk\<rparr>) =
               (if NUL \<in> set rest then recv mal s (Some \<lparr>message = m, behind = [NUL], stack_junk = junk\<rparr>)
                else Inl Out_Of_Bounds)"
proof -
  have "cstring_ok k" using assms(1) by (simp add: key_ok_def)
  from client_get_sends [where nn_send = nn_send, OF this assms(2,3), of c] obtain c' where
    c': "client_get nn_send c k = Inr c'" "out c' = out c @ [''GET /'' @ k @ [NUL]]"
    by blast
  define m where "m = ''GET /'' @ k @ [NUL]"
  define r where "r rest = \<lparr>buf = m, request_type = 2, req_key = k, req_value = rest,
      req_size = length (cstr rest) + 1\<rparr>" for rest
  have parse: "parse_request rest m =
      (if NUL \<in> set rest then Inr (r rest) else Inl Out_Of_Bounds)" for rest
    using parse_key [OF methods_ok(2) assms(1), of rest] by (simp add: type_of_request_def r_def m_def)
  have "handle_request mal junk s (r rest) = take_get_request junk s (r rest)" for rest
    by (simp add: handle_request_def r_def)
  moreover have "take_get_request junk s (r rest) = take_get_request junk s (r [NUL])"
    by (rule take_get_request_size) (simp add: r_def)
  ultimately have "recv mal s (Some \<lparr>message = m, behind = rest, stack_junk = junk\<rparr>) =
      (if NUL \<in> set rest then recv mal s (Some \<lparr>message = m, behind = [NUL], stack_junk = junk\<rparr>)
       else Inl Out_Of_Bounds)"
    by (simp add: recv_def parse)
  with c' show ?thesis unfolding m_def by blast
qed

definition fresh_server :: server where
  "fresh_server = \<lparr>global_cache = None, global_sock = 0, cache_has_been_set = 0, sent = []\<rparr>"

theorem client_get_overread_witness:
  "\<exists>c' m. client_get (\<lambda>m. 1) fresh_client ''k'' = Inr c' \<and> out c' = out fresh_client @ [m]
     \<and> recv bump_malloc fresh_server (Some \<lparr>message = m, behind = [], stack_junk = (\<lambda>_. NUL)\<rparr>) = Inl Out_Of_Bounds"
proof -
  have "key_ok ''k''" "length ''k'' + 6 \<le> buffer_size"
    by (simp_all add: key_ok_def buffer_size_def)
  from client_get_overread [where nn_send = "\<lambda>m. 1", OF this zero_less_one, of fresh_client bump_malloc fresh_server "[]"]
  show ?thesis by auto
qed

end
