(* ===== verification/Slab_Props.thy ===== *)
theory Slab_Props
  imports Slabs
begin

text \<open>What the slab manager of \<open>tools/slabs.c\<close> guarantees its caller.\<close>

text \<open>
  Property C27. \<open>get_address\<close> terminates and keeps the manager well formed. It returns either
  an entry of the class of the requested size that was free and is now in use, everything else
  being as before, or NULL when every entry of that class is in use.
\<close>

theorem get_address_correct:
  assumes "man_inv man" and "get_address man n = (r, man')"
  shows "man_inv man' \<and> layout man' = layout man
    \<and> (case r of
         None \<Rightarrow> live man' = live man \<and> class_full man (get_slab_class man n)
       | Some a \<Rightarrow> a \<notin> live man \<and> live man' = insert a (live man) \<and> extent man a = get_slab_class man n)"
  using get_address_spec [OF assms] by (simp add: get_address_post_def)

lemma man_inv_initial: "man_inv (initialize None)"
  by (simp add: man_inv_def initialize_def slabs_apart_def)

theorem get_address_correct_witness:
  "get_address (initialize None) 100 = (None, initialize None) \<and> class_full (initialize None) 128"
proof -
  have none: "get_address (initialize None) 100 = (None, initialize None)"
    by (subst get_address.simps) (simp add: get_slab_def initialize_def)
  have "get_slab_class (initialize None) 100 = 128"
    by (simp add: get_slab_class_def default_classes)
  with none get_address_correct [OF man_inv_initial none] show ?thesis by simp
qed

text \<open>
  Property C28. \<open>man_delete\<close> frees exactly the entry it is given and keeps the manager well
  formed, and the next request for a value of that entry's class succeeds.
\<close>

theorem man_delete_correct:
  assumes "man_inv man" and "a \<in> live man"
  shows "man_inv (man_delete man a sz) \<and> live (man_delete man a sz) = live man - {a}
    \<and> (extent man a = get_slab_class man n \<longrightarrow> fst (get_address (man_delete man a sz) n) \<noteq> None)"
  using man_delete_spec(1,3) [OF assms] slab_alloc.alloc_after_release [OF assms] by blast

text \<open>
  Property C29. An entry that \<open>get_address\<close> hands out lies inside the \<open>memory\<close> array of one
  slab with all the bytes of its class, and overlaps no entry that is in use.
\<close>

theorem get_address_disjoint:
  assumes "man_inv man" and "get_address man n = (Some a, man')"
  shows "(\<exists>s \<in> set (slabs man). base s \<le> a \<and> a + get_slab_class man n \<le> base s + memory_size)
    \<and> (\<forall>b \<in> live man. disjoint_blocks a (get_slab_class man n) b (extent man b))"
proof -
  from get_address_spec [OF assms] have post: "man_inv man'" "layout man' = layout man" "a \<notin> live man"
    "live man' = insert a (live man)" "extent man a = get_slab_class man n"
    by (simp_all add: get_address_post_def)
  note ext = extent_layout [OF post(2)]
  from post(4) have "a \<in> live man'" by simp
  then obtain si k where k: "si < length (slabs man')" "k < capacity (slabs man' ! si)"
    "a = slot_addr (slabs man' ! si) k" unfolding live_iff by blast
  note nth = layout_nth [OF post(2)]
  have "sclass (slabs man' ! si) = get_slab_class man n"
    using extent_slot [OF post(1) k(1,2)] k(3) ext post(5) by simp
  with slot_in_slab [OF man_inv_slab [OF post(1) k(1)] k(2)] k nth
  have "base (slabs man ! si) \<le> a \<and> a + get_slab_class man n \<le> base (slabs man ! si) + memory_size"
    by simp
  moreover have "slabs man ! si \<in> set (slabs man)" using k(1) nth(1) by simp
  moreover have "disjoint_blocks a (get_slab_class man n) b (extent man b)" if "b \<in> live man" for b
    using live_disjoint_blocks [OF post(1), of a b] that post ext by auto
  ultimately show ?thesis by blast
qed

text \<open>
  A value of at most 2^20 bytes gets the smallest class that holds it.
\<close>

theorem get_slab_class_tight:
  assumes "classes man = classes (initialize None)" and "n \<le> memory_size"
  shows "n \<le> get_slab_class man n \<and> get_slab_class man n \<in> set (butlast (classes man))
    \<and> (\<forall>c \<in> set (butlast (classes man)). n \<le> c \<longrightarrow> get_slab_class man n \<le> c)"
  using get_slab_class_cases [OF assms(1)] assms(2) by blast

theorem get_slab_class_tight_witness: "65 \<le> get_slab_class (initialize None) 65"
  using get_slab_class_tight [of "initialize None" 65] by (simp add: memory_size_def)

text \<open>
  A new slab: the allocation bits beyond its capacity are set, the bits of whole
  words of entries are cleared, and the bits of the last, partly used word keep what the
  memory held before, because the code only sets bits in it. For the classes above 2^15 bytes
  this is every entry of the slab.
\<close>

theorem allocate_slab_bits:
  assumes "64 < c" and "c \<le> memory_size" and "length (status r) = 512"
  shows "\<exists>s. allocate_slab (Some r) c = Inr s \<and> base s = base r \<and> sclass s = c \<and> isFull s = 0
    \<and> (\<forall>k < 16384. slot_used (status s) k \<longleftrightarrow>
         memory_size div c \<le> k \<or> 32 * (memory_size div c div 32) \<le> k \<and> slot_used (status r) k)"
proof -
  from allocate_slab_spec [OF assms] obtain s where "allocate_slab (Some r) c = Inr s" "base s = base r"
    "sclass s = c" "isFull s = 0"
    "\<forall>k < 16384. slot_used (status s) k \<longleftrightarrow>
       capacity s \<le> k \<or> 32 * (capacity s div 32) \<le> k \<and> slot_used (status r) k"
    by blast
  then show ?thesis by (auto simp: capacity_def)
qed

text \<open>A block of memory whose status words are all ones: a new slab in it has no free entry.\<close>

definition dirty_block :: slab where
  "dirty_block = \<lparr>base = 16, sclass = 0, status = replicate 512 (NOT 0), isFull = 1\<rparr>"

theorem allocate_slab_bits_witness:
  "\<exists>s. allocate_slab (Some dirty_block) memory_size = Inr s \<and> slot_used (status s) 0"
proof -
  have "slot_used (status dirty_block) 0" by (simp add: slot_used_def dirty_block_def)
  with allocate_slab_bits [of memory_size dirty_block] show ?thesis
    by (auto simp: memory_size_def dirty_block_def)
qed

lemma all_ones_used: "k < 16384 \<Longrightarrow> slot_used (replicate 512 (NOT 0)) k"
proof -
  assume "k < 16384"
  then have "k div 32 < 512" by (simp add: less_mult_imp_div_less)
  moreover have "31 - k mod 32 < (32 :: nat)" by simp
  ultimately show ?thesis by (simp add: slot_used_def)
qed

text \<open>A manager with one slab of class 2^20 whose single entry is in use.\<close>

definition one_entry :: manager where
  "one_entry = (initialize None)\<lparr>slabs := [\<lparr>base = 16, sclass = memory_size,
     status = replicate 512 (NOT 0), isFull = 0\<rparr>], num_slabs := 1\<rparr>"

lemma one_entry_inv: "man_inv one_entry"
  by (simp add: man_inv_def one_entry_def slabs_apart_def slab_ok_def memory_size_def
      all_ones_used [simplified] initialize_def)

lemma one_entry_live: "16 \<in> live one_entry"
  unfolding live_iff
  by (rule exI [of _ 0], rule exI [of _ 0])
    (simp add: one_entry_def capacity_def memory_size_def slot_used_def slot_addr_def)

theorem man_delete_correct_witness: "live (man_delete one_entry 16 5) = live one_entry - {16}"
  using man_delete_correct [OF one_entry_inv one_entry_live] by blast

text \<open>A manager with one slab of two entries, of which the first is in use.\<close>

definition half_slab :: slab where
  "half_slab = \<lparr>base = 16, sclass = 2 ^ 19, status = 0xBFFFFFFF # replicate 511 (NOT 0), isFull = 0\<rparr>"

definition half_used :: manager where
  "half_used = (initialize None)\<lparr>slabs := [half_slab], num_slabs := 1\<rparr>"

lemma half_slab_used:
  assumes "k < 16384" and "k \<noteq> 1"
  shows "slot_used (status half_slab) k"
proof (cases "k < 32")
  case True
  have "list_all (\<lambda>k. k \<noteq> 1 \<longrightarrow> bit (0xBFFFFFFF :: u32) (31 - k)) [0..<32]" by code_simp
  with True assms(2) have "bit (0xBFFFFFFF :: u32) (31 - k)" by (simp add: list_all_iff)
  with True show ?thesis by (simp add: slot_used_def half_slab_def)
next
  case False
  with assms(1) have "k div 32 - 1 < 511" "k div 32 \<noteq> 0" by (auto simp: less_mult_imp_div_less)
  then have "status half_slab ! (k div 32) = NOT 0"
    by (simp add: half_slab_def nth_Cons')
  then show ?thesis by (simp add: slot_used_def bit_not_iff)
qed

lemma half_used_facts:
  "man_inv half_used" "16 \<in> live half_used" "get_slab_class half_used (2 ^ 19) = 2 ^ 19"
  "\<not> class_full half_used (2 ^ 19)"
proof -
  have cap: "capacity half_slab = 2" by (simp add: capacity_def half_slab_def memory_size_def)
  have "slab_ok half_slab"
    using half_slab_used cap by (auto simp: slab_ok_def) (simp_all add: half_slab_def memory_size_def)
  then show "man_inv half_used"
    by (simp add: man_inv_def half_used_def slabs_apart_def initialize_def)
  have "slot_used (status half_slab) 0" by (rule half_slab_used) auto
  with cap show "16 \<in> live half_used"
    unfolding live_iff by (intro exI [of _ 0]) (simp add: half_used_def slot_addr_def, simp add: half_slab_def)
  show "get_slab_class half_used (2 ^ 19) = 2 ^ 19"
    by (simp add: get_slab_class_def half_used_def default_classes)
  have "\<not> slot_used (status half_slab) 1" unfolding half_slab_def slot_used_def by simp
  moreover have "sclass half_slab = 2 ^ 19" by (simp add: half_slab_def)
  ultimately show "\<not> class_full half_used (2 ^ 19)"
    using cap by (auto simp: class_full_def half_used_def intro!: exI [of _ 1])
qed

theorem get_address_disjoint_witness:
  "\<exists>a man'. get_address half_used (2 ^ 19) = (Some a, man') \<and> disjoint_blocks a (2 ^ 19) 16 (extent half_used 16)"
proof -
  obtain r man' where g: "get_address half_used (2 ^ 19) = (r, man')"
    by (cases "get_address half_used (2 ^ 19)")
  with get_address_spec [OF half_used_facts(1) g] half_used_facts(3,4) obtain a where "r = Some a"
    by (cases r) (auto simp: get_address_post_def)
  with g get_address_disjoint [OF half_used_facts(1), of "2 ^ 19" a man'] half_used_facts(2,3) show ?thesis
    by auto
qed

end
