(* ===== verification/Workload.thy ===== *)
theory Workload
  imports Client
begin

text \<open>
  The workload generator of \<open>workload_sim.c\<close>. The results of \<open>rand()\<close> are arguments, in the
  order of the calls; the clock and the socket are arguments of the main loop.
\<close>

section \<open>State\<close>

text \<open>
  The client object, the array of 2^20 bytes that the values are cut from, and the static
  counter of \<open>send_request\<close>.
\<close>

record workload =
  wclient :: client
  val_ls :: "byte list"
  set_count :: u64

definition filler :: byte where
  "filler = CHR '')''"

text \<open>\<open>sprintf(key_ls, "%lu", n)\<close> into the array of 20 bytes.\<close>

definition key_printf :: "u64 \<Rightarrow> cstring c_result" where
  "key_printf n =
     (let k = decimal (unat n) in if 20 < strlen k + 1 then Inl Out_Of_Bounds else Inr k)"

section \<open>Requests\<close>

definition sim_get :: "(byte list \<Rightarrow> int) \<Rightarrow> nat \<Rightarrow> workload \<Rightarrow> workload c_result" where
  "sim_get nn_send r w =
     (if set_count w * 2 = 0 then Inl Division_By_Zero
      else
        case key_printf (of_nat (r mod unat (set_count w * 2))) of
          Inl f \<Rightarrow> Inl f
        | Inr k \<Rightarrow> map_sum id (\<lambda>c. w\<lparr>wclient := c\<rparr>) (client_get nn_send (wclient w) k))"

text \<open>The size of the value: the branches of \<open>sim_set\<close>. \<open>None\<close> is the default of its switch.\<close>

definition sim_size :: "nat \<Rightarrow> nat \<Rightarrow> nat option" where
  "sim_size roll r =
     (if roll = 0 then Some (r mod (2 ^ 20 - 1010) + 1000)
      else if roll \<le> 25 then Some (r mod 500 + 501)
      else if roll \<le> 225 then Some (r mod 400 + 101)
      else if roll \<le> 260 then Some (r mod 88 + 12)
      else if roll \<le> 275 then Some (r mod 6 + 4)
      else if r mod 3 = 0 then Some 2
      else if r mod 3 = 1 then Some 3
      else if r mod 3 = 2 then Some 11
      else None)"

definition sim_set ::
  "(byte list \<Rightarrow> int) \<Rightarrow> nat \<Rightarrow> nat \<Rightarrow> u64 \<Rightarrow> workload \<Rightarrow> workload c_result" where
  "sim_set nn_send r1 r2 key_num w =
     (let roll = r1 mod 500 in
      case key_printf key_num of
        Inl f \<Rightarrow> Inl f
      | Inr k \<Rightarrow>
          (case sim_size roll r2 of
             None \<Rightarrow> Inr w
           | Some sz \<Rightarrow>
               if length (val_ls w) \<le> sz then Inl Out_Of_Bounds
               else
                 (let vs = (val_ls w)[sz := NUL] in
                  case client_set nn_send (wclient w) k vs (sz + 1) of
                    Inl f \<Rightarrow> Inl f
                  | Inr (r, c) \<Rightarrow> Inr (w\<lparr>wclient := c, val_ls := vs[sz := filler]\<rparr>))))"

definition send_request :: "(byte list \<Rightarrow> int) \<Rightarrow> nat \<Rightarrow> nat \<Rightarrow> nat \<Rightarrow> workload \<Rightarrow> workload c_result" where
  "send_request nn_send r0 r1 r2 w =
     (if r0 mod 31 = 0
      then let w = w\<lparr>set_count := set_count w + 1\<rparr> in sim_set nn_send r1 r2 (set_count w) w
      else sim_get nn_send r1 w)"

section \<open>The main loop\<close>

text \<open>
  One turn: the numbers that \<open>rand()\<close> gives, how many replies \<open>cache_recv\<close> takes, and the
  seconds since the start when the turn is over.
\<close>

record turn =
  rands :: "nat \<times> nat \<times> nat \<times> nat"
  replies :: nat
  elapsed :: int

text \<open>The delay \<open>rand() % (2*avg_wait_time)\<close>.\<close>

definition next_delay :: "u64 \<Rightarrow> nat \<Rightarrow> nat c_result" where
  "next_delay avg r = (if 2 * avg = 0 then Inl Division_By_Zero else Inr (r mod unat (2 * avg)))"

text \<open>
  The loop runs while at most 30 seconds have passed; the counters of messages sent and
  received are 64-bit. \<open>ts\<close> are the turns the clock allows.
\<close>

fun main_loop ::
  "(byte list \<Rightarrow> int) \<Rightarrow> u64 \<Rightarrow> int \<Rightarrow> turn list \<Rightarrow> workload \<times> u64 \<times> u64 \<Rightarrow>
   (workload \<times> u64 \<times> u64) c_result" where
  "main_loop nn_send avg now [] st = Inr st"
| "main_loop nn_send avg now (t # ts) (w, sends, recvs) =
     (if now > 30 then Inr (w, sends, recvs)
      else
        case rands t of
          (r0, r1, r2, r3) \<Rightarrow>
            (case send_request nn_send r0 r1 r2 w of
               Inl f \<Rightarrow> Inl f
             | Inr w \<Rightarrow>
                 (case next_delay avg r3 of
                    Inl f \<Rightarrow> Inl f
                  | Inr d \<Rightarrow>
                      main_loop nn_send avg (elapsed t) ts
                        (w, sends + 1, recvs + of_nat (replies t)))))"

section \<open>Sizes\<close>

lemma sim_size_Some: "\<exists>sz. sim_size roll r = Some sz \<and> 2 \<le> sz \<and> sz \<le> 2 ^ 20 - 11"
proof -
  have "r mod 3 = 0 \<or> r mod 3 = 1 \<or> r mod 3 = 2" by auto
  moreover have "r mod (2 ^ 20 - 1010) \<le> 2 ^ 20 - 1011"
    using mod_less_divisor [of "2 ^ 20 - 1010" r] by simp
  moreover have "r mod 500 < 500" "r mod 400 < 400" "r mod 88 < 88" "r mod 6 < 6" by simp_all
  ultimately show ?thesis by (auto simp: sim_size_def)
qed

lemma key_printf_short: "unat n < 10 ^ 19 \<Longrightarrow> key_printf n = Inr (decimal (unat n))"
  using length_decimal_le [of "unat n" 19] by (simp add: key_printf_def strlen_def)

definition buffer_clean :: "workload \<Rightarrow> bool" where
  "buffer_clean w \<longleftrightarrow> val_ls w = replicate (2 ^ 20) filler"

lemma filler_string: "cstring_ok (replicate n filler)"
  by (simp add: cstring_ok_def filler_def)

lemma cut_value:
  assumes "sz < n"
  shows "cstr ((replicate n filler)[sz := NUL]) = replicate sz filler"
proof -
  have "(replicate n filler)[sz := NUL] = replicate sz filler @ NUL # replicate (n - Suc sz) filler"
    using assms by (simp add: upd_conv_take_nth_drop min_absorb1)
  then show ?thesis by (simp only: cstr_terminated [OF filler_string])
qed

lemma client_set_cut:
  assumes sz: "sz < 2 ^ 20" and k: "cstring_ok k"
    and line: "line = ''PUT /'' @ k @ ''/'' @ replicate sz filler"
  shows "client_set nn_send c k ((replicate (2 ^ 20) filler)[sz := NUL]) (sz + 1) =
    (if buffer_size < length k + sz + 7 then Inl Out_Of_Bounds
     else if nn_send (line @ [NUL]) > 0
     then Inr (0, c\<lparr>buffer := line @ NUL # drop (length line + 1) (buffer c), out := out c @ [line @ [NUL]]\<rparr>)
     else Inl Assertion)"
proof -
  have "((replicate (2 ^ 20) filler)[sz := NUL]) ! (sz + 1 - 1) = NUL" using sz by simp
  from client_set_text [OF _ _ this k, of line nn_send c] sz line cut_value [OF sz] show ?thesis
    by simp
qed

section \<open>What the generator sends\<close>

text \<open>
  A set of the workload generator, for key numbers below 10000: it sends one PUT
  request with the decimal key and a value of between 2 and 2^20 - 11 filler bytes, stays
  inside the client's buffer, and leaves the array of filler bytes as it was.
\<close>

theorem sim_set_sends:
  assumes "buffer_clean w" and "unat key_num < 10 ^ 4" and "\<forall>m. nn_send m > 0"
  shows "\<exists>w' sz. sim_set nn_send r1 r2 key_num w = Inr w' \<and> buffer_clean w' \<and> set_count w' = set_count w
           \<and> 2 \<le> sz \<and> sz \<le> 2 ^ 20 - 11
           \<and> out (wclient w') = out (wclient w)
               @ [''PUT /'' @ decimal (unat key_num) @ ''/'' @ replicate sz filler @ [NUL]]"
proof -
  define k where "k = decimal (unat key_num)"
  from sim_size_Some obtain sz where sz: "sim_size (r1 mod 500) r2 = Some sz" "2 \<le> sz" "sz \<le> 2 ^ 20 - 11"
    by blast
  have k: "cstring_ok k" "length k \<le> 4" "key_printf key_num = Inr k"
    using length_decimal_le [OF assms(2)] key_printf_short [of key_num] assms(2) by (simp_all add: k_def)
  have lt: "sz < 2 ^ 20" "length k + sz + 7 \<le> buffer_size"
    using sz(3) k(2) by (simp_all add: buffer_size_def)
  let ?line = "''PUT /'' @ k @ ''/'' @ replicate sz filler"
  have "(replicate (2 ^ 20) filler)[sz := NUL, sz := filler] = replicate (2 ^ 20) filler"
    by (metis list_update_id list_update_overwrite lt(1) nth_replicate)
  with client_set_cut [OF lt(1) k(1) refl, of nn_send "wclient w"] lt sz assms(1,3)
  show ?thesis
    by (intro exI [of _ "w\<lparr>wclient := (wclient w)\<lparr>
          buffer := ?line @ NUL # drop (length ?line + 1) (buffer (wclient w)),
          out := out (wclient w) @ [?line @ [NUL]]\<rparr>\<rparr>"] exI [of _ sz])
      (simp add: sim_set_def k(3) buffer_clean_def k_def Let_def)
qed

definition idle_workload :: workload where
  "idle_workload = \<lparr>wclient = \<lparr>sock = 0, buffer = [], out = []\<rparr>, val_ls = replicate (2 ^ 20) filler, set_count = 1\<rparr>"

theorem sim_set_sends_witness:
  "\<exists>w'. sim_set (\<lambda>m. 1) 300 2 7 idle_workload = Inr w' \<and> buffer_clean w'"
  using sim_set_sends [of idle_workload 7 "\<lambda>m. 1" 300 2]
  by (auto simp: buffer_clean_def idle_workload_def)

text \<open>
  From key number 10000 on, the largest value the generator can draw overruns the
  client's 1 MB message buffer.
\<close>

theorem sim_set_overruns:
  assumes "buffer_clean w" and "10 ^ 4 \<le> unat key_num" and "unat key_num < 10 ^ 19"
    and "r1 mod 500 = 0" and "r2 mod (2 ^ 20 - 1010) = 2 ^ 20 - 1011"
  shows "sim_set nn_send r1 r2 key_num w = Inl Out_Of_Bounds"
proof -
  define k where "k = decimal (unat key_num)"
  have k: "cstring_ok k" "4 < length k" "key_printf key_num = Inr k"
    using length_decimal_ge [OF assms(2)] key_printf_short [OF assms(3)] by (simp_all add: k_def)
  have sz: "sim_size (r1 mod 500) r2 = Some (2 ^ 20 - 11)"
    using assms(4,5) by (simp add: sim_size_def)
  have "(2 :: nat) ^ 20 - 11 < 2 ^ 20" by simp
  from client_set_cut [OF this k(1) refl, of nn_send "wclient w"] k(2)
  have "client_set nn_send (wclient w) k ((replicate (2 ^ 20) filler)[2 ^ 20 - 11 := NUL]) (2 ^ 20 - 11 + 1) =
      Inl Out_Of_Bounds"
    by (simp add: buffer_size_def)
  then show ?thesis
    using assms(1) unfolding sim_set_def Let_def k(3) sz by (simp add: buffer_clean_def)
qed

theorem sim_set_overruns_witness:
  "sim_set (\<lambda>m. 1) 0 (2 ^ 20 - 1011) 10000 idle_workload = Inl Out_Of_Bounds"
  by (rule sim_set_overruns) (simp_all add: buffer_clean_def idle_workload_def)

text \<open>Two draws tell the branches apart.\<close>

lemma rolls_of_size:
  assumes "\<And>roll r. roll \<in> R \<Longrightarrow> \<exists>sz \<in> S. sim_size roll r = Some sz" and "R \<subseteq> {..<500}"
    and "\<And>roll. roll < 500 \<Longrightarrow> the (sim_size roll 0) \<in> S \<Longrightarrow> the (sim_size roll 1) \<in> S \<Longrightarrow> roll \<in> R"
  shows "{roll. roll < 500 \<and> (\<forall>r. \<exists>sz \<in> S. sim_size roll r = Some sz)} = R"
proof (intro equalityI subsetI)
  fix roll
  assume "roll \<in> {roll. roll < 500 \<and> (\<forall>r. \<exists>sz \<in> S. sim_size roll r = Some sz)}"
  then show "roll \<in> R" by (intro assms(3)) (auto dest: spec [of _ 0] spec [of _ 1])
next
  fix roll
  assume "roll \<in> R"
  with assms(1,2) show "roll \<in> {roll. roll < 500 \<and> (\<forall>r. \<exists>sz \<in> S. sim_size roll r = Some sz)}" by auto
qed

text \<open>
  The shares of the size classes among the 500 rolls: 40% of the values have 101
  to 500 bytes, 44.8% have 2, 3 or 11 bytes, and 5% have 501 to 1000 bytes, where the comment
  and the README say 45%, 40% and 4.8%.
\<close>

theorem roll_distribution:
  "card {roll. roll < 500 \<and> (\<forall>r. \<exists>sz \<in> {101..500}. sim_size roll r = Some sz)} = 200
   \<and> card {roll. roll < 500 \<and> (\<forall>r. \<exists>sz \<in> {2, 3, 11}. sim_size roll r = Some sz)} = 224
   \<and> card {roll. roll < 500 \<and> (\<forall>r. \<exists>sz \<in> {501..1000}. sim_size roll r = Some sz)} = 25"
proof -
  have "{roll. roll < 500 \<and> (\<forall>r. \<exists>sz \<in> {101..500}. sim_size roll r = Some sz)} = {26..225}"
    by (rule rolls_of_size) (auto simp: sim_size_def split: if_splits)
  moreover have "{roll. roll < 500 \<and> (\<forall>r. \<exists>sz \<in> {2, 3, 11}. sim_size roll r = Some sz)} = {276..499}"
    by (rule rolls_of_size) (auto simp: sim_size_def split: if_splits)
  moreover have "{roll. roll < 500 \<and> (\<forall>r. \<exists>sz \<in> {501..1000}. sim_size roll r = Some sz)} = {1..25}"
    by (rule rolls_of_size) (auto simp: sim_size_def split: if_splits)
  ultimately show ?thesis by simp
qed

text \<open>
  With an average wait of 0 microseconds the first turn of the main loop divides
  by zero when it draws the next delay.
\<close>

theorem zero_wait_faults:
  assumes "now \<le> 30" and "2 * avg = 0"
  shows "\<exists>f. main_loop nn_send avg now (t # ts) (w, sends, recvs) = Inl f"
  using assms by (auto simp: next_delay_def split: prod.splits sum.splits)

theorem zero_wait_faults_witness:
  "\<exists>f. main_loop (\<lambda>m. 1) 0 0 [\<lparr>rands = (1, 1, 1, 1), replies = 0, elapsed = 1\<rparr>] (idle_workload, 0, 0) = Inl f"
  using zero_wait_faults [of 0 0 "\<lambda>m. 1" "\<lparr>rands = (1, 1, 1, 1), replies = 0, elapsed = 1\<rparr>" "[]" idle_workload 0 0]
  by simp

end
