(* ===== verification/Printing.thy ===== *)
theory Printing
  imports Cache Clib
begin

text \<open>
  The functions that print the state of the slabs and of the table, as the text they write.
\<close>

definition newline :: cstring where
  "newline = [CHR 0x0A]"

text \<open>The loop runs over \<open>i = 31, ..., 0\<close> and prints bit \<open>i\<close>.\<close>

definition bit_string :: "u32 \<Rightarrow> cstring" where
  "bit_string bits = concat (map (\<lambda>i. decimal (if bits AND push_bit i 1 \<noteq> 0 then 1 else 0)) (rev [0..<32]))"

definition print_slab :: "slab \<Rightarrow> cstring" where
  "print_slab s =
     ''Class '' @ decimal (sclass s) @ '', status '' @ bit_string (status s ! 0) @ '' ... ''
     @ bit_string (status s ! 511) @ newline"

definition print_slabs :: "manager \<Rightarrow> cstring" where
  "print_slabs man =
     ''Man has '' @ decimal (unat (num_slabs man)) @ '' slabs:'' @ newline
     @ concat (map print_slab (slabs man))"

definition print_cache :: "cache_obj \<Rightarrow> cstring" where
  "print_cache c = print_slabs (slab_manager c)"

definition print_meta :: "meta_obj \<Rightarrow> cstring" where
  "print_meta m = ''(k: '' @ meta_str m @ '', t: '' @ decimal (unat (timer m)) @ '') ''"

definition print_buckets :: "cache_obj \<Rightarrow> cstring" where
  "print_buckets c =
     concat (map (\<lambda>i. ''Bucket '' @ decimal i @ '': '' @ concat (map print_meta (buckets c ! i)) @ ''NULL.'' @ newline)
       [0..<num_buckets c])"

lemma decimal_bit: "decimal (if b then 1 else 0) = [if b then CHR ''1'' else CHR ''0'']"
  by (simp add: decimal.simps digit_def char_of_def bit_Suc_0_iff)

lemma and_push_bit: "(w AND push_bit i 1 \<noteq> 0) = bit w i" if "i < 32" for w :: u32
proof -
  have "w AND push_bit i 1 = (if bit w i then push_bit i 1 else 0)"
    by (rule bit_word_eqI) (auto simp: bit_simps)
  with that show ?thesis by simp
qed

text \<open>
  \<open>bit_string\<close> prints 32 characters, the most significant bit first: the
  character at position \<open>i\<close> is 1 exactly if bit \<open>31 - i\<close> is set, that is, if the slab entry
  \<open>i\<close> of that status word is in use.
\<close>

theorem bit_string_bits:
  "length (bit_string w) = 32
   \<and> (\<forall>i < 32. bit_string w ! i = (if bit w (31 - i) then CHR ''1'' else CHR ''0''))"
proof -
  have "bit_string w = map (\<lambda>i. if bit w i then CHR ''1'' else CHR ''0'') (rev [0..<32])"
    unfolding bit_string_def decimal_bit concat_map_singleton
  proof (rule map_cong)
    fix i
    assume "i \<in> set (rev [0..<32])"
    then have "i < 32" by simp
    then show "(if w AND push_bit i 1 \<noteq> 0 then CHR ''1'' else CHR ''0'') =
        (if bit w i then CHR ''1'' else CHR ''0'')"
      by (simp only: and_push_bit)
  qed simp
  then show ?thesis by (simp add: rev_nth)
qed

theorem bit_string_bits_witness: "bit_string 1 ! 31 = CHR ''1''"
  using bit_string_bits [of 1] by simp

end
