(* ===== verification/Nn_Queue.thy ===== *)
theory Nn_Queue
  imports Prelude
begin

text \<open>
  The intrusive queue of \<open>nanomsg/src/utils/queue.c\<close>, with its pointers: an item is an address
  whose \<open>next\<close> field is in the memory \<open>h\<close>. \<open>Not_In_Queue\<close> is the pointer \<open>-1\<close> that marks an
  item outside every queue.
\<close>

section \<open>Data and operations\<close>

datatype qlink = Not_In_Queue | Next "addr option"

type_synonym qitems = "addr \<Rightarrow> qlink"

record nn_queue =
  qhead :: "addr option"
  qtail :: "addr option"

definition nn_queue_init :: nn_queue where
  "nn_queue_init = \<lparr>qhead = None, qtail = None\<rparr>"

definition nn_queue_term :: "nn_queue \<Rightarrow> nn_queue" where
  "nn_queue_term q = \<lparr>qhead = None, qtail = None\<rparr>"

definition nn_queue_empty :: "nn_queue \<Rightarrow> bool" where
  "nn_queue_empty q \<longleftrightarrow> qhead q = None"

definition nn_queue_push :: "qitems \<Rightarrow> nn_queue \<Rightarrow> addr \<Rightarrow> (qitems \<times> nn_queue) c_result" where
  "nn_queue_push h q item =
     (if h item \<noteq> Not_In_Queue then Inl Assertion
      else
        let h = h(item := Next None);
            q = (if qhead q = None then q\<lparr>qhead := Some item\<rparr> else q);
            h = (case qtail q of None \<Rightarrow> h | Some t \<Rightarrow> h(t := Next (Some item)))
        in Inr (h, q\<lparr>qtail := Some item\<rparr>))"

text \<open>
  The loop of \<open>nn_queue_remove\<close>. \<open>None\<close>: the loop does not end, or follows the pointer \<open>-1\<close>.
\<close>

partial_function (option) nn_queue_remove_loop ::
  "qitems \<Rightarrow> nn_queue \<Rightarrow> addr \<Rightarrow> addr option \<Rightarrow> addr option \<Rightarrow> (qitems \<times> nn_queue) option" where
  "nn_queue_remove_loop h q item prev it =
     (case it of
        None \<Rightarrow> Some (h, q)
      | Some i \<Rightarrow>
          (case h i of
             Not_In_Queue \<Rightarrow> None
           | Next n \<Rightarrow>
               if i = item then
                 (let q = (if qhead q = Some i then q\<lparr>qhead := n\<rparr> else q);
                      q = (if qtail q = Some i then q\<lparr>qtail := prev\<rparr> else q);
                      h = (case prev of None \<Rightarrow> h | Some p \<Rightarrow> h(p := Next n))
                  in Some (h(item := Not_In_Queue), q))
               else nn_queue_remove_loop h q item it n))"

definition nn_queue_remove :: "qitems \<Rightarrow> nn_queue \<Rightarrow> addr \<Rightarrow> (qitems \<times> nn_queue) option" where
  "nn_queue_remove h q item =
     (if h item = Not_In_Queue then Some (h, q)
      else nn_queue_remove_loop h q item None (qhead q))"

definition nn_queue_pop :: "qitems \<Rightarrow> nn_queue \<Rightarrow> (addr option \<times> qitems \<times> nn_queue) c_result" where
  "nn_queue_pop h q =
     (case qhead q of
        None \<Rightarrow> Inr (None, h, q)
      | Some result \<Rightarrow>
          (case h result of
             Not_In_Queue \<Rightarrow> Inl Null_Pointer
           | Next n \<Rightarrow>
               (let q = q\<lparr>qhead := n\<rparr>;
                    q = (if qhead q = None then q\<lparr>qtail := None\<rparr> else q)
                in Inr (Some result, h(result := Not_In_Queue), q))))"

definition nn_queue_item_init :: "qitems \<Rightarrow> addr \<Rightarrow> qitems" where
  "nn_queue_item_init h item = h(item := Not_In_Queue)"

definition nn_queue_item_term :: "qitems \<Rightarrow> addr \<Rightarrow> unit c_result" where
  "nn_queue_item_term h item = (if h item = Not_In_Queue then Inr () else Inl Assertion)"

definition nn_queue_item_isinqueue :: "qitems \<Rightarrow> addr \<Rightarrow> bool" where
  "nn_queue_item_isinqueue h item \<longleftrightarrow> h item \<noteq> Not_In_Queue"

section \<open>The list a queue holds\<close>

fun qchain :: "qitems \<Rightarrow> addr option \<Rightarrow> addr list \<Rightarrow> addr option \<Rightarrow> bool" where
  "qchain h p [] r \<longleftrightarrow> p = r"
| "qchain h p (x # xs) r \<longleftrightarrow> p = Some x \<and> (case h x of Not_In_Queue \<Rightarrow> False | Next n \<Rightarrow> qchain h n xs r)"

definition queue_rep :: "qitems \<Rightarrow> nn_queue \<Rightarrow> addr list \<Rightarrow> bool" where
  "queue_rep h q xs \<longleftrightarrow>
     qchain h (qhead q) xs None \<and> distinct xs \<and> qtail q = (if xs = [] then None else Some (last xs))"

lemma qchain_append: "qchain h p (xs @ ys) r \<longleftrightarrow> (\<exists>m. qchain h p xs m \<and> qchain h m ys r)"
  by (induction xs arbitrary: p) (auto split: qlink.splits)

lemma qchain_frame: "a \<notin> set xs \<Longrightarrow> qchain (h(a := v)) p xs r \<longleftrightarrow> qchain h p xs r"
  by (induction xs arbitrary: p) (auto split: qlink.splits)

lemma qchain_linked: "qchain h p xs r \<Longrightarrow> x \<in> set xs \<Longrightarrow> h x \<noteq> Not_In_Queue"
  by (induction xs arbitrary: p) (auto split: qlink.splits)

lemma queue_rep_init: "queue_rep h nn_queue_init []"
  by (simp add: queue_rep_def nn_queue_init_def)

lemma nn_queue_push_rep:
  assumes rep: "queue_rep h q xs" and new: "h item = Not_In_Queue"
  shows "\<exists>h' q'. nn_queue_push h q item = Inr (h', q') \<and> queue_rep h' q' (xs @ [item])
           \<and> (\<forall>a. a \<notin> set xs \<and> a \<noteq> item \<longrightarrow> h' a = h a)"
proof -
  have ni: "item \<notin> set xs" using rep new by (auto simp: queue_rep_def dest: qchain_linked)
  show ?thesis
  proof (cases xs rule: rev_cases)
    case Nil
    with rep new show ?thesis by (simp add: nn_queue_push_def queue_rep_def Let_def)
  next
    case (snoc ys t)
    have t: "t \<noteq> item" "t \<notin> set ys" using ni rep snoc by (auto simp: queue_rep_def)
    from rep snoc have ch: "qchain h (qhead q) ys (Some t)" "h t = Next None" "qhead q \<noteq> None"
      by (auto simp: queue_rep_def qchain_append split: qlink.splits) (cases ys; auto)
    let ?h = "(h(item := Next None))(t := Next (Some item))"
    have "qchain ?h (qhead q) ys (Some t)"
      using ch(1) ni t snoc by (simp add: qchain_frame)
    then have "qchain ?h (qhead q) (xs @ [item]) None"
      using t snoc by (auto simp: qchain_append)
    with rep new snoc ch(3) ni show ?thesis
      by (auto simp: nn_queue_push_def queue_rep_def Let_def)
  qed
qed

lemma nn_queue_pop_rep:
  assumes rep: "queue_rep h q xs"
  shows "case xs of
           [] \<Rightarrow> nn_queue_pop h q = Inr (None, h, q)
         | x # ys \<Rightarrow> \<exists>q'. nn_queue_pop h q = Inr (Some x, h(x := Not_In_Queue), q')
                       \<and> queue_rep (h(x := Not_In_Queue)) q' ys"
proof (cases xs)
  case Nil
  with rep show ?thesis by (simp add: queue_rep_def nn_queue_pop_def)
next
  case (Cons x ys)
  then obtain n where n: "h x = Next n" "qchain h n ys None" "qhead q = Some x" "x \<notin> set ys" "distinct ys"
    using rep by (auto simp: queue_rep_def split: qlink.splits)
  then have "qchain (h(x := Not_In_Queue)) n ys None" by (simp add: qchain_frame)
  moreover have "n = None \<longleftrightarrow> ys = []" using n(2) by (cases ys) auto
  ultimately show ?thesis
    using Cons rep n by (auto simp: nn_queue_pop_def queue_rep_def Let_def)
qed

lemma nn_queue_remove_first:
  assumes rep: "queue_rep h q (i # post)"
  shows "\<exists>h' q'. nn_queue_remove_loop h q i None (Some i) = Some (h', q') \<and> queue_rep h' q' post
           \<and> h' i = Not_In_Queue \<and> (\<forall>a. a \<notin> set (i # post) \<longrightarrow> h' a = h a)"
proof -
  obtain n where n: "h i = Next n" "qchain h n post None" "qhead q = Some i" "i \<notin> set post"
    using rep by (auto simp: queue_rep_def split: qlink.splits)
  moreover have "post \<noteq> [] \<Longrightarrow> last post \<noteq> i" using n(4) by (metis last_in_set)
  ultimately show ?thesis using rep
    by (subst nn_queue_remove_loop.simps) (auto simp: queue_rep_def Let_def qchain_frame)
qed

lemma nn_queue_remove_later:
  assumes rep: "queue_rep h q (ps @ p # i # post)"
  shows "\<exists>h' q'. nn_queue_remove_loop h q i (Some p) (Some i) = Some (h', q')
           \<and> queue_rep h' q' (ps @ p # post) \<and> h' i = Not_In_Queue
           \<and> (\<forall>a. a \<notin> set (ps @ p # i # post) \<longrightarrow> h' a = h a)"
proof -
  obtain n where n: "h i = Next n" "qchain h n post None" "h p = Next (Some i)" "qchain h (qhead q) ps (Some p)"
    using rep by (auto simp: queue_rep_def qchain_append split: qlink.splits)
  have fresh: "i \<notin> set ps" "i \<noteq> p" "i \<notin> set post" "p \<notin> set ps" "p \<notin> set post"
    using rep by (auto simp: queue_rep_def)
  have hd: "qhead q \<noteq> Some i" using n(4) fresh by (cases ps) auto
  let ?h = "(h(p := Next n))(i := Not_In_Queue)"
  have "qchain ?h n post None" "qchain ?h (qhead q) ps (Some p)"
    using n fresh by (simp_all add: qchain_frame)
  then have "qchain ?h (qhead q) (ps @ p # post) None"
    using fresh by (auto simp: qchain_append)
  with rep n fresh hd show ?thesis
    by (subst nn_queue_remove_loop.simps) (auto simp: queue_rep_def Let_def)
qed

lemma nn_queue_remove_walk:
  assumes "qchain h p (suf @ [i]) n" and "i \<notin> set suf"
  shows "nn_queue_remove_loop h q i prev p
       = nn_queue_remove_loop h q i (if suf = [] then prev else Some (last suf)) (Some i)"
  using assms
proof (induction suf arbitrary: p prev)
  case (Cons y suf)
  then show ?case
    by (subst nn_queue_remove_loop.simps) (auto split: qlink.splits)
qed simp

lemma nn_queue_remove_absent:
  "qchain h p xs None \<Longrightarrow> i \<notin> set xs \<Longrightarrow> nn_queue_remove_loop h q i prev p = Some (h, q)"
proof (induction xs arbitrary: p prev)
  case (Cons y xs)
  then show ?case
    by (subst nn_queue_remove_loop.simps) (auto split: qlink.splits)
qed (simp add: nn_queue_remove_loop.simps)

lemma nn_queue_remove_rep:
  assumes rep: "queue_rep h q xs"
  shows "\<exists>h' q'. nn_queue_remove h q i = Some (h', q') \<and> queue_rep h' q' (remove1 i xs)
           \<and> (i \<in> set xs \<longrightarrow> h' i = Not_In_Queue) \<and> (\<forall>a. a \<notin> set xs \<longrightarrow> h' a = h a)"
proof (cases "i \<in> set xs")
  case True
  then obtain ys post where xs: "xs = ys @ i # post" and ni: "i \<notin> set ys"
    by (meson split_list_first)
  have linked: "h i \<noteq> Not_In_Queue"
    using rep True by (auto simp: queue_rep_def dest: qchain_linked)
  have "\<exists>m. qchain h (qhead q) (ys @ [i]) m"
    using rep xs by (auto simp: queue_rep_def qchain_append split: qlink.splits)
  then obtain m where "qchain h (qhead q) (ys @ [i]) m" ..
  note walk = nn_queue_remove_walk [OF this ni, of q None]
  have r1: "remove1 i xs = ys @ post" using xs ni by (simp add: remove1_append)
  show ?thesis
  proof (cases ys rule: rev_cases)
    case Nil
    with nn_queue_remove_first [of h q i post] rep xs walk linked r1 show ?thesis
      by (auto simp: nn_queue_remove_def)
  next
    case (snoc ps p)
    with nn_queue_remove_later [of h q ps p i post] rep xs walk linked r1 show ?thesis
      by (auto simp: nn_queue_remove_def)
  qed
next
  case False
  with rep have "nn_queue_remove h q i = Some (h, q)"
    by (auto simp: nn_queue_remove_def queue_rep_def intro: nn_queue_remove_absent)
  with False rep show ?thesis by (simp add: remove1_idem)
qed

section \<open>The contract of a queue\<close>

text \<open>
  What users of the queue (workers, timer sets, event lists) rely on: \<open>push\<close> appends a free item,
  \<open>pop\<close> takes the first one.
\<close>

locale fifo_queue =
  fixes rep :: "'s \<Rightarrow> 'a list \<Rightarrow> bool"
    and free_item :: "'s \<Rightarrow> 'a \<Rightarrow> bool"
    and push :: "'s \<Rightarrow> 'a \<Rightarrow> 's c_result"
    and pop :: "'s \<Rightarrow> ('a option \<times> 's) c_result"
  assumes push_law: "rep s xs \<Longrightarrow> free_item s x \<Longrightarrow>
      \<exists>s'. push s x = Inr s' \<and> rep s' (xs @ [x]) \<and> (\<forall>y. y \<notin> set xs \<and> y \<noteq> x \<longrightarrow> free_item s' y = free_item s y)"
    and pop_law: "rep s (x # xs) \<Longrightarrow> \<exists>s'. pop s = Inr (Some x, s') \<and> rep s' xs"
    and pop_empty: "rep s [] \<Longrightarrow> pop s = Inr (None, s)"
    and free_outside: "rep s xs \<Longrightarrow> x \<in> set xs \<Longrightarrow> \<not> free_item s x"
begin

fun push_all :: "'s \<Rightarrow> 'a list \<Rightarrow> 's c_result" where
  "push_all s [] = Inr s"
| "push_all s (x # xs) = (case push s x of Inl e \<Rightarrow> Inl e | Inr s' \<Rightarrow> push_all s' xs)"

fun pop_times :: "nat \<Rightarrow> 's \<Rightarrow> ('a option list \<times> 's) c_result" where
  "pop_times 0 s = Inr ([], s)"
| "pop_times (Suc n) s =
     (case pop s of Inl e \<Rightarrow> Inl e
      | Inr (r, s') \<Rightarrow> (case pop_times n s' of Inl e \<Rightarrow> Inl e | Inr (rs, s'') \<Rightarrow> Inr (r # rs, s'')))"

lemma push_all_rep:
  "rep s xs \<Longrightarrow> distinct ys \<Longrightarrow> \<forall>y\<in>set ys. free_item s y \<Longrightarrow> \<exists>s'. push_all s ys = Inr s' \<and> rep s' (xs @ ys)"
proof (induction ys arbitrary: s xs)
  case (Cons y ys)
  from push_law [OF Cons.prems(1), of y] Cons.prems(3) obtain s' where
    s': "push s y = Inr s'" "rep s' (xs @ [y])"
        "\<forall>z. z \<notin> set xs \<and> z \<noteq> y \<longrightarrow> free_item s' z = free_item s z" by auto
  have "\<forall>z\<in>set ys. free_item s' z"
    using s'(3) Cons.prems free_outside [OF Cons.prems(1)] by auto
  with Cons.IH [OF s'(2)] Cons.prems(2) s'(1) show ?case by simp
qed simp

lemma pop_times_rep:
  "rep s (xs @ ys) \<Longrightarrow> \<exists>s'. pop_times (length xs) s = Inr (map Some xs, s') \<and> rep s' ys"
proof (induction xs arbitrary: s)
  case (Cons x xs)
  from pop_law [of s x "xs @ ys"] Cons.prems obtain s' where "pop s = Inr (Some x, s')" "rep s' (xs @ ys)"
    by auto
  with Cons.IH show ?case by fastforce
qed simp

lemma first_in_first_out:
  assumes "rep s []" and "distinct ys" and "\<forall>y\<in>set ys. free_item s y"
  shows "\<exists>s1 s2. push_all s ys = Inr s1 \<and> pop_times (length ys) s1 = Inr (map Some ys, s2) \<and> pop s2 = Inr (None, s2)"
  using push_all_rep [OF assms] pop_times_rep [of _ ys "[]"] pop_empty by fastforce

end

interpretation nnq: fifo_queue
  "\<lambda>(h, q). queue_rep h q" "\<lambda>(h, q) x. h x = Not_In_Queue"
  "\<lambda>(h, q). nn_queue_push h q" "\<lambda>(h, q). nn_queue_pop h q"
proof
  fix s xs x
  assume "(case s of (h, q) \<Rightarrow> queue_rep h q) xs" "(case s of (h, q) \<Rightarrow> \<lambda>x. h x = Not_In_Queue) x"
  then show "\<exists>s'. (case s of (h, q) \<Rightarrow> nn_queue_push h q) x = Inr s'
     \<and> (case s' of (h, q) \<Rightarrow> queue_rep h q) (xs @ [x])
     \<and> (\<forall>y. y \<notin> set xs \<and> y \<noteq> x \<longrightarrow> (case s' of (h, q) \<Rightarrow> \<lambda>x. h x = Not_In_Queue) y
            = (case s of (h, q) \<Rightarrow> \<lambda>x. h x = Not_In_Queue) y)"
    using nn_queue_push_rep [of "fst s" "snd s" xs x] by (fastforce split: prod.splits)
next
  fix s x xs
  assume "(case s of (h, q) \<Rightarrow> queue_rep h q) (x # xs)"
  then show "\<exists>s'. (case s of (h, q) \<Rightarrow> nn_queue_pop h q) = Inr (Some x, s') \<and> (case s' of (h, q) \<Rightarrow> queue_rep h q) xs"
    using nn_queue_pop_rep [of "fst s" "snd s" "x # xs"] by (fastforce split: prod.splits)
next
  fix s
  assume "(case s of (h, q) \<Rightarrow> queue_rep h q) []"
  then show "(case s of (h, q) \<Rightarrow> nn_queue_pop h q) = Inr (None, s)"
    using nn_queue_pop_rep [of "fst s" "snd s" "[]"] by (auto split: prod.splits)
next
  fix s xs x
  assume "(case s of (h, q) \<Rightarrow> queue_rep h q) xs" "x \<in> set xs"
  then show "\<not> (case s of (h, q) \<Rightarrow> \<lambda>x. h x = Not_In_Queue) x"
    by (auto simp: queue_rep_def dest: qchain_linked split: prod.splits)
qed

lemma nn_queue_fifo:
  assumes "distinct ys" and "\<forall>y\<in>set ys. h y = Not_In_Queue"
  shows "\<exists>s1 s2. nnq.push_all (h, nn_queue_init) ys = Inr s1
           \<and> nnq.pop_times (length ys) s1 = Inr (map Some ys, s2)"
  using nnq.first_in_first_out [of "(h, nn_queue_init)" ys] assms queue_rep_init by fastforce

section \<open>Properties\<close>

text \<open>
  The pointer operations of the queue implement a list: pushing a free item appends it,
  popping takes the first item and frees it, and removing an item ends, takes exactly that item out
  wherever it stands, and leaves the items of other queues alone.
\<close>
theorem nn_queue_refines:
  assumes "queue_rep h q xs"
  shows "(h item = Not_In_Queue \<longrightarrow>
            (\<exists>h' q'. nn_queue_push h q item = Inr (h', q') \<and> queue_rep h' q' (xs @ [item])))
       \<and> (h item \<noteq> Not_In_Queue \<longrightarrow> nn_queue_push h q item = Inl Assertion)
       \<and> (\<exists>h' q'. nn_queue_pop h q = Inr (if xs = [] then None else Some (hd xs), h', q')
             \<and> queue_rep h' q' (tl xs) \<and> (xs \<noteq> [] \<longrightarrow> h' (hd xs) = Not_In_Queue))
       \<and> (\<exists>h' q'. nn_queue_remove h q item = Some (h', q') \<and> queue_rep h' q' (remove1 item xs)
             \<and> (\<forall>a. a \<notin> set xs \<longrightarrow> h' a = h a))
       \<and> (nn_queue_empty q \<longleftrightarrow> xs = [])"
proof (intro conjI impI)
  show "\<exists>h' q'. nn_queue_push h q item = Inr (h', q') \<and> queue_rep h' q' (xs @ [item])"
    if "h item = Not_In_Queue" using nn_queue_push_rep [OF assms that] by blast
  show "nn_queue_push h q item = Inl Assertion" if "h item \<noteq> Not_In_Queue"
    using that by (simp add: nn_queue_push_def)
  show "\<exists>h' q'. nn_queue_pop h q = Inr (if xs = [] then None else Some (hd xs), h', q')
     \<and> queue_rep h' q' (tl xs) \<and> (xs \<noteq> [] \<longrightarrow> h' (hd xs) = Not_In_Queue)"
    using nn_queue_pop_rep [OF assms] assms by (cases xs) auto
  show "\<exists>h' q'. nn_queue_remove h q item = Some (h', q') \<and> queue_rep h' q' (remove1 item xs)
     \<and> (\<forall>a. a \<notin> set xs \<longrightarrow> h' a = h a)"
    using nn_queue_remove_rep [OF assms] by blast
  show "nn_queue_empty q \<longleftrightarrow> xs = []"
    using assms by (cases xs) (auto simp: nn_queue_empty_def queue_rep_def)
qed

text \<open>Two items pushed on a fresh queue, and the first one removed.\<close>
theorem nn_queue_refines_witness:
  "\<exists>h q. queue_rep h q [1, 2] \<and> (\<exists>h' q'. nn_queue_remove h q 1 = Some (h', q') \<and> queue_rep h' q' [2])"
proof -
  let ?h = "(\<lambda>a. if a = 1 then Next (Some 2) else if a = 2 then Next None else Not_In_Queue) :: qitems"
  let ?q = "\<lparr>qhead = Some 1, qtail = Some 2\<rparr>"
  have rep: "queue_rep ?h ?q [1, 2]" by (simp add: queue_rep_def)
  have "\<exists>h' q'. nn_queue_remove ?h ?q 1 = Some (h', q') \<and> queue_rep h' q' (remove1 1 [1, 2])"
    using nn_queue_refines [OF rep, of 1] by blast
  then have "\<exists>h' q'. nn_queue_remove ?h ?q 1 = Some (h', q') \<and> queue_rep h' q' [2]" by simp
  with rep show ?thesis by blast
qed

end
