(* ===== verification/Nn_List.thy ===== *)
theory Nn_List
  imports Prelude
begin

text \<open>
  The intrusive doubly linked list of \<open>nanomsg/src/utils/list.c\<close>, with its pointers: the fields
  \<open>prev\<close> and \<open>next\<close> of every item are in the memory \<open>h\<close>. \<open>Not_In_List\<close> is the pointer \<open>-1\<close>
  that marks an item outside every list; following it is a fault.
\<close>

section \<open>Data and operations\<close>

datatype llink = Not_In_List | Link "addr option"

record nn_list_item =
  lprev :: llink
  lnext :: llink

type_synonym list_items = "addr \<Rightarrow> nn_list_item"

record nn_list =
  lfirst :: "addr option"
  llast :: "addr option"

definition nn_list_init :: nn_list where
  "nn_list_init = \<lparr>lfirst = None, llast = None\<rparr>"

definition nn_list_term :: "nn_list \<Rightarrow> unit c_result" where
  "nn_list_term l = (if lfirst l \<noteq> None \<or> llast l \<noteq> None then Inl Assertion else Inr ())"

definition nn_list_empty :: "nn_list \<Rightarrow> bool" where
  "nn_list_empty l \<longleftrightarrow> lfirst l = None"

definition nn_list_begin :: "nn_list \<Rightarrow> addr option" where
  "nn_list_begin l = lfirst l"

definition nn_list_end :: "nn_list \<Rightarrow> addr option" where
  "nn_list_end l = None"

definition nn_list_prev :: "list_items \<Rightarrow> nn_list \<Rightarrow> addr option \<Rightarrow> addr option c_result" where
  "nn_list_prev h l it =
     (case it of
        None \<Rightarrow> Inr (llast l)
      | Some i \<Rightarrow> (case lprev (h i) of Not_In_List \<Rightarrow> Inl Assertion | Link p \<Rightarrow> Inr p))"

definition nn_list_next :: "list_items \<Rightarrow> addr \<Rightarrow> addr option c_result" where
  "nn_list_next h i = (case lnext (h i) of Not_In_List \<Rightarrow> Inl Assertion | Link n \<Rightarrow> Inr n)"

definition nn_list_item_init :: "list_items \<Rightarrow> addr \<Rightarrow> list_items" where
  "nn_list_item_init h item = h(item := \<lparr>lprev = Not_In_List, lnext = Not_In_List\<rparr>)"

definition nn_list_item_isinlist :: "list_items \<Rightarrow> addr \<Rightarrow> bool" where
  "nn_list_item_isinlist h item \<longleftrightarrow> lprev (h item) \<noteq> Not_In_List"

definition nn_list_item_term :: "list_items \<Rightarrow> addr \<Rightarrow> unit c_result" where
  "nn_list_item_term h item = (if nn_list_item_isinlist h item then Inl Assertion else Inr ())"

text \<open>The two assignments through a neighbour: \<open>if (w) w->next = m\<close> and \<open>if (m) m->prev = k\<close>.\<close>

fun set_next :: "list_items \<Rightarrow> addr option \<Rightarrow> addr option \<Rightarrow> list_items" where
  "set_next h None m = h"
| "set_next h (Some w) m = h(w := (h w)\<lparr>lnext := Link m\<rparr>)"

fun set_prev :: "list_items \<Rightarrow> addr option \<Rightarrow> addr option \<Rightarrow> list_items" where
  "set_prev h None k = h"
| "set_prev h (Some w) k = h(w := (h w)\<lparr>lprev := Link k\<rparr>)"

definition nn_list_insert ::
  "list_items \<Rightarrow> nn_list \<Rightarrow> addr \<Rightarrow> addr option \<Rightarrow> (list_items \<times> nn_list) c_result" where
  "nn_list_insert h l item it =
     (if nn_list_item_isinlist h item then Inl Assertion
      else
        (case (case it of None \<Rightarrow> Link (llast l) | Some i \<Rightarrow> lprev (h i)) of
           Not_In_List \<Rightarrow> Inl Null_Pointer
         | Link pv \<Rightarrow>
             let h = h(item := \<lparr>lprev = Link pv, lnext = Link it\<rparr>);
                 h = set_next h pv (Some item);
                 h = set_prev h it (Some item);
                 l = (if lfirst l = None \<or> lfirst l = it then l\<lparr>lfirst := Some item\<rparr> else l);
                 l = (if it = None then l\<lparr>llast := Some item\<rparr> else l)
             in Inr (h, l)))"

definition nn_list_erase ::
  "list_items \<Rightarrow> nn_list \<Rightarrow> addr \<Rightarrow> (addr option \<times> list_items \<times> nn_list) c_result" where
  "nn_list_erase h l item =
     (if \<not> nn_list_item_isinlist h item then Inl Assertion
      else
        (case (lprev (h item), lnext (h item)) of
           (Link pv, Link nx) \<Rightarrow>
             let l = (if pv = None then l\<lparr>lfirst := nx\<rparr> else l);
                 h = set_next h pv nx;
                 l = (if nx = None then l\<lparr>llast := pv\<rparr> else l);
                 h = set_prev h nx pv
             in Inr (nx, h(item := \<lparr>lprev = Not_In_List, lnext = Not_In_List\<rparr>), l)
         | _ \<Rightarrow> Inl Null_Pointer))"

section \<open>The list of items\<close>

text \<open>
  \<open>dseg h k p xs m e\<close>: from pointer \<open>p\<close>, whose item has predecessor \<open>k\<close>, the items \<open>xs\<close> lead to
  pointer \<open>m\<close>, and \<open>e\<close> is the last item before \<open>m\<close>.
\<close>

fun dseg :: "list_items \<Rightarrow> addr option \<Rightarrow> addr option \<Rightarrow> addr list \<Rightarrow> addr option \<Rightarrow> addr option \<Rightarrow> bool" where
  "dseg h k p [] m e \<longleftrightarrow> p = m \<and> e = k"
| "dseg h k p (x # xs) m e \<longleftrightarrow> p = Some x \<and> lprev (h x) = Link k
     \<and> (case lnext (h x) of Not_In_List \<Rightarrow> False | Link n \<Rightarrow> dseg h (Some x) n xs m e)"

definition list_rep :: "list_items \<Rightarrow> nn_list \<Rightarrow> addr list \<Rightarrow> bool" where
  "list_rep h l xs \<longleftrightarrow> dseg h None (lfirst l) xs None (llast l) \<and> distinct xs"

lemma dseg_append:
  "dseg h k p (xs @ ys) m e \<longleftrightarrow> (\<exists>q f. dseg h k p xs q f \<and> dseg h f q ys m e)"
  by (induction xs arbitrary: k p) (auto split: llink.splits)

lemma dseg_frame: "a \<notin> set xs \<Longrightarrow> dseg (h(a := v)) k p xs m e \<longleftrightarrow> dseg h k p xs m e"
  by (induction xs arbitrary: k p) (auto split: llink.splits)

lemma dseg_frame_next: "\<forall>w. k' = Some w \<longrightarrow> w \<notin> set xs \<Longrightarrow> dseg (set_next h k' v) k p xs m e \<longleftrightarrow> dseg h k p xs m e"
  by (cases k') (simp_all add: dseg_frame)

lemma dseg_frame_prev: "\<forall>w. k' = Some w \<longrightarrow> w \<notin> set xs \<Longrightarrow> dseg (set_prev h k' v) k p xs m e \<longleftrightarrow> dseg h k p xs m e"
  by (cases k') (simp_all add: dseg_frame)

lemma dseg_in: "dseg h k p xs m e \<Longrightarrow> x \<in> set xs \<Longrightarrow> lprev (h x) \<noteq> Not_In_List"
  by (induction xs arbitrary: k p) (auto split: llink.splits)

lemma dseg_end_in: "dseg h None p xs m (Some w) \<Longrightarrow> w \<in> set xs"
  by (cases xs rule: rev_cases) (auto simp: dseg_append split: llink.splits)

lemma dseg_end_None: "dseg h None p xs m e \<Longrightarrow> e = None \<longleftrightarrow> xs = []"
  by (cases xs rule: rev_cases) (auto simp: dseg_append split: llink.splits)

lemma dseg_start_in: "dseg h k (Some w) xs None e \<Longrightarrow> w \<in> set xs"
  by (cases xs) auto

text \<open>Redirecting the last item of a segment to \<open>m'\<close>, and the first item back to \<open>k'\<close>.\<close>

lemma dseg_relink_end:
  assumes "dseg h None p xs m k" and "distinct xs"
  shows "dseg (set_next h k m') None (if k = None then m' else p) xs m' k"
proof (cases xs rule: rev_cases)
  case (snoc ys w)
  with assms obtain f where "dseg h None p ys (Some w) f" "lprev (h w) = Link f" "k = Some w" "w \<notin> set ys"
    by (auto simp: dseg_append split: llink.splits)
  with snoc show ?thesis by (auto simp: dseg_append dseg_frame)
qed (use assms in auto)

lemma dseg_relink_start:
  assumes "dseg h k m xs None e" and "distinct xs"
  shows "dseg (set_prev h m k') k' m xs None (if m = None then k' else e)"
  using assms by (cases xs) (auto simp: dseg_frame split: llink.splits)

lemma list_rep_init: "list_rep h nn_list_init []"
  by (simp add: list_rep_def nn_list_init_def)

lemma list_rep_split:
  "list_rep h l (xs @ ys) \<longleftrightarrow> distinct (xs @ ys) \<and>
     (\<exists>p k. dseg h None (lfirst l) xs p k \<and> dseg h k p ys None (llast l))"
  by (auto simp: list_rep_def dseg_append)

lemma nn_list_insert_rep:
  assumes rep: "list_rep h l (xs @ ys)" and new: "\<not> nn_list_item_isinlist h item"
    and it: "it = (case ys of [] \<Rightarrow> None | y # _ \<Rightarrow> Some y)"
  shows "\<exists>h' l'. nn_list_insert h l item it = Inr (h', l') \<and> list_rep h' l' (xs @ item # ys)
           \<and> (\<forall>a. a \<notin> set (xs @ item # ys) \<longrightarrow> h' a = h a)"
proof -
  obtain k where seg: "dseg h None (lfirst l) xs it k" "dseg h k it ys None (llast l)" "distinct (xs @ ys)"
    using rep [unfolded list_rep_split] it by (cases ys) auto
  have ni: "item \<notin> set xs" "item \<notin> set ys"
    using seg new by (auto simp: nn_list_item_isinlist_def dest: dseg_in)
  have k: "\<forall>w. k = Some w \<longrightarrow> w \<in> set xs" using seg(1) by (auto dest: dseg_end_in)
  have i: "\<forall>w. it = Some w \<longrightarrow> w \<in> set ys" using seg(2) by (auto dest: dseg_start_in)
  have ix: "\<forall>w. it = Some w \<longrightarrow> w \<notin> set xs" using i seg(3) by auto
  have ky: "\<forall>w. k = Some w \<longrightarrow> w \<notin> set ys" using k seg(3) by auto
  have pv: "(case it of None \<Rightarrow> Link (llast l) | Some i \<Rightarrow> lprev (h i)) = Link k"
    using seg(2) it by (cases ys) auto
  let ?h0 = "h(item := \<lparr>lprev = Link k, lnext = Link it\<rparr>)"
  let ?h1 = "set_next ?h0 k (Some item)"
  let ?h2 = "set_prev ?h1 it (Some item)"
  have first: "dseg ?h2 None (if k = None then Some item else lfirst l) xs (Some item) k"
    using dseg_relink_end [of ?h0 "lfirst l" xs it k "Some item"] seg ni
    unfolding dseg_frame_prev [OF ix] by (simp add: dseg_frame)
  have second: "dseg ?h2 (Some item) it ys None (if it = None then Some item else llast l)"
    using dseg_relink_start [of ?h1 k it ys "llast l" "Some item"] seg ni
    unfolding dseg_frame_next [OF ky] by (simp add: dseg_frame)
  have mid: "?h2 item = \<lparr>lprev = Link k, lnext = Link it\<rparr>"
    using ni k i by (cases k; cases it) auto
  have fst: "lfirst l = None \<or> lfirst l = it \<longleftrightarrow> k = None"
    using seg(1) dseg_end_None [OF seg(1)] ix by (cases xs) auto
  have "dseg ?h2 None (if k = None then Some item else lfirst l) (xs @ item # ys) None
          (if it = None then Some item else llast l)"
    using first second mid by (auto simp: dseg_append)
  moreover have "\<forall>a. a \<notin> set (xs @ item # ys) \<longrightarrow> ?h2 a = h a"
    using k i by (cases k; cases it) auto
  ultimately show ?thesis
    using new pv fst seg(3) ni by (auto simp: nn_list_insert_def list_rep_def Let_def)
qed

lemma nn_list_erase_rep:
  assumes rep: "list_rep h l (xs @ item # ys)"
  shows "\<exists>h' l'. nn_list_erase h l item = Inr (case ys of [] \<Rightarrow> None | y # _ \<Rightarrow> Some y, h', l')
           \<and> list_rep h' l' (xs @ ys) \<and> \<not> nn_list_item_isinlist h' item
           \<and> (\<forall>a. a \<notin> set (xs @ item # ys) \<longrightarrow> h' a = h a)"
proof -
  obtain k n where seg: "dseg h None (lfirst l) xs (Some item) k" "lprev (h item) = Link k"
      "lnext (h item) = Link n" "dseg h (Some item) n ys None (llast l)"
      "distinct (xs @ ys)" "item \<notin> set xs" "item \<notin> set ys"
    using rep by (auto simp: list_rep_split split: llink.splits)
  have k: "\<forall>w. k = Some w \<longrightarrow> w \<in> set xs" using seg(1) by (auto dest: dseg_end_in)
  have i: "\<forall>w. n = Some w \<longrightarrow> w \<in> set ys" using seg(4) by (auto dest: dseg_start_in)
  have ix: "\<forall>w. n = Some w \<longrightarrow> w \<notin> set xs" using i seg(5) by auto
  have ky: "\<forall>w. k = Some w \<longrightarrow> w \<notin> set ys" using k seg(5) by auto
  have n: "n = (case ys of [] \<Rightarrow> None | y # _ \<Rightarrow> Some y)" using seg(4) by (cases ys) auto
  let ?h1 = "set_next h k n"
  let ?h2 = "(set_prev ?h1 n k)(item := \<lparr>lprev = Not_In_List, lnext = Not_In_List\<rparr>)"
  have "dseg ?h2 None (if k = None then n else lfirst l) xs n k"
    using dseg_relink_end [of h "lfirst l" xs "Some item" k n] seg
    unfolding dseg_frame [OF seg(6)] dseg_frame_prev [OF ix] by simp
  moreover have "dseg ?h2 k n ys None (if n = None then k else llast l)"
    using dseg_relink_start [of ?h1 "Some item" n ys "llast l" k] seg
    unfolding dseg_frame [OF seg(7)] dseg_frame_next [OF ky] by simp
  ultimately have "dseg ?h2 None (if k = None then n else lfirst l) (xs @ ys) None (if n = None then k else llast l)"
    unfolding dseg_append by blast
  moreover have "\<forall>a. a \<notin> set (xs @ item # ys) \<longrightarrow> ?h2 a = h a"
    using k i by (cases k; cases n) auto
  ultimately show ?thesis
    using seg n [symmetric] by (auto simp: nn_list_erase_def list_rep_def Let_def nn_list_item_isinlist_def)
qed

lemma nn_list_walk:
  assumes "list_rep h l (xs @ x # ys)"
  shows "nn_list_next h x = Inr (case ys of [] \<Rightarrow> None | y # _ \<Rightarrow> Some y)"
    and "nn_list_prev h l (Some x) = Inr (if xs = [] then None else Some (last xs))"
proof -
  obtain k n where seg: "dseg h None (lfirst l) xs (Some x) k" "lprev (h x) = Link k"
      "lnext (h x) = Link n" "dseg h (Some x) n ys None (llast l)"
    using assms by (auto simp: list_rep_split split: llink.splits)
  then show "nn_list_next h x = Inr (case ys of [] \<Rightarrow> None | y # _ \<Rightarrow> Some y)"
    by (cases ys) (auto simp: nn_list_next_def)
  show "nn_list_prev h l (Some x) = Inr (if xs = [] then None else Some (last xs))"
    using seg(1,2) by (cases xs rule: rev_cases) (auto simp: nn_list_prev_def dseg_append split: llink.splits)
qed

section \<open>Properties\<close>

text \<open>
  The pointer operations of the doubly linked list implement a list: \<open>nn_list_insert\<close>
  puts a free item in front of any iterator (at the end for \<open>NULL\<close>), \<open>nn_list_erase\<close> takes an item
  out wherever it stands and returns its successor, \<open>nn_list_next\<close> and \<open>nn_list_prev\<close> walk the
  list in both directions, and items outside the list keep their links.
\<close>
theorem nn_list_refines:
  assumes "list_rep h l (xs @ y # ys)"
  shows "(\<not> nn_list_item_isinlist h item \<longrightarrow>
            (\<exists>h' l'. nn_list_insert h l item (Some y) = Inr (h', l') \<and> list_rep h' l' (xs @ item # y # ys)
               \<and> (\<forall>a. a \<notin> set (xs @ item # y # ys) \<longrightarrow> h' a = h a))
          \<and> (\<exists>h' l'. nn_list_insert h l item (nn_list_end l) = Inr (h', l') \<and> list_rep h' l' (xs @ y # ys @ [item])))
       \<and> (\<exists>h' l'. nn_list_erase h l y = Inr (case ys of [] \<Rightarrow> None | z # _ \<Rightarrow> Some z, h', l')
             \<and> list_rep h' l' (xs @ ys) \<and> \<not> nn_list_item_isinlist h' y
             \<and> (\<forall>a. a \<notin> set (xs @ y # ys) \<longrightarrow> h' a = h a))
       \<and> nn_list_next h y = Inr (case ys of [] \<Rightarrow> None | z # _ \<Rightarrow> Some z)
       \<and> nn_list_prev h l (Some y) = Inr (if xs = [] then None else Some (last xs))"
proof (intro conjI impI)
  assume new: "\<not> nn_list_item_isinlist h item"
  show "\<exists>h' l'. nn_list_insert h l item (Some y) = Inr (h', l') \<and> list_rep h' l' (xs @ item # y # ys)
     \<and> (\<forall>a. a \<notin> set (xs @ item # y # ys) \<longrightarrow> h' a = h a)"
    using nn_list_insert_rep [OF assms new, of "Some y"] by simp
  show "\<exists>h' l'. nn_list_insert h l item (nn_list_end l) = Inr (h', l') \<and> list_rep h' l' (xs @ y # ys @ [item])"
    using nn_list_insert_rep [of h l "xs @ y # ys" "[]" item None] assms new
    by (simp add: nn_list_end_def) blast
qed (use nn_list_erase_rep [OF assms] nn_list_walk [OF assms] in blast)+

text \<open>A list of two items, a third one put between them.\<close>
theorem nn_list_refines_witness:
  "\<exists>h l. list_rep h l [1, 2] \<and> (\<exists>h' l'. nn_list_insert h l 3 (Some 2) = Inr (h', l') \<and> list_rep h' l' [1, 3, 2])"
proof -
  let ?h = "(\<lambda>a. if a = 1 then \<lparr>lprev = Link None, lnext = Link (Some 2)\<rparr>
              else if a = 2 then \<lparr>lprev = Link (Some 1), lnext = Link None\<rparr>
              else \<lparr>lprev = Not_In_List, lnext = Not_In_List\<rparr>) :: list_items"
  let ?l = "\<lparr>lfirst = Some 1, llast = Some 2\<rparr>"
  have rep: "list_rep ?h ?l ([1] @ 2 # [])" by (simp add: list_rep_def)
  have new: "\<not> nn_list_item_isinlist ?h 3" by (simp add: nn_list_item_isinlist_def)
  have "\<exists>h' l'. nn_list_insert ?h ?l 3 (Some 2) = Inr (h', l') \<and> list_rep h' l' ([1] @ 3 # 2 # [])"
    using nn_list_refines [OF rep, of 3] new by blast
  then have "\<exists>h' l'. nn_list_insert ?h ?l 3 (Some 2) = Inr (h', l') \<and> list_rep h' l' [1, 3, 2]" by simp
  moreover have "list_rep ?h ?l [1, 2]" using rep by simp
  ultimately show ?thesis by blast
qed

end
