(* ===== verification/Nn_Hash.thy ===== *)
theory Nn_Hash
  imports Nn_List
begin

text \<open>
  The hash table of \<open>nanomsg/src/utils/hash.c\<close>: an array of doubly linked lists that is doubled
  when it gets full. The memory of the items is their links and their keys. \<open>room n\<close> tells whether
  \<open>nn_alloc\<close> finds \<open>n\<close> bytes; without them \<open>alloc_assert\<close> aborts. The loops are partial functions:
  the outer \<open>None\<close> is a loop that does not end.
\<close>

section \<open>Data and operations\<close>

record hash_mem =
  hlinks :: list_items
  hkeys :: "addr \<Rightarrow> u32"

record nn_hash =
  slots :: u32
  items :: u32
  harray :: "nn_list list"

definition NN_HASH_INITIAL_SLOTS :: u32 where
  "NN_HASH_INITIAL_SLOTS = 32"

definition sizeof_nn_list :: nat where
  "sizeof_nn_list = 16"

definition nn_hash_key :: "u32 \<Rightarrow> u32" where
  "nn_hash_key key =
     (let key = (key XOR 61) XOR drop_bit 16 key;
          key = key + push_bit 3 key;
          key = key XOR drop_bit 4 key;
          key = key * 0x27d4eb2d
      in key XOR drop_bit 15 key)"

definition nn_hash_init :: "(nat \<Rightarrow> bool) \<Rightarrow> nn_hash c_result" where
  "nn_hash_init room =
     (if \<not> room (sizeof_nn_list * unat NN_HASH_INITIAL_SLOTS) then Inl Assertion
      else Inr \<lparr>slots = NN_HASH_INITIAL_SLOTS, items = 0,
                harray = replicate (unat NN_HASH_INITIAL_SLOTS) nn_list_init\<rparr>)"

fun nn_list_term_all :: "nn_list list \<Rightarrow> unit c_result" where
  "nn_list_term_all [] = Inr ()"
| "nn_list_term_all (l # ls) = (case nn_list_term l of Inl e \<Rightarrow> Inl e | Inr _ \<Rightarrow> nn_list_term_all ls)"

definition nn_hash_term :: "nn_hash \<Rightarrow> unit c_result" where
  "nn_hash_term self = nn_list_term_all (harray self)"

definition slot_of :: "u32 \<Rightarrow> u32 \<Rightarrow> nat" where
  "slot_of n key = unat (nn_hash_key key mod n)"

text \<open>The inner loop of \<open>nn_hash_rehash\<close>: one old list is emptied into the new array.\<close>

partial_function (option) nn_hash_move ::
  "(addr \<Rightarrow> u32) \<Rightarrow> u32 \<Rightarrow> list_items \<Rightarrow> nn_list \<Rightarrow> nn_list list
     \<Rightarrow> (list_items \<times> nn_list \<times> nn_list list) c_result option" where
  "nn_hash_move keys n h old new =
     (case nn_list_begin old of
        None \<Rightarrow> Some (Inr (h, old, new))
      | Some hitm \<Rightarrow>
          (case nn_list_erase h old hitm of
             Inl e \<Rightarrow> Some (Inl e)
           | Inr r \<Rightarrow>
               (case nn_list_insert (fst (snd r)) (new ! slot_of n (keys hitm)) hitm
                       (nn_list_end (new ! slot_of n (keys hitm))) of
                  Inl e \<Rightarrow> Some (Inl e)
                | Inr s \<Rightarrow>
                    nn_hash_move keys n (fst s) (snd (snd r)) (new[slot_of n (keys hitm) := snd s]))))"

fun nn_hash_move_all ::
  "(addr \<Rightarrow> u32) \<Rightarrow> u32 \<Rightarrow> list_items \<Rightarrow> nn_list list \<Rightarrow> nn_list list
     \<Rightarrow> (list_items \<times> nn_list list) c_result option" where
  "nn_hash_move_all keys n h [] new = Some (Inr (h, new))"
| "nn_hash_move_all keys n h (l # ls) new =
     (case nn_hash_move keys n h l new of
        None \<Rightarrow> None
      | Some (Inl e) \<Rightarrow> Some (Inl e)
      | Some (Inr (h, l, new)) \<Rightarrow>
          (case nn_list_term l of
             Inl e \<Rightarrow> Some (Inl e)
           | Inr _ \<Rightarrow> nn_hash_move_all keys n h ls new))"

definition nn_hash_rehash ::
  "(nat \<Rightarrow> bool) \<Rightarrow> hash_mem \<Rightarrow> nn_hash \<Rightarrow> (hash_mem \<times> nn_hash) c_result option" where
  "nn_hash_rehash room mem self =
     (let n = slots self * 2 in
      if \<not> room (sizeof_nn_list * unat n) then Some (Inl Assertion)
      else
        (case nn_hash_move_all (hkeys mem) n (hlinks mem) (harray self) (replicate (unat n) nn_list_init) of
           None \<Rightarrow> None
         | Some (Inl e) \<Rightarrow> Some (Inl e)
         | Some (Inr (h, new)) \<Rightarrow>
             Some (Inr (mem\<lparr>hlinks := h\<rparr>, self\<lparr>slots := n, harray := new\<rparr>))))"

text \<open>The loop of \<open>nn_hash_get\<close> and, with an assertion, of \<open>nn_hash_insert\<close>.\<close>

partial_function (option) nn_hash_find ::
  "hash_mem \<Rightarrow> u32 \<Rightarrow> addr option \<Rightarrow> addr option c_result option" where
  "nn_hash_find mem key it =
     (case it of
        None \<Rightarrow> Some (Inr None)
      | Some i \<Rightarrow>
          if hkeys mem i = key then Some (Inr (Some i))
          else (case nn_list_next (hlinks mem) i of
                  Inl e \<Rightarrow> Some (Inl e)
                | Inr n \<Rightarrow> nn_hash_find mem key n))"

definition nn_hash_insert ::
  "(nat \<Rightarrow> bool) \<Rightarrow> hash_mem \<Rightarrow> nn_hash \<Rightarrow> u32 \<Rightarrow> addr \<Rightarrow> (hash_mem \<times> nn_hash) c_result option" where
  "nn_hash_insert room mem self key item =
     (let i = slot_of (slots self) key in
      case nn_hash_find mem key (nn_list_begin (harray self ! i)) of
        None \<Rightarrow> None
      | Some (Inl e) \<Rightarrow> Some (Inl e)
      | Some (Inr (Some _)) \<Rightarrow> Some (Inl Assertion)
      | Some (Inr None) \<Rightarrow>
          (let mem = mem\<lparr>hkeys := (hkeys mem)(item := key)\<rparr> in
           case nn_list_insert (hlinks mem) (harray self ! i) item (nn_list_end (harray self ! i)) of
             Inl e \<Rightarrow> Some (Inl e)
           | Inr (h, l) \<Rightarrow>
               (let mem = mem\<lparr>hlinks := h\<rparr>;
                    self = self\<lparr>items := items self + 1, harray := (harray self)[i := l]\<rparr>
                in if items self * 2 > slots self \<and> slots self < 0x80000000
                   then nn_hash_rehash room mem self
                   else Some (Inr (mem, self)))))"

definition nn_hash_erase :: "hash_mem \<Rightarrow> nn_hash \<Rightarrow> addr \<Rightarrow> (hash_mem \<times> nn_hash) c_result" where
  "nn_hash_erase mem self item =
     (let slot = slot_of (slots self) (hkeys mem item) in
      case nn_list_erase (hlinks mem) (harray self ! slot) item of
        Inl e \<Rightarrow> Inl e
      | Inr (_, h, l) \<Rightarrow>
          Inr (mem\<lparr>hlinks := h\<rparr>, self\<lparr>items := items self - 1, harray := (harray self)[slot := l]\<rparr>))"

definition nn_hash_get :: "hash_mem \<Rightarrow> nn_hash \<Rightarrow> u32 \<Rightarrow> addr option c_result option" where
  "nn_hash_get mem self key =
     nn_hash_find mem key (nn_list_begin (harray self ! slot_of (slots self) key))"

definition nn_hash_item_init :: "hash_mem \<Rightarrow> addr \<Rightarrow> hash_mem" where
  "nn_hash_item_init mem item = mem\<lparr>hlinks := nn_list_item_init (hlinks mem) item\<rparr>"

definition nn_hash_item_term :: "hash_mem \<Rightarrow> addr \<Rightarrow> unit c_result" where
  "nn_hash_item_term mem item = nn_list_item_term (hlinks mem) item"

section \<open>Arrays of lists\<close>

text \<open>The lists of an array hold the item lists \<open>xss\<close>, no item twice.\<close>

definition slots_rep :: "list_items \<Rightarrow> nn_list list \<Rightarrow> addr list list \<Rightarrow> bool" where
  "slots_rep h arr xss \<longleftrightarrow> length arr = length xss
     \<and> (\<forall>i<length xss. list_rep h (arr ! i) (xss ! i))
     \<and> (\<forall>i<length xss. \<forall>j<length xss. i \<noteq> j \<longrightarrow> set (xss ! i) \<inter> set (xss ! j) = {})"

lemma dseg_cong: "\<forall>a\<in>set xs. h' a = h a \<Longrightarrow> dseg h' k p xs m e \<longleftrightarrow> dseg h k p xs m e"
  by (induction xs arbitrary: k p) (auto split: llink.splits)

lemma list_rep_cong: "\<forall>a\<in>set xs. h' a = h a \<Longrightarrow> list_rep h' l xs \<longleftrightarrow> list_rep h l xs"
  by (simp add: list_rep_def dseg_cong [of xs h' h])

lemma list_rep_Nil: "list_rep h l [] \<longleftrightarrow> l = nn_list_init"
  by (cases l) (auto simp: list_rep_def nn_list_init_def)

lemma list_rep_begin: "list_rep h l xs \<Longrightarrow> nn_list_begin l = (case xs of [] \<Rightarrow> None | x # _ \<Rightarrow> Some x)"
  by (cases xs) (auto simp: list_rep_def nn_list_begin_def)

lemma slots_rep_nth: "slots_rep h arr xss \<Longrightarrow> i < length xss \<Longrightarrow> list_rep h (arr ! i) (xss ! i)"
  by (simp add: slots_rep_def)

lemma slots_rep_cong:
  assumes "slots_rep h arr xss" and "\<forall>a. a \<in> (\<Union>xs\<in>set xss. set xs) \<longrightarrow> h' a = h a"
  shows "slots_rep h' arr xss"
proof -
  have "list_rep h' (arr ! i) (xss ! i)" if "i < length xss" for i
  proof -
    have "\<forall>a\<in>set (xss ! i). h' a = h a" using assms(2) nth_mem [OF that] by blast
    from list_rep_cong [OF this] show ?thesis using assms(1) that by (simp add: slots_rep_def)
  qed
  with assms(1) show ?thesis by (simp add: slots_rep_def)
qed

lemma slots_rep_update:
  assumes rep: "slots_rep h arr xss" and i: "i < length xss" and new: "list_rep h' l' ys"
    and frame: "\<forall>a. a \<notin> set (xss ! i) \<union> set ys \<longrightarrow> h' a = h a"
    and fresh: "\<forall>a\<in>set ys - set (xss ! i). \<forall>xs\<in>set xss. a \<notin> set xs"
  shows "slots_rep h' (arr[i := l']) (xss[i := ys])"
proof -
  have sep: "set (xss ! j) \<inter> (set (xss ! i) \<union> set ys) = {}" if "j < length xss" "j \<noteq> i" for j
  proof -
    have "set (xss ! j) \<inter> set (xss ! i) = {}" using rep that i by (auto simp: slots_rep_def)
    then show ?thesis using fresh nth_mem [OF that(1)] by blast
  qed
  have "list_rep h' (arr ! j) (xss ! j)" if "j < length xss" "j \<noteq> i" for j
  proof -
    have "\<forall>a\<in>set (xss ! j). h' a = h a" using sep [OF that] frame by blast
    from list_rep_cong [OF this] show ?thesis using rep that(1) by (simp add: slots_rep_def)
  qed
  moreover have "set (xss ! j) \<inter> set ys = {}" if "j < length xss" "j \<noteq> i" for j
    using sep [OF that] by blast
  ultimately show ?thesis
    using rep i new unfolding slots_rep_def by (auto simp: nth_list_update Int_commute)
qed

section \<open>Rehashing\<close>

definition place :: "(addr \<Rightarrow> u32) \<Rightarrow> u32 \<Rightarrow> addr \<Rightarrow> addr list list \<Rightarrow> addr list list" where
  "place keys n x yss = yss[slot_of n (keys x) := yss ! slot_of n (keys x) @ [x]]"

lemma slot_of_less: "n \<noteq> 0 \<Longrightarrow> slot_of n k < unat n"
  by (simp add: slot_of_def unat_mod word_greater_zero_iff unat_gt_0)

lemma length_fold_place [simp]: "length (fold (place keys n) xs yss) = length yss"
  by (induction xs arbitrary: yss) (auto simp: place_def)

lemma nth_fold_place:
  "i < length yss \<Longrightarrow> fold (place keys n) xs yss ! i = yss ! i @ filter (\<lambda>x. slot_of n (keys x) = i) xs"
  by (induction xs arbitrary: yss) (auto simp: place_def nth_list_update)

lemma nn_hash_move_one:
  assumes old: "list_rep h old (x # xs)" and rep: "slots_rep h new yss"
    and sep: "\<forall>ys\<in>set yss. set (x # xs) \<inter> set ys = {}" and i: "slot_of n (keys x) < length yss"
  shows "\<exists>h2 old1 new1. nn_hash_move keys n h old new = nn_hash_move keys n h2 old1 new1
           \<and> list_rep h2 old1 xs \<and> slots_rep h2 new1 (place keys n x yss)
           \<and> (\<forall>a. a \<notin> set (x # xs) \<union> (\<Union>ys\<in>set yss. set ys) \<longrightarrow> h2 a = h a)"
proof -
  let ?i = "slot_of n (keys x)"
  obtain h1 old1 where er: "nn_list_erase h old x = Inr (case xs of [] \<Rightarrow> None | y # _ \<Rightarrow> Some y, h1, old1)"
      "list_rep h1 old1 xs" "\<not> nn_list_item_isinlist h1 x" "\<forall>a. a \<notin> set (x # xs) \<longrightarrow> h1 a = h a"
    using nn_list_erase_rep [of h old "[]" x xs] old by auto
  have rep1: "slots_rep h1 new yss"
  proof (rule slots_rep_cong [OF rep], intro allI impI)
    fix a assume "a \<in> (\<Union>ys\<in>set yss. set ys)"
    then have "a \<notin> set (x # xs)" using sep by blast
    then show "h1 a = h a" using er(4) by blast
  qed
  have li: "list_rep h1 (new ! ?i) (yss ! ?i @ [])" using i rep1 by (simp add: slots_rep_def)
  obtain h2 l2 where ins: "nn_list_insert h1 (new ! ?i) x None = Inr (h2, l2)"
      "list_rep h2 l2 (yss ! ?i @ [x])" "\<forall>a. a \<notin> set (yss ! ?i @ [x]) \<longrightarrow> h2 a = h1 a"
    using nn_list_insert_rep [OF li er(3), of None] by auto
  have yi: "yss ! ?i \<in> set yss" using i by simp
  have x: "x \<notin> set xs" "\<forall>ys\<in>set yss. x \<notin> set ys" using old sep by (auto simp: list_rep_def)
  have "slots_rep h2 (new[?i := l2]) (place keys n x yss)"
    unfolding place_def using x ins(3) by (intro slots_rep_update [OF rep1 i ins(2)]) auto
  moreover have "set xs \<inter> set (yss ! ?i) = {}" using sep yi by auto
  then have "\<forall>a\<in>set xs. h2 a = h1 a" using ins(3) x(1) by auto
  then have "list_rep h2 old1 xs" using er(2) list_rep_cong by blast
  moreover have "nn_hash_move keys n h old new = nn_hash_move keys n h2 old1 (new[?i := l2])"
    using list_rep_begin [OF old] er(1) ins(1)
    by (subst nn_hash_move.simps) (simp add: nn_list_end_def)
  moreover have "\<forall>a. a \<notin> set (x # xs) \<union> (\<Union>ys\<in>set yss. set ys) \<longrightarrow> h2 a = h a"
    using er(4) ins(3) yi by auto
  ultimately show ?thesis by blast
qed

lemma place_items:
  "slot_of n (keys x) < length yss \<Longrightarrow> (\<Union>ys\<in>set (place keys n x yss). set ys) \<subseteq> insert x (\<Union>ys\<in>set yss. set ys)"
  using set_update_subset_insert [of yss "slot_of n (keys x)" "yss ! slot_of n (keys x) @ [x]"]
    nth_mem [of "slot_of n (keys x)" yss]
  unfolding place_def by auto

lemma nn_hash_move_rep:
  assumes "list_rep h old xs" and "slots_rep h new yss"
    and "\<forall>ys\<in>set yss. set xs \<inter> set ys = {}" and "length yss = unat n" and "n \<noteq> 0"
  shows "\<exists>h' new'. nn_hash_move keys n h old new = Some (Inr (h', nn_list_init, new'))
           \<and> slots_rep h' new' (fold (place keys n) xs yss)
           \<and> (\<forall>a. a \<notin> set xs \<union> (\<Union>ys\<in>set yss. set ys) \<longrightarrow> h' a = h a)"
  using assms
proof (induction xs arbitrary: h old new yss)
  case Nil
  then show ?case
    by (subst nn_hash_move.simps) (simp add: list_rep_Nil nn_list_begin_def nn_list_init_def)
next
  case (Cons x xs)
  have i: "slot_of n (keys x) < length yss" using Cons.prems(4,5) by (simp add: slot_of_less)
  obtain h2 old1 new1 where one: "nn_hash_move keys n h old new = nn_hash_move keys n h2 old1 new1"
      "list_rep h2 old1 xs" "slots_rep h2 new1 (place keys n x yss)"
      "\<forall>a. a \<notin> set (x # xs) \<union> (\<Union>ys\<in>set yss. set ys) \<longrightarrow> h2 a = h a"
    using nn_hash_move_one [where keys = keys, OF Cons.prems(1-3) i] by blast
  have "x \<notin> set xs" using Cons.prems(1) by (simp add: list_rep_def)
  then have sep: "\<forall>ys\<in>set (place keys n x yss). set xs \<inter> set ys = {}"
    using place_items [where keys = keys, OF i] Cons.prems(3) by fastforce
  have len: "length (place keys n x yss) = unat n" using Cons.prems(4) by (simp add: place_def)
  obtain h' new' where mv: "nn_hash_move keys n h2 old1 new1 = Some (Inr (h', nn_list_init, new'))"
      "slots_rep h' new' (fold (place keys n) xs (place keys n x yss))"
      "\<forall>a. a \<notin> set xs \<union> (\<Union>ys\<in>set (place keys n x yss). set ys) \<longrightarrow> h' a = h2 a"
    using Cons.IH [OF one(2,3) sep len Cons.prems(5)] by blast
  have "h' a = h a" if "a \<notin> set (x # xs) \<union> (\<Union>ys\<in>set yss. set ys)" for a
  proof -
    have "a \<notin> (\<Union>ys\<in>set (place keys n x yss). set ys)"
      using that subsetD [OF place_items [where keys = keys, OF i]] by auto
    with that mv(3) one(4) show ?thesis by auto
  qed
  with mv(1,2) one(1) show ?case by auto
qed

lemma slots_rep_Cons:
  assumes "slots_rep h (l # ls) (xs # xss)"
  shows "list_rep h l xs" "slots_rep h ls xss" "\<forall>ys\<in>set xss. set xs \<inter> set ys = {}"
proof -
  have all: "list_rep h ((l # ls) ! i) ((xs # xss) ! i)" if "i < Suc (length xss)" for i
    using assms that unfolding slots_rep_def by simp
  have sep: "set ((xs # xss) ! i) \<inter> set ((xs # xss) ! j) = {}"
    if "i < Suc (length xss)" "j < Suc (length xss)" "i \<noteq> j" for i j
    using assms that unfolding slots_rep_def by simp
  show "list_rep h l xs" using all [of 0] by simp
  show "slots_rep h ls xss"
    using assms all [of "Suc i" for i] sep [of "Suc i" "Suc j" for i j] by (simp add: slots_rep_def)
  show "\<forall>ys\<in>set xss. set xs \<inter> set ys = {}"
    using sep [of 0 "Suc j" for j] by (metis Suc_less_eq in_set_conv_nth nat.distinct(1) nth_Cons_0 nth_Cons_Suc zero_less_Suc)
qed

lemma fold_place_items:
  assumes "length yss = unat n" and "n \<noteq> 0"
  shows "(\<Union>ys\<in>set (fold (place keys n) xs yss). set ys) \<subseteq> set xs \<union> (\<Union>ys\<in>set yss. set ys)"
proof
  fix a assume "a \<in> (\<Union>ys\<in>set (fold (place keys n) xs yss). set ys)"
  then obtain i where "i < length yss" "a \<in> set (fold (place keys n) xs yss ! i)"
    by (metis UN_E in_set_conv_nth length_fold_place)
  then show "a \<in> set xs \<union> (\<Union>ys\<in>set yss. set ys)" by (auto simp: nth_fold_place)
qed

lemma nn_hash_move_all_rep:
  assumes "slots_rep h old xss" and "slots_rep h new yss"
    and "\<forall>xs\<in>set xss. \<forall>ys\<in>set yss. set xs \<inter> set ys = {}" and "length yss = unat n" and "n \<noteq> 0"
  shows "\<exists>h' new'. nn_hash_move_all keys n h old new = Some (Inr (h', new'))
           \<and> slots_rep h' new' (fold (place keys n) (concat xss) yss)"
  using assms
proof (induction xss arbitrary: h old new yss)
  case Nil
  then have "old = []" by (simp add: slots_rep_def)
  with Nil show ?case by simp
next
  case (Cons xs xss)
  from Cons.prems(1) obtain l ls where old: "old = l # ls" by (cases old) (auto simp: slots_rep_def)
  note parts = slots_rep_Cons [OF Cons.prems(1) [unfolded old]]
  have "\<forall>ys\<in>set yss. set xs \<inter> set ys = {}" using Cons.prems(3) by simp
  from nn_hash_move_rep [OF parts(1) Cons.prems(2) this Cons.prems(4,5), of keys] obtain h1 new1 where
    mv: "nn_hash_move keys n h l new = Some (Inr (h1, nn_list_init, new1))"
        "slots_rep h1 new1 (fold (place keys n) xs yss)"
        "\<forall>a. a \<notin> set xs \<union> (\<Union>ys\<in>set yss. set ys) \<longrightarrow> h1 a = h a" by blast
  have sep: "\<forall>zs\<in>set xss. set zs \<inter> (set xs \<union> (\<Union>ys\<in>set yss. set ys)) = {}"
  proof
    fix zs assume zs: "zs \<in> set xss"
    then have "set xs \<inter> set zs = {}" "\<forall>ys\<in>set yss. set zs \<inter> set ys = {}"
      using parts(3) Cons.prems(3) by simp_all
    then show "set zs \<inter> (set xs \<union> (\<Union>ys\<in>set yss. set ys)) = {}" by blast
  qed
  have "slots_rep h1 ls xss"
    using mv(3) sep by (intro slots_rep_cong [OF parts(2)]) blast
  moreover have "\<forall>zs\<in>set xss. \<forall>ys\<in>set (fold (place keys n) xs yss). set zs \<inter> set ys = {}"
    using sep fold_place_items [OF Cons.prems(4,5), of keys xs] by blast
  ultimately obtain h' new' where "nn_hash_move_all keys n h1 ls new1 = Some (Inr (h', new'))"
      "slots_rep h' new' (fold (place keys n) (concat xss) (fold (place keys n) xs yss))"
    using Cons.IH [OF _ mv(2)] Cons.prems(4,5) by (metis length_fold_place)
  with mv(1) old show ?case
    by (simp add: nn_list_term_def nn_list_init_def)
qed

lemma slots_rep_init: "slots_rep h (replicate k nn_list_init) (replicate k [])"
  by (simp add: slots_rep_def list_rep_init)

section \<open>The table as a set of items\<close>

text \<open>
  \<open>hash_core mem self S\<close>: the table holds exactly the items \<open>S\<close>, each in the slot of its key, the keys
  are distinct, the counter is right, and the number of slots is a power of two between 32 and
  \<open>2^31\<close>. \<open>hash_ok\<close> adds that the slots are twice as many as the items, or the maximum.
\<close>

definition hash_core :: "hash_mem \<Rightarrow> nn_hash \<Rightarrow> addr set \<Rightarrow> bool" where
  "hash_core mem self S \<longleftrightarrow>
     (\<exists>xss. slots_rep (hlinks mem) (harray self) xss \<and> length xss = unat (slots self)
        \<and> (\<forall>i<length xss. set (xss ! i) = {x \<in> S. slot_of (slots self) (hkeys mem x) = i}))
     \<and> finite S \<and> inj_on (hkeys mem) S \<and> items self = of_nat (card S)
     \<and> (\<exists>k\<in>{5..31}. unat (slots self) = 2 ^ k)"

definition hash_ok :: "hash_mem \<Rightarrow> nn_hash \<Rightarrow> addr set \<Rightarrow> bool" where
  "hash_ok mem self S \<longleftrightarrow> hash_core mem self S
     \<and> (slots self < 0x80000000 \<longrightarrow> 2 * card S \<le> unat (slots self))"

lemma hash_coreE:
  assumes "hash_core mem self S"
  obtains xss where "slots_rep (hlinks mem) (harray self) xss" "length xss = unat (slots self)"
    "\<forall>i<length xss. set (xss ! i) = {x \<in> S. slot_of (slots self) (hkeys mem x) = i}"
    "slots self \<noteq> 0"
proof -
  have "slots self \<noteq> 0" using assms by (auto simp: hash_core_def)
  with assms that show ?thesis unfolding hash_core_def by blast
qed

lemma hash_coreI:
  assumes "slots_rep (hlinks mem) (harray self) xss" and "length xss = unat (slots self)"
    and "\<forall>i<length xss. set (xss ! i) = {x \<in> S. slot_of (slots self) (hkeys mem x) = i}"
    and "finite S" and "inj_on (hkeys mem) S" and "items self = of_nat (card S)"
    and "\<exists>k\<in>{5..31}. unat (slots self) = 2 ^ k"
  shows "hash_core mem self S"
  using assms unfolding hash_core_def by blast

lemma hash_coreD:
  assumes "hash_core mem self S"
  shows "finite S" "inj_on (hkeys mem) S" "items self = of_nat (card S)"
    "\<exists>k\<in>{5..31}. unat (slots self) = 2 ^ k"
  using assms unfolding hash_core_def by blast+

lemma slots_items:
  assumes "\<forall>i<length xss. set (xss ! i) = {x \<in> S. slot_of n (keys x) = i}"
    and "n \<noteq> 0" and "length xss = unat n"
  shows "set (concat xss) = S"
proof
  show "set (concat xss) \<subseteq> S" using assms(1) by (auto simp: in_set_conv_nth [of _ xss])
  show "S \<subseteq> set (concat xss)"
  proof
    fix x assume x: "x \<in> S"
    have i: "slot_of n (keys x) < length xss" using slot_of_less assms(2,3) by simp
    with x assms(1) have "x \<in> set (xss ! slot_of n (keys x))" by simp
    with nth_mem [OF i] show "x \<in> set (concat xss)" by auto
  qed
qed

lemma nn_hash_find_rep:
  assumes "list_rep (hlinks mem) l (xs @ ys)"
  shows "\<exists>r. nn_hash_find mem key (case ys of [] \<Rightarrow> None | y # _ \<Rightarrow> Some y) = Some (Inr r)
           \<and> (case r of None \<Rightarrow> \<forall>y\<in>set ys. hkeys mem y \<noteq> key | Some y \<Rightarrow> y \<in> set ys \<and> hkeys mem y = key)"
  using assms
proof (induction ys arbitrary: xs)
  case (Cons y ys)
  have IH: "\<exists>r. nn_hash_find mem key (case ys of [] \<Rightarrow> None | y # _ \<Rightarrow> Some y) = Some (Inr r)
      \<and> (case r of None \<Rightarrow> \<forall>y\<in>set ys. hkeys mem y \<noteq> key | Some y \<Rightarrow> y \<in> set ys \<and> hkeys mem y = key)"
    using Cons.IH [of "xs @ [y]"] Cons.prems by simp
  show ?case
    using IH nn_list_walk(1) [OF Cons.prems]
    by (subst nn_hash_find.simps) (auto split: option.splits)
qed (simp add: nn_hash_find.simps)

lemma nn_hash_lookup:
  assumes ok: "hash_core mem self S"
  shows "\<exists>r. nn_hash_find mem key (nn_list_begin (harray self ! slot_of (slots self) key)) = Some (Inr r)
           \<and> (case r of None \<Rightarrow> \<forall>y\<in>S. hkeys mem y \<noteq> key | Some y \<Rightarrow> y \<in> S \<and> hkeys mem y = key)"
proof -
  obtain xss where xss: "slots_rep (hlinks mem) (harray self) xss" "length xss = unat (slots self)"
    "\<forall>i<length xss. set (xss ! i) = {x \<in> S. slot_of (slots self) (hkeys mem x) = i}" "slots self \<noteq> 0"
    using ok by (rule hash_coreE)
  let ?i = "slot_of (slots self) key"
  have i: "?i < length xss" using slot_of_less xss(2,4) by simp
  then have "list_rep (hlinks mem) (harray self ! ?i) ([] @ xss ! ?i)"
    using xss(1) by (simp add: slots_rep_def)
  from nn_hash_find_rep [OF this, of key] list_rep_begin [OF this] show ?thesis
    using xss(3) i by (auto split: option.splits)
qed

lemma nn_hash_rehash_core:
  assumes core: "hash_core mem self S" and small: "slots self < 0x80000000"
    and room: "room (sizeof_nn_list * (2 * unat (slots self)))"
  shows "\<exists>mem' self'. nn_hash_rehash room mem self = Some (Inr (mem', self')) \<and> hash_core mem' self' S
           \<and> unat (slots self') = 2 * unat (slots self) \<and> hkeys mem' = hkeys mem"
proof -
  obtain xss where xss: "slots_rep (hlinks mem) (harray self) xss" "length xss = unat (slots self)"
    "\<forall>i<length xss. set (xss ! i) = {x \<in> S. slot_of (slots self) (hkeys mem x) = i}" "slots self \<noteq> 0"
    using core by (rule hash_coreE)
  let ?n = "slots self * 2" and ?key = "hkeys mem"
  have small': "unat (slots self) < 2 ^ 31" using small by (simp add: word_less_nat_alt)
  then have n: "unat ?n = 2 * unat (slots self)" by (simp add: unat_word_ariths)
  have nz: "?n \<noteq> 0" using n xss(4) by (metis mult_eq_0_iff unat_eq_zero zero_neq_numeral)
  let ?new = "fold (place ?key ?n) (concat xss) (replicate (unat ?n) [])"
  obtain h' new' where mv:
    "nn_hash_move_all ?key ?n (hlinks mem) (harray self) (replicate (unat ?n) nn_list_init) = Some (Inr (h', new'))"
    "slots_rep h' new' ?new"
    using nn_hash_move_all_rep [OF xss(1) slots_rep_init, of "unat ?n" ?n ?key] nz by auto
  note all = slots_items [OF xss(3,4,2)]
  have "\<forall>i<length ?new. set (?new ! i) = {x \<in> S. slot_of ?n (?key x) = i}"
    using all by (auto simp: nth_fold_place)
  moreover obtain k where "k \<in> {5..31}" "unat (slots self) = 2 ^ k" using core by (auto simp: hash_core_def)
  then have "Suc k \<in> {5..31}" "unat ?n = 2 ^ Suc k" using small' n
    by (auto simp: le_less)
  then have "\<exists>k\<in>{5..31}. unat ?n = 2 ^ k" by blast
  ultimately have "hash_core (mem\<lparr>hlinks := h'\<rparr>) (self\<lparr>slots := ?n, harray := new'\<rparr>) S"
    using mv(2) hash_coreD [OF core] by (intro hash_coreI [where xss = ?new]) (simp_all del: fold_simps)
  with mv(1) room n show ?thesis by (simp add: nn_hash_rehash_def Let_def)
qed

lemma nn_hash_append_core:
  assumes core: "hash_core mem self S" and new: "\<not> nn_list_item_isinlist (hlinks mem) item"
    and absent: "\<forall>y\<in>S. hkeys mem y \<noteq> key"
  shows "\<exists>h l. nn_list_insert (hlinks mem) (harray self ! slot_of (slots self) key) item None = Inr (h, l)
     \<and> hash_core \<lparr>hlinks = h, hkeys = (hkeys mem)(item := key)\<rparr>
         (self\<lparr>items := items self + 1, harray := (harray self)[slot_of (slots self) key := l]\<rparr>) (insert item S)
     \<and> item \<notin> S"
proof -
  obtain xss where xss: "slots_rep (hlinks mem) (harray self) xss" "length xss = unat (slots self)"
    "\<forall>i<length xss. set (xss ! i) = {x \<in> S. slot_of (slots self) (hkeys mem x) = i}" "slots self \<noteq> 0"
    using core by (rule hash_coreE)
  let ?i = "slot_of (slots self) key"
  have i: "?i < length xss" using slot_of_less xss(2,4) by simp
  have out: "\<forall>xs\<in>set xss. item \<notin> set xs"
    using xss(1) new unfolding slots_rep_def list_rep_def nn_list_item_isinlist_def
    by (metis in_set_conv_nth dseg_in)
  then have fresh: "item \<notin> S" using slots_items [OF xss(3,4,2)] by auto
  have "list_rep (hlinks mem) (harray self ! ?i) (xss ! ?i @ [])"
    using xss(1) i by (simp add: slots_rep_def)
  from nn_list_insert_rep [OF this new, of None] obtain h l where
    ins: "nn_list_insert (hlinks mem) (harray self ! ?i) item None = Inr (h, l)"
      "list_rep h l (xss ! ?i @ [item])" "\<forall>a. a \<notin> set (xss ! ?i @ [item]) \<longrightarrow> h a = hlinks mem a" by auto
  let ?xss = "xss[?i := xss ! ?i @ [item]]" and ?keys = "(hkeys mem)(item := key)"
  have rep: "slots_rep h ((harray self)[?i := l]) ?xss"
    using ins(3) out by (intro slots_rep_update [OF xss(1) i ins(2)]) auto
  moreover have "\<forall>j<length ?xss. set (?xss ! j) = {x \<in> insert item S. slot_of (slots self) (?keys x) = j}"
    using xss(3) fresh i by (auto simp: nth_list_update)
  moreover have "inj_on ?keys (insert item S)"
    using core fresh absent by (auto simp: hash_core_def inj_on_def)
  ultimately have "hash_core \<lparr>hlinks = h, hkeys = ?keys\<rparr>
      (self\<lparr>items := items self + 1, harray := (harray self)[?i := l]\<rparr>) (insert item S)"
    using hash_coreD [OF core] fresh xss(2) by (intro hash_coreI [where xss = ?xss]) simp_all
  with ins(1) fresh show ?thesis by blast
qed

lemma nn_hash_insert_ok:
  assumes ok: "hash_ok mem self S" and new: "\<not> nn_list_item_isinlist (hlinks mem) item"
    and absent: "\<forall>y\<in>S. hkeys mem y \<noteq> key" and room: "room (sizeof_nn_list * (2 * unat (slots self)))"
  shows "\<exists>mem' self'. nn_hash_insert room mem self key item = Some (Inr (mem', self'))
           \<and> hash_ok mem' self' (insert item S) \<and> hkeys mem' = (hkeys mem)(item := key)"
proof -
  have core: "hash_core mem self S" and load: "slots self < 0x80000000 \<longrightarrow> 2 * card S \<le> unat (slots self)"
    using ok by (auto simp: hash_ok_def)
  let ?i = "slot_of (slots self) key"
  obtain h l where ins: "nn_list_insert (hlinks mem) (harray self ! ?i) item None = Inr (h, l)"
    and item: "item \<notin> S"
    and core1: "hash_core \<lparr>hlinks = h, hkeys = (hkeys mem)(item := key)\<rparr>
       (self\<lparr>items := items self + 1, harray := (harray self)[?i := l]\<rparr>) (insert item S)"
    using nn_hash_append_core [OF core new absent] by blast
  have card: "card (insert item S) = Suc (card S)" using hash_coreD(1) [OF core] item by simp
  have find: "nn_hash_find mem key (nn_list_begin (harray self ! ?i)) = Some (Inr None)"
    using nn_hash_lookup [OF core, of key] absent by (auto split: option.splits)
  let ?mem = "\<lparr>hlinks = h, hkeys = (hkeys mem)(item := key)\<rparr>"
  let ?self = "self\<lparr>items := items self + 1, harray := (harray self)[?i := l]\<rparr>"
  let ?full = "(items self + 1) * 2 > slots self \<and> slots self < 0x80000000"
  have step: "nn_hash_insert room mem self key item
      = (if ?full then nn_hash_rehash room ?mem ?self else Some (Inr (?mem, ?self)))"
    using find ins by (cases mem) (simp add: nn_hash_insert_def nn_list_end_def Let_def)
  have big: "2 \<le> unat (slots self)"
  proof -
    obtain k where "k \<in> {5..31}" "unat (slots self) = 2 ^ k" using hash_coreD(4) [OF core] by blast
    then show ?thesis using power_increasing [of 1 k "2::nat"] by simp
  qed
  show ?thesis
  proof (cases ?full)
    case True
    obtain mem' self' where re: "nn_hash_rehash room ?mem ?self = Some (Inr (mem', self'))"
        "hash_core mem' self' (insert item S)" "unat (slots self') = 2 * unat (slots self)" "hkeys mem' = hkeys ?mem"
      using nn_hash_rehash_core [OF core1, of room] True room by auto
    have "2 * card (insert item S) \<le> unat (slots self')"
      using True load big card re(3) by simp
    with re True step show ?thesis by (auto simp: hash_ok_def)
  next
    case False
    have "2 * card (insert item S) \<le> unat (slots self)" if small: "slots self < 0x80000000"
    proof -
      have "2 * card S \<le> unat (slots self)" "unat (slots self) < 2 ^ 31"
        using load small by (auto simp: word_less_nat_alt)
      then have "unat ((of_nat (card S) + 1) * 2 :: u32) = 2 * card (insert item S)"
        using card by (simp add: unat_word_ariths unat_of_nat)
      with False small hash_coreD(3) [OF core] show ?thesis by (simp add: word_less_nat_alt)
    qed
    with False core1 step show ?thesis by (auto simp: hash_ok_def)
  qed
qed

lemma nn_hash_erase_ok:
  assumes ok: "hash_ok mem self S" and item: "item \<in> S"
  shows "\<exists>mem' self'. nn_hash_erase mem self item = Inr (mem', self') \<and> hash_ok mem' self' (S - {item})
           \<and> hkeys mem' = hkeys mem \<and> \<not> nn_list_item_isinlist (hlinks mem') item"
proof -
  have core: "hash_core mem self S" using ok by (simp add: hash_ok_def)
  obtain xss where xss: "slots_rep (hlinks mem) (harray self) xss" "length xss = unat (slots self)"
    "\<forall>i<length xss. set (xss ! i) = {x \<in> S. slot_of (slots self) (hkeys mem x) = i}" "slots self \<noteq> 0"
    using core by (rule hash_coreE)
  let ?i = "slot_of (slots self) (hkeys mem item)"
  have i: "?i < length xss" using slot_of_less xss(2,4) by simp
  then have "item \<in> set (xss ! ?i)" using xss(3) item by simp
  then obtain as bs where split: "xss ! ?i = as @ item # bs" by (meson split_list)
  have li: "list_rep (hlinks mem) (harray self ! ?i) (as @ item # bs)"
    using slots_rep_nth [OF xss(1) i] split by simp
  then have notin: "item \<notin> set as" "item \<notin> set bs" by (auto simp: list_rep_def)
  obtain h l where er: "nn_list_erase (hlinks mem) (harray self ! ?i) item
        = Inr (case bs of [] \<Rightarrow> None | y # _ \<Rightarrow> Some y, h, l)"
      "list_rep h l (as @ bs)" "\<not> nn_list_item_isinlist h item"
      "\<forall>a. a \<notin> set (as @ item # bs) \<longrightarrow> h a = hlinks mem a"
    using nn_list_erase_rep [OF li] by blast
  have rep: "slots_rep h ((harray self)[?i := l]) (xss[?i := as @ bs])"
    using er(4) split by (intro slots_rep_update [OF xss(1) i er(2)]) auto
  have sets: "\<forall>j<length (xss[?i := as @ bs]). set (xss[?i := as @ bs] ! j)
      = {x \<in> S - {item}. slot_of (slots self) (hkeys mem x) = j}"
  proof (intro allI impI)
    fix j assume j: "j < length (xss[?i := as @ bs])"
    have "set (as @ bs) = set (xss ! ?i) - {item}" using split notin by auto
    then show "set (xss[?i := as @ bs] ! j) = {x \<in> S - {item}. slot_of (slots self) (hkeys mem x) = j}"
      using xss(3) i j by (cases "j = ?i") (simp_all, blast+)
  qed
  note D = hash_coreD [OF core]
  have c: "card S = Suc (card (S - {item}))" using D(1) item by (rule card.remove)
  then have "of_nat (card S) - 1 = (of_nat (card (S - {item})) :: u32)" by simp
  then have "hash_core (mem\<lparr>hlinks := h\<rparr>) (self\<lparr>items := items self - 1, harray := (harray self)[?i := l]\<rparr>) (S - {item})"
    using rep sets D xss(2) by (intro hash_coreI [where xss = "xss[?i := as @ bs]"]) (auto intro: inj_on_subset)
  with ok c er(1,3) show ?thesis by (auto simp: hash_ok_def nn_hash_erase_def Let_def)
qed

lemma nn_hash_init_ok:
  assumes "room (sizeof_nn_list * 32)"
  shows "\<exists>self. nn_hash_init room = Inr self \<and> slots self = 32 \<and> hash_ok mem self {}"
proof -
  let ?self = "\<lparr>slots = 32, items = 0, harray = replicate 32 nn_list_init\<rparr>"
  have "\<exists>k\<in>{5..31}. (32::nat) = 2 ^ k" by (rule bexI [of _ 5]) auto
  then have "hash_core mem ?self {}"
    using slots_rep_init [of "hlinks mem" 32] by (intro hash_coreI [where xss = "replicate 32 []"]) auto
  with assms show ?thesis by (simp add: nn_hash_init_def NN_HASH_INITIAL_SLOTS_def hash_ok_def)
qed

lemma nn_list_term_all_iff: "nn_list_term_all ls = Inr () \<longleftrightarrow> (\<forall>l\<in>set ls. l = nn_list_init)"
proof (induction ls)
  case (Cons l ls)
  then show ?case by (cases l) (auto simp: nn_list_term_def nn_list_init_def)
qed simp

section \<open>Properties\<close>

text \<open>
  Property C5. The hash table is a finite map from 32-bit keys to items, whatever the hash function
  does: \<open>nn_hash_get\<close> ends and finds exactly the item of its key, inserting a free item under a new
  key adds it (doubling the table and moving every item when the table gets full), inserting a key
  twice stops at the assertion, erasing takes out exactly the given item. The invariant \<open>hash_ok\<close>
  (every item in the slot of its key, a right counter, a power of two of at least twice as many
  slots as items, or the maximum) holds after each of them.
\<close>
theorem nn_hash_refines:
  assumes "hash_ok mem self S"
  shows "(\<exists>r. nn_hash_get mem self key = Some (Inr r) \<and> (\<forall>x. r = Some x \<longleftrightarrow> x \<in> S \<and> hkeys mem x = key))
       \<and> (key \<in> hkeys mem ` S \<longrightarrow> nn_hash_insert room mem self key item = Some (Inl Assertion))
       \<and> (key \<notin> hkeys mem ` S \<and> \<not> nn_list_item_isinlist (hlinks mem) item
            \<and> room (sizeof_nn_list * (2 * unat (slots self))) \<longrightarrow>
          (\<exists>mem' self'. nn_hash_insert room mem self key item = Some (Inr (mem', self'))
             \<and> hash_ok mem' self' (insert item S) \<and> hkeys mem' = (hkeys mem)(item := key)))
       \<and> (item \<in> S \<longrightarrow>
          (\<exists>mem' self'. nn_hash_erase mem self item = Inr (mem', self') \<and> hash_ok mem' self' (S - {item})
             \<and> hkeys mem' = hkeys mem \<and> \<not> nn_list_item_isinlist (hlinks mem') item))"
proof -
  have core: "hash_core mem self S" using assms by (simp add: hash_ok_def)
  obtain r where r: "nn_hash_find mem key (nn_list_begin (harray self ! slot_of (slots self) key)) = Some (Inr r)"
      "case r of None \<Rightarrow> \<forall>y\<in>S. hkeys mem y \<noteq> key | Some y \<Rightarrow> y \<in> S \<and> hkeys mem y = key"
    using nn_hash_lookup [OF core] by blast
  have "\<forall>x. r = Some x \<longleftrightarrow> x \<in> S \<and> hkeys mem x = key"
    using r(2) hash_coreD(2) [OF core] by (auto split: option.splits dest: inj_onD)
  moreover have "nn_hash_insert room mem self key item = Some (Inl Assertion)" if "key \<in> hkeys mem ` S"
    using r that by (auto simp: nn_hash_insert_def Let_def split: option.splits)
  moreover have "\<forall>y\<in>S. hkeys mem y \<noteq> key" if "key \<notin> hkeys mem ` S" using that by blast
  ultimately show ?thesis
    using r(1) nn_hash_insert_ok [OF assms, of item key room] nn_hash_erase_ok [OF assms, of item]
    by (intro conjI impI) (simp_all add: nn_hash_get_def)
qed

text \<open>A fresh table, and item 5 inserted under key 7.\<close>
theorem nn_hash_refines_witness:
  "\<exists>mem self mem' self'. hash_ok mem self {} \<and> nn_hash_insert (\<lambda>_. True) mem self 7 5 = Some (Inr (mem', self'))
     \<and> hash_ok mem' self' {5} \<and> hkeys mem' 5 = 7"
proof -
  let ?mem = "\<lparr>hlinks = (\<lambda>_. \<lparr>lprev = Not_In_List, lnext = Not_In_List\<rparr>), hkeys = (\<lambda>_. 0)\<rparr>"
  obtain self where ok: "hash_ok ?mem self {}" using nn_hash_init_ok [of "\<lambda>_. True" ?mem] by blast
  have "\<not> nn_list_item_isinlist (hlinks ?mem) 5" by (simp add: nn_list_item_isinlist_def)
  with nn_hash_refines [OF ok, of 7 "\<lambda>_. True" 5] obtain mem' self' where
    "nn_hash_insert (\<lambda>_. True) ?mem self 7 5 = Some (Inr (mem', self'))" "hash_ok mem' self' {5}"
    "hkeys mem' = (hkeys ?mem)(5 := 7)" by auto
  with ok show ?thesis by (intro exI conjI) auto
qed

end
