(* ===== verification/Nn_Errno.thy ===== *)
theory Nn_Errno
  imports Prelude
begin

text \<open>The error numbers that the nanomsg sources return, with their values on Linux (\<open>errno.h\<close>, \<open>nn.h\<close>).\<close>

definition EINTR :: int where "EINTR = 4"
definition EBADF :: int where "EBADF = 9"
definition EAGAIN :: int where "EAGAIN = 11"
definition ENOMEM :: int where "ENOMEM = 12"
definition EINVAL :: int where "EINVAL = 22"
definition ENOPROTOOPT :: int where "ENOPROTOOPT = 92"
definition ENOTSUP :: int where "ENOTSUP = 95"
definition ENOBUFS :: int where "ENOBUFS = 105"
definition EISCONN :: int where "EISCONN = 106"
definition ETIMEDOUT :: int where "ETIMEDOUT = 110"
definition ETERM :: int where "ETERM = 156384712 + 53"
definition EFSM :: int where "EFSM = 156384712 + 54"

lemmas errno_defs = EINTR_def EBADF_def EAGAIN_def ENOMEM_def EINVAL_def ENOPROTOOPT_def ENOTSUP_def
  ENOBUFS_def EISCONN_def ETIMEDOUT_def ETERM_def EFSM_def

end
