(* ===== verification/Nn_Pipe.thy ===== *)
theory Nn_Pipe
  imports Nn_Errno
begin

text \<open>
  The pipes of \<open>nanomsg/src/core/pipe.c\<close> under a PAIR socket, the socket type of both the cache
  server and its client: the pipe state machine, the exclusive pipe of \<open>protocols/utils/excl.c\<close>, the
  raw pair protocol \<open>protocols/pair/xpair.c\<close>, and the events that pipes raise on their socket
  (\<open>aio/fsm.c\<close>, \<open>aio/ctx.c\<close>). The transport behind a pipe is the function pointer \<open>vfptr->send\<close>
  (\<open>recv\<close>) of the code: a parameter that returns a code and whether it called \<open>nn_pipebase_sent\<close>
  (\<open>nn_pipebase_received\<close>) before it returned.
\<close>

section \<open>Pipes and events\<close>

datatype pipe_state = State_Idle | State_Active | State_Failed
datatype pipe_instate = In_Deactivated | In_Idle | In_Receiving | In_Received | In_Async
datatype pipe_outstate = Out_Deactivated | Out_Idle | Out_Sending | Out_Sent | Out_Async

record nn_pipebase =
  pstate :: pipe_state
  instate :: pipe_instate
  outstate :: pipe_outstate

datatype pipe_event = NN_PIPE_IN | NN_PIPE_OUT

definition NN_PIPE_RELEASE :: int where "NN_PIPE_RELEASE = 1"
definition NN_PIPE_PARSED :: int where "NN_PIPE_PARSED = 2"

definition nn_pipebase_init :: nn_pipebase where
  "nn_pipebase_init = \<lparr>pstate = State_Idle, instate = In_Deactivated, outstate = Out_Deactivated\<rparr>"

definition nn_pipebase_term :: "nn_pipebase \<Rightarrow> unit c_result" where
  "nn_pipebase_term self = (if pstate self = State_Idle then Inr () else Inl Assertion)"

text \<open>The queue of a context; an event that is still queued may not be raised again.\<close>

type_synonym events = "(addr \<times> pipe_event) list"

definition nn_fsm_raise :: "events \<Rightarrow> addr \<Rightarrow> pipe_event \<Rightarrow> events c_result" where
  "nn_fsm_raise evs p type = (if (p, type) \<in> set evs then Inl Assertion else Inr (evs @ [(p, type)]))"

definition nn_pipebase_received :: "events \<Rightarrow> addr \<Rightarrow> nn_pipebase \<Rightarrow> (events \<times> nn_pipebase) c_result" where
  "nn_pipebase_received evs p self =
     (if instate self = In_Receiving then Inr (evs, self\<lparr>instate := In_Received\<rparr>)
      else if instate self \<noteq> In_Async then Inl Assertion
      else (case nn_fsm_raise evs p NN_PIPE_IN of
              Inl e \<Rightarrow> Inl e | Inr evs \<Rightarrow> Inr (evs, self\<lparr>instate := In_Idle\<rparr>)))"

definition nn_pipebase_sent :: "events \<Rightarrow> addr \<Rightarrow> nn_pipebase \<Rightarrow> (events \<times> nn_pipebase) c_result" where
  "nn_pipebase_sent evs p self =
     (if outstate self = Out_Sending then Inr (evs, self\<lparr>outstate := Out_Sent\<rparr>)
      else if outstate self \<noteq> Out_Async then Inl Assertion
      else (case nn_fsm_raise evs p NN_PIPE_OUT of
              Inl e \<Rightarrow> Inl e | Inr evs \<Rightarrow> Inr (evs, self\<lparr>outstate := Out_Idle\<rparr>)))"

text \<open>\<open>nn_pipe_send\<close> and \<open>nn_pipe_recv\<close>; \<open>(rc, now)\<close> is what the transport answers.\<close>

definition nn_pipe_send :: "int \<times> bool \<Rightarrow> nn_pipebase \<Rightarrow> (int \<times> nn_pipebase) c_result" where
  "nn_pipe_send transport self =
     (if outstate self \<noteq> Out_Idle then Inl Assertion
      else
        (let self = self\<lparr>outstate := Out_Sending\<rparr>; (rc, now) = transport in
         case (if now then nn_pipebase_sent [] 0 self else Inr ([], self)) of
           Inl e \<Rightarrow> Inl e
         | Inr (_, self) \<Rightarrow>
             if rc < 0 then Inl Assertion
             else if outstate self = Out_Sent then Inr (rc, self\<lparr>outstate := Out_Idle\<rparr>)
             else if outstate self \<noteq> Out_Sending then Inl Assertion
             else Inr (rc OR NN_PIPE_RELEASE, self\<lparr>outstate := Out_Async\<rparr>)))"

definition nn_pipe_recv :: "int \<times> bool \<Rightarrow> nn_pipebase \<Rightarrow> (int \<times> nn_pipebase) c_result" where
  "nn_pipe_recv transport self =
     (if instate self \<noteq> In_Idle then Inl Assertion
      else
        (let self = self\<lparr>instate := In_Receiving\<rparr>; (rc, now) = transport in
         case (if now then nn_pipebase_received [] 0 self else Inr ([], self)) of
           Inl e \<Rightarrow> Inl e
         | Inr (_, self) \<Rightarrow>
             if rc < 0 then Inl Assertion
             else if instate self = In_Received then Inr (rc, self\<lparr>instate := In_Idle\<rparr>)
             else if instate self \<noteq> In_Receiving then Inl Assertion
             else Inr (rc OR NN_PIPE_RELEASE, self\<lparr>instate := In_Async\<rparr>)))"

section \<open>The exclusive pipe and the pair protocol\<close>

record nn_excl =
  epipe :: "addr option"
  einpipe :: "addr option"
  eoutpipe :: "addr option"

definition nn_excl_init :: nn_excl where
  "nn_excl_init = \<lparr>epipe = None, einpipe = None, eoutpipe = None\<rparr>"

definition nn_excl_term :: "nn_excl \<Rightarrow> unit c_result" where
  "nn_excl_term self =
     (if epipe self \<noteq> None \<or> einpipe self \<noteq> None \<or> eoutpipe self \<noteq> None then Inl Assertion else Inr ())"

definition nn_excl_add :: "nn_excl \<Rightarrow> addr \<Rightarrow> int \<times> nn_excl" where
  "nn_excl_add self pipe =
     (if epipe self \<noteq> None then (- EISCONN, self) else (0, self\<lparr>epipe := Some pipe\<rparr>))"

definition nn_excl_rm :: "nn_excl \<Rightarrow> addr \<Rightarrow> nn_excl c_result" where
  "nn_excl_rm self pipe =
     (if epipe self = None then Inl Assertion
      else Inr \<lparr>epipe = None, einpipe = None, eoutpipe = None\<rparr>)"

definition nn_excl_in :: "nn_excl \<Rightarrow> addr \<Rightarrow> nn_excl c_result" where
  "nn_excl_in self pipe =
     (if einpipe self \<noteq> None \<or> epipe self \<noteq> Some pipe then Inl Assertion
      else Inr (self\<lparr>einpipe := Some pipe\<rparr>))"

definition nn_excl_out :: "nn_excl \<Rightarrow> addr \<Rightarrow> nn_excl c_result" where
  "nn_excl_out self pipe =
     (if eoutpipe self \<noteq> None \<or> epipe self \<noteq> Some pipe then Inl Assertion
      else Inr (self\<lparr>eoutpipe := Some pipe\<rparr>))"

text \<open>Sending and receiving change the pipe, so the states of the pipes are passed along.\<close>

type_synonym pipes = "addr \<Rightarrow> nn_pipebase"

definition nn_excl_send ::
  "(addr \<Rightarrow> int \<times> bool) \<Rightarrow> pipes \<Rightarrow> nn_excl \<Rightarrow> (int \<times> pipes \<times> nn_excl) c_result" where
  "nn_excl_send tsend ps self =
     (case eoutpipe self of
        None \<Rightarrow> Inr (- EAGAIN, ps, self)
      | Some p \<Rightarrow>
          (case nn_pipe_send (tsend p) (ps p) of
             Inl e \<Rightarrow> Inl e
           | Inr (rc, pb) \<Rightarrow>
               if rc < 0 then Inl Assertion
               else Inr (rc AND NOT NN_PIPE_RELEASE, ps(p := pb),
                         if rc AND NN_PIPE_RELEASE \<noteq> 0 then self\<lparr>eoutpipe := None\<rparr> else self)))"

definition nn_excl_recv ::
  "(addr \<Rightarrow> int \<times> bool) \<Rightarrow> pipes \<Rightarrow> nn_excl \<Rightarrow> (int \<times> pipes \<times> nn_excl) c_result" where
  "nn_excl_recv trecv ps self =
     (case einpipe self of
        None \<Rightarrow> Inr (- EAGAIN, ps, self)
      | Some p \<Rightarrow>
          (case nn_pipe_recv (trecv p) (ps p) of
             Inl e \<Rightarrow> Inl e
           | Inr (rc, pb) \<Rightarrow>
               if rc < 0 then Inl Assertion
               else Inr (rc AND NOT NN_PIPE_RELEASE, ps(p := pb),
                         if rc AND NN_PIPE_RELEASE \<noteq> 0 then self\<lparr>einpipe := None\<rparr> else self)))"

definition nn_excl_can_send :: "nn_excl \<Rightarrow> bool" where
  "nn_excl_can_send self \<longleftrightarrow> eoutpipe self \<noteq> None"

definition nn_excl_can_recv :: "nn_excl \<Rightarrow> bool" where
  "nn_excl_can_recv self \<longleftrightarrow> einpipe self \<noteq> None"

definition NN_SOCKBASE_EVENT_IN :: int where "NN_SOCKBASE_EVENT_IN = 1"
definition NN_SOCKBASE_EVENT_OUT :: int where "NN_SOCKBASE_EVENT_OUT = 2"

definition nn_xpair_events :: "nn_excl \<Rightarrow> int" where
  "nn_xpair_events excl =
     (let events = 0;
          events = (if nn_excl_can_recv excl then events OR NN_SOCKBASE_EVENT_IN else events)
      in if nn_excl_can_send excl then events OR NN_SOCKBASE_EVENT_OUT else events)"

definition nn_xpair_send ::
  "(addr \<Rightarrow> int \<times> bool) \<Rightarrow> pipes \<Rightarrow> nn_excl \<Rightarrow> (int \<times> pipes \<times> nn_excl) c_result" where
  "nn_xpair_send tsend ps excl = nn_excl_send tsend ps excl"

definition nn_xpair_recv ::
  "(addr \<Rightarrow> int \<times> bool) \<Rightarrow> pipes \<Rightarrow> nn_excl \<Rightarrow> (int \<times> pipes \<times> nn_excl) c_result" where
  "nn_xpair_recv trecv ps excl =
     (case nn_excl_recv trecv ps excl of
        Inl e \<Rightarrow> Inl e
      | Inr (rc, ps, excl) \<Rightarrow> Inr (if rc < 0 then rc else 0, ps, excl))"

definition nn_xpair_add :: "nn_excl \<Rightarrow> addr \<Rightarrow> int \<times> nn_excl" where
  "nn_xpair_add excl pipe = nn_excl_add excl pipe"

definition nn_xpair_rm :: "nn_excl \<Rightarrow> addr \<Rightarrow> nn_excl c_result" where
  "nn_xpair_rm excl pipe = nn_excl_rm excl pipe"

definition nn_xpair_in :: "nn_excl \<Rightarrow> addr \<Rightarrow> nn_excl c_result" where
  "nn_xpair_in excl pipe = nn_excl_in excl pipe"

definition nn_xpair_out :: "nn_excl \<Rightarrow> addr \<Rightarrow> nn_excl c_result" where
  "nn_xpair_out excl pipe = nn_excl_out excl pipe"

definition nn_xpair_init :: nn_excl where
  "nn_xpair_init = nn_excl_init"

definition nn_xpair_term :: "nn_excl \<Rightarrow> unit c_result" where
  "nn_xpair_term excl = nn_excl_term excl"

definition nn_xpair_setopt :: "int \<Rightarrow> int \<Rightarrow> int" where
  "nn_xpair_setopt level option = - ENOPROTOOPT"

definition nn_xpair_getopt :: "int \<Rightarrow> int \<Rightarrow> int" where
  "nn_xpair_getopt level option = - ENOPROTOOPT"

definition nn_xpair_ispeer :: "int \<Rightarrow> int" where
  "nn_xpair_ispeer socktype = (if socktype = 16 then 1 else 0)"

section \<open>A pair socket with its pipes\<close>

record pair_sock =
  pipes_of :: pipes
  excl :: nn_excl
  pending :: events
  current_connections :: int

text \<open>\<open>nn_sock_add\<close> and \<open>nn_sock_rm\<close>, with the connection counter of \<open>nn_sock_stat_increment\<close>.\<close>

definition nn_sock_add :: "pair_sock \<Rightarrow> addr \<Rightarrow> int \<times> pair_sock" where
  "nn_sock_add s p =
     (let (rc, x) = nn_xpair_add (excl s) p
      in (rc, s\<lparr>excl := x, current_connections := current_connections s + (if rc \<ge> 0 then 1 else 0)\<rparr>))"

definition nn_sock_rm :: "pair_sock \<Rightarrow> addr \<Rightarrow> pair_sock c_result" where
  "nn_sock_rm s p =
     (case nn_xpair_rm (excl s) p of
        Inl e \<Rightarrow> Inl e
      | Inr x \<Rightarrow>
          if \<not> current_connections s \<ge> 1 then Inl Assertion
          else Inr (s\<lparr>excl := x, current_connections := current_connections s - 1\<rparr>))"

text \<open>\<open>nn_pipebase_start\<close> and \<open>nn_pipebase_stop\<close> call the socket.\<close>

definition nn_pipebase_start :: "pair_sock \<Rightarrow> addr \<Rightarrow> (int \<times> pair_sock) c_result" where
  "nn_pipebase_start s p =
     (if pstate (pipes_of s p) \<noteq> State_Idle then Inl Assertion
      else
        let self = (pipes_of s p)\<lparr>pstate := State_Active, instate := In_Async, outstate := Out_Idle\<rparr>;
            (rc, s) = nn_sock_add (s\<lparr>pipes_of := (pipes_of s)(p := self)\<rparr>) p
        in if rc < 0 then
             Inr (rc, s\<lparr>pipes_of := (pipes_of s)(p := self\<lparr>pstate := State_Failed\<rparr>)\<rparr>)
           else
             (case nn_fsm_raise (pending s) p NN_PIPE_OUT of
                Inl e \<Rightarrow> Inl e
              | Inr evs \<Rightarrow> Inr (0, s\<lparr>pending := evs\<rparr>)))"

definition nn_pipebase_stop :: "pair_sock \<Rightarrow> addr \<Rightarrow> pair_sock c_result" where
  "nn_pipebase_stop s p =
     (case (if pstate (pipes_of s p) = State_Active then nn_sock_rm s p else Inr s) of
        Inl e \<Rightarrow> Inl e
      | Inr s \<Rightarrow> Inr (s\<lparr>pipes_of := (pipes_of s)(p := (pipes_of s p)\<lparr>pstate := State_Idle\<rparr>)\<rparr>))"

text \<open>The pipe events of \<open>nn_sock_handler\<close>, and the first loop of \<open>nn_ctx_leave\<close>.\<close>

definition nn_sock_pipe_event :: "nn_excl \<Rightarrow> addr \<times> pipe_event \<Rightarrow> nn_excl c_result" where
  "nn_sock_pipe_event x ev =
     (case ev of (p, NN_PIPE_IN) \<Rightarrow> nn_xpair_in x p | (p, NN_PIPE_OUT) \<Rightarrow> nn_xpair_out x p)"

fun process_events :: "nn_excl \<Rightarrow> events \<Rightarrow> nn_excl c_result" where
  "process_events x [] = Inr x"
| "process_events x (ev # evs) =
     (case nn_sock_pipe_event x ev of Inl e \<Rightarrow> Inl e | Inr x \<Rightarrow> process_events x evs)"

definition nn_ctx_leave :: "pair_sock \<Rightarrow> pair_sock c_result" where
  "nn_ctx_leave s =
     (case process_events (excl s) (pending s) of
        Inl e \<Rightarrow> Inl e | Inr x \<Rightarrow> Inr (s\<lparr>excl := x, pending := []\<rparr>))"

text \<open>What can happen to a pair socket: each action enters the context and leaves it.\<close>

datatype pair_action =
    Start addr
  | Stop addr
  | Sent addr
  | Received addr
  | Send "addr \<Rightarrow> int \<times> bool"
  | Recv "addr \<Rightarrow> int \<times> bool"

definition leave_with :: "int \<Rightarrow> pair_sock \<Rightarrow> (int \<times> pair_sock) c_result" where
  "leave_with rc s = (case nn_ctx_leave s of Inl e \<Rightarrow> Inl e | Inr s \<Rightarrow> Inr (rc, s))"

fun pair_do :: "pair_action \<Rightarrow> pair_sock \<Rightarrow> (int \<times> pair_sock) c_result" where
  "pair_do (Start p) s = (case nn_pipebase_start s p of Inl e \<Rightarrow> Inl e | Inr (rc, s) \<Rightarrow> leave_with rc s)"
| "pair_do (Stop p) s = (case nn_pipebase_stop s p of Inl e \<Rightarrow> Inl e | Inr s \<Rightarrow> leave_with 0 s)"
| "pair_do (Sent p) s =
     (case nn_pipebase_sent (pending s) p (pipes_of s p) of
        Inl e \<Rightarrow> Inl e
      | Inr (evs, pb) \<Rightarrow> leave_with 0 (s\<lparr>pipes_of := (pipes_of s)(p := pb), pending := evs\<rparr>))"
| "pair_do (Received p) s =
     (case nn_pipebase_received (pending s) p (pipes_of s p) of
        Inl e \<Rightarrow> Inl e
      | Inr (evs, pb) \<Rightarrow> leave_with 0 (s\<lparr>pipes_of := (pipes_of s)(p := pb), pending := evs\<rparr>))"
| "pair_do (Send tsend) s =
     (case nn_xpair_send tsend (pipes_of s) (excl s) of
        Inl e \<Rightarrow> Inl e
      | Inr (rc, ps, x) \<Rightarrow> leave_with rc (s\<lparr>pipes_of := ps, excl := x\<rparr>))"
| "pair_do (Recv trecv) s =
     (case nn_xpair_recv trecv (pipes_of s) (excl s) of
        Inl e \<Rightarrow> Inl e
      | Inr (rc, ps, x) \<Rightarrow> leave_with rc (s\<lparr>pipes_of := ps, excl := x\<rparr>))"

section \<open>The invariant\<close>

text \<open>
  When an action may happen without error: pipes are started when idle, the transport reports a send
  or a receive only when one is outstanding, and returns 0 or \<open>NN_PIPE_PARSED\<close>, the codes of a
  successful call that the transports of the library use.
\<close>

definition codes_ok :: "(addr \<Rightarrow> int \<times> bool) \<Rightarrow> bool" where
  "codes_ok t \<longleftrightarrow> (\<forall>p. fst (t p) = 0 \<or> fst (t p) = NN_PIPE_PARSED)"

fun enabled :: "pair_sock \<Rightarrow> pair_action \<Rightarrow> bool" where
  "enabled s (Start p) \<longleftrightarrow> pstate (pipes_of s p) = State_Idle"
| "enabled s (Stop p) \<longleftrightarrow> True"
| "enabled s (Sent p) \<longleftrightarrow> pstate (pipes_of s p) = State_Active \<and> outstate (pipes_of s p) = Out_Async"
| "enabled s (Received p) \<longleftrightarrow> pstate (pipes_of s p) = State_Active \<and> instate (pipes_of s p) = In_Async"
| "enabled s (Send t) \<longleftrightarrow> codes_ok t"
| "enabled s (Recv t) \<longleftrightarrow> codes_ok t"

definition pair_init :: pair_sock where
  "pair_init = \<lparr>pipes_of = (\<lambda>_. nn_pipebase_init), excl = nn_xpair_init, pending = [], current_connections = 0\<rparr>"

inductive pair_reach :: "pair_sock \<Rightarrow> bool" where
  reach_init: "pair_reach pair_init"
| reach_step: "pair_reach s \<Longrightarrow> enabled s a \<Longrightarrow> pair_do a s = Inr (rc, s') \<Longrightarrow> pair_reach s'"

text \<open>
  The socket knows exactly what its pipes are up to: its pipe is the one active pipe, readable when
  that pipe is idle for receiving, writable when it is idle for sending.
\<close>

definition pair_inv :: "pair_sock \<Rightarrow> bool" where
  "pair_inv s \<longleftrightarrow> pending s = []
     \<and> (\<forall>p. pstate (pipes_of s p) = State_Active \<longleftrightarrow> epipe (excl s) = Some p)
     \<and> (\<forall>p. einpipe (excl s) = Some p \<longleftrightarrow> epipe (excl s) = Some p \<and> instate (pipes_of s p) = In_Idle)
     \<and> (\<forall>p. eoutpipe (excl s) = Some p \<longleftrightarrow> epipe (excl s) = Some p \<and> outstate (pipes_of s p) = Out_Idle)
     \<and> (\<forall>p. epipe (excl s) = Some p \<longrightarrow> instate (pipes_of s p) \<in> {In_Idle, In_Async}
            \<and> outstate (pipes_of s p) \<in> {Out_Idle, Out_Async})
     \<and> current_connections s = (if epipe (excl s) = None then 0 else 1)"

lemmas xpair_defs = nn_xpair_init_def nn_excl_init_def nn_xpair_add_def nn_excl_add_def nn_xpair_rm_def
  nn_excl_rm_def nn_xpair_in_def nn_excl_in_def nn_xpair_out_def nn_excl_out_def

lemmas sock_defs = nn_pipebase_start_def nn_pipebase_stop_def nn_sock_add_def nn_sock_rm_def
  nn_fsm_raise_def leave_with_def nn_ctx_leave_def nn_sock_pipe_event_def

lemma pair_inv_init: "pair_inv pair_init"
  by (simp add: pair_inv_def pair_init_def nn_pipebase_init_def xpair_defs)

lemma pair_inv_pipes:
  assumes "pair_inv s"
  shows "pstate (pipes_of s p) = State_Active \<longleftrightarrow> epipe (excl s) = Some p"
    and "einpipe (excl s) = Some p \<longleftrightarrow> epipe (excl s) = Some p \<and> instate (pipes_of s p) = In_Idle"
    and "eoutpipe (excl s) = Some p \<longleftrightarrow> epipe (excl s) = Some p \<and> outstate (pipes_of s p) = Out_Idle"
  using assms by (simp_all add: pair_inv_def)

lemma pair_inv_busy:
  assumes "pair_inv s"
  shows "epipe (excl s) = None \<Longrightarrow> einpipe (excl s) = None \<and> eoutpipe (excl s) = None"
    and "epipe (excl s) = Some p \<Longrightarrow> instate (pipes_of s p) = In_Async \<Longrightarrow> einpipe (excl s) = None"
    and "epipe (excl s) = Some p \<Longrightarrow> outstate (pipes_of s p) = Out_Async \<Longrightarrow> eoutpipe (excl s) = None"
proof -
  have "einpipe (excl s) = None" if "\<forall>q. \<not> (epipe (excl s) = Some q \<and> instate (pipes_of s q) = In_Idle)"
    using that pair_inv_pipes(2) [OF assms] by (metis option.exhaust)
  moreover have "eoutpipe (excl s) = None" if "\<forall>q. \<not> (epipe (excl s) = Some q \<and> outstate (pipes_of s q) = Out_Idle)"
    using that pair_inv_pipes(3) [OF assms] by (metis option.exhaust)
  ultimately show "epipe (excl s) = None \<Longrightarrow> einpipe (excl s) = None \<and> eoutpipe (excl s) = None"
    "epipe (excl s) = Some p \<Longrightarrow> instate (pipes_of s p) = In_Async \<Longrightarrow> einpipe (excl s) = None"
    "epipe (excl s) = Some p \<Longrightarrow> outstate (pipes_of s p) = Out_Async \<Longrightarrow> eoutpipe (excl s) = None"
    by simp_all
qed

lemma start_step:
  assumes inv: "pair_inv s" and "pstate (pipes_of s p) = State_Idle"
  shows "\<exists>rc s'. pair_do (Start p) s = Inr (rc, s') \<and> pair_inv s'
           \<and> rc = (if epipe (excl s) = None then 0 else - EISCONN)
           \<and> (epipe (excl s) \<noteq> None \<longrightarrow> excl s' = excl s)"
proof (cases "epipe (excl s)")
  case None
  then have "einpipe (excl s) = None" "eoutpipe (excl s) = None"
    using pair_inv_busy(1) [OF inv] by simp_all
  with None assms show ?thesis
    by (auto simp: sock_defs xpair_defs pair_inv_def)
next
  case (Some q)
  then have "q \<noteq> p" using assms(2) pair_inv_pipes(1) [OF inv, of p] by auto
  with Some assms show ?thesis
    by (auto simp: sock_defs xpair_defs pair_inv_def EISCONN_def)
qed

lemma stop_step:
  assumes inv: "pair_inv s"
  shows "\<exists>s'. pair_do (Stop p) s = Inr (0, s') \<and> pair_inv s'"
proof (cases "pstate (pipes_of s p) = State_Active")
  case True
  then have "epipe (excl s) = Some p" using inv by (simp add: pair_inv_def)
  with True inv show ?thesis by (auto simp: sock_defs xpair_defs pair_inv_def)
next
  case False
  with inv show ?thesis by (auto simp: sock_defs xpair_defs pair_inv_def)
qed

lemma sent_step:
  assumes inv: "pair_inv s" and "enabled s (Sent p)"
  shows "\<exists>s'. pair_do (Sent p) s = Inr (0, s') \<and> pair_inv s'"
proof -
  have e: "epipe (excl s) = Some p" "outstate (pipes_of s p) = Out_Async" "pending s = []"
    using assms by (simp_all add: pair_inv_def)
  then have "eoutpipe (excl s) = None" using pair_inv_busy(3) [OF inv] by simp
  with e inv show ?thesis
    by (auto simp: nn_pipebase_sent_def sock_defs xpair_defs pair_inv_def)
qed

lemma received_step:
  assumes inv: "pair_inv s" and "enabled s (Received p)"
  shows "\<exists>s'. pair_do (Received p) s = Inr (0, s') \<and> pair_inv s'"
proof -
  have e: "epipe (excl s) = Some p" "instate (pipes_of s p) = In_Async" "pending s = []"
    using assms by (simp_all add: pair_inv_def)
  then have "einpipe (excl s) = None" using pair_inv_busy(2) [OF inv] by simp
  with e inv show ?thesis
    by (auto simp: nn_pipebase_received_def sock_defs xpair_defs pair_inv_def)
qed

lemma code_bits:
  assumes "rc = 0 \<or> rc = NN_PIPE_PARSED"
  shows "rc AND NN_PIPE_RELEASE = 0" "(rc OR NN_PIPE_RELEASE) AND NN_PIPE_RELEASE = 1"
    "rc AND NOT NN_PIPE_RELEASE = rc" "(rc OR NN_PIPE_RELEASE) AND NOT NN_PIPE_RELEASE = rc"
    "0 \<le> rc" "0 \<le> rc OR NN_PIPE_RELEASE"
  using assms by (auto simp: NN_PIPE_RELEASE_def NN_PIPE_PARSED_def)

lemma send_step:
  assumes inv: "pair_inv s" and ok: "codes_ok t"
  shows "case eoutpipe (excl s) of
           None \<Rightarrow> pair_do (Send t) s = Inr (- EAGAIN, s)
         | Some p \<Rightarrow> \<exists>s'. pair_do (Send t) s = Inr (fst (t p), s') \<and> pair_inv s'"
proof (cases "eoutpipe (excl s)")
  case None
  with inv show ?thesis
    by (simp add: nn_xpair_send_def nn_excl_send_def sock_defs pair_inv_def)
next
  case (Some p)
  then have p: "epipe (excl s) = Some p" "outstate (pipes_of s p) = Out_Idle" using inv by (auto simp: pair_inv_def)
  obtain rc now where t: "t p = (rc, now)" by (cases "t p")
  have rc: "rc = 0 \<or> rc = NN_PIPE_PARSED" using ok t by (auto simp: codes_ok_def dest: spec [of _ p])
  note bits = code_bits [OF rc]
  show ?thesis
    using Some p t inv bits
    by (cases now) (auto simp: nn_xpair_send_def nn_excl_send_def nn_pipe_send_def nn_pipebase_sent_def
        sock_defs pair_inv_def)
qed

lemma recv_step:
  assumes inv: "pair_inv s" and ok: "codes_ok t"
  shows "case einpipe (excl s) of
           None \<Rightarrow> pair_do (Recv t) s = Inr (- EAGAIN, s)
         | Some p \<Rightarrow> \<exists>s'. pair_do (Recv t) s = Inr (0, s') \<and> pair_inv s'"
proof (cases "einpipe (excl s)")
  case None
  with inv show ?thesis
    by (simp add: nn_xpair_recv_def nn_excl_recv_def sock_defs pair_inv_def EAGAIN_def)
next
  case (Some p)
  then have p: "epipe (excl s) = Some p" "instate (pipes_of s p) = In_Idle" using inv by (auto simp: pair_inv_def)
  obtain rc now where t: "t p = (rc, now)" by (cases "t p")
  have rc: "rc = 0 \<or> rc = NN_PIPE_PARSED" using ok t by (auto simp: codes_ok_def dest: spec [of _ p])
  note bits = code_bits [OF rc]
  show ?thesis
    using Some p t inv bits
    by (cases now) (auto simp: nn_xpair_recv_def nn_excl_recv_def nn_pipe_recv_def nn_pipebase_received_def
        sock_defs pair_inv_def)
qed

lemma pair_step:
  assumes inv: "pair_inv s" and en: "enabled s a"
  shows "\<exists>rc s'. pair_do a s = Inr (rc, s') \<and> pair_inv s'"
proof (cases a)
  case (Send t)
  with send_step [OF inv, of t] en inv show ?thesis by (auto split: option.splits)
next
  case (Recv t)
  with recv_step [OF inv, of t] en inv show ?thesis by (auto split: option.splits)
qed (use en start_step [OF inv] stop_step [OF inv] sent_step [OF inv] received_step [OF inv] in fastforce)+

lemma pair_reach_inv: "pair_reach s \<Longrightarrow> pair_inv s"
proof (induction rule: pair_reach.induct)
  case reach_init
  show ?case by (rule pair_inv_init)
next
  case (reach_step s a rc s')
  with pair_step [of s a] show ?case by auto
qed

inductive_cases pair_reachE: "pair_reach s"

lemma start_refused:
  assumes inv: "pair_inv s" and p: "epipe (excl s) = Some p" and q: "pstate (pipes_of s q) = State_Idle"
  shows "\<exists>s'. pair_do (Start q) s = Inr (- EISCONN, s') \<and> excl s' = excl s \<and> pipes_of s' p = pipes_of s p"
proof -
  have "q \<noteq> p" using p q pair_inv_pipes(1) [OF inv, of p] by auto
  with assms show ?thesis by (auto simp: sock_defs xpair_defs EISCONN_def pair_inv_def)
qed

lemma xpair_events_inv:
  assumes inv: "pair_inv s"
  shows "nn_xpair_events (excl s) AND NN_SOCKBASE_EVENT_IN \<noteq> 0
           \<longleftrightarrow> (\<exists>p. pstate (pipes_of s p) = State_Active \<and> instate (pipes_of s p) = In_Idle)"
    and "nn_xpair_events (excl s) AND NN_SOCKBASE_EVENT_OUT \<noteq> 0
           \<longleftrightarrow> (\<exists>p. pstate (pipes_of s p) = State_Active \<and> outstate (pipes_of s p) = Out_Idle)"
proof -
  have "nn_xpair_events (excl s) AND NN_SOCKBASE_EVENT_IN \<noteq> 0 \<longleftrightarrow> einpipe (excl s) \<noteq> None"
    by (simp add: nn_xpair_events_def nn_excl_can_recv_def nn_excl_can_send_def Let_def
        NN_SOCKBASE_EVENT_IN_def NN_SOCKBASE_EVENT_OUT_def)
  then show "nn_xpair_events (excl s) AND NN_SOCKBASE_EVENT_IN \<noteq> 0
      \<longleftrightarrow> (\<exists>p. pstate (pipes_of s p) = State_Active \<and> instate (pipes_of s p) = In_Idle)"
    using pair_inv_pipes [OF inv] by auto
  have "nn_xpair_events (excl s) AND NN_SOCKBASE_EVENT_OUT \<noteq> 0 \<longleftrightarrow> eoutpipe (excl s) \<noteq> None"
    by (simp add: nn_xpair_events_def nn_excl_can_recv_def nn_excl_can_send_def Let_def
        NN_SOCKBASE_EVENT_IN_def NN_SOCKBASE_EVENT_OUT_def)
  then show "nn_xpair_events (excl s) AND NN_SOCKBASE_EVENT_OUT \<noteq> 0
      \<longleftrightarrow> (\<exists>p. pstate (pipes_of s p) = State_Active \<and> outstate (pipes_of s p) = Out_Idle)"
    using pair_inv_pipes [OF inv] by auto
qed

section \<open>The documented contract of the transports\<close>














section \<open>Properties\<close>




text \<open>
  Property C23. A pair socket has one peer. In every reachable state at most one pipe is active, a
  further pipe is refused with \<open>EISCONN\<close> and leaves the connection alone, the socket reports itself
  readable (writable) exactly when its pipe is idle for receiving (sending), and sending returns
  \<open>EAGAIN\<close> exactly when it is not writable.
\<close>
theorem pair_exclusive:
  assumes "pair_reach s" and "codes_ok t"
  shows "(pstate (pipes_of s p) = State_Active \<and> pstate (pipes_of s q) = State_Active \<longrightarrow> p = q)
       \<and> (pstate (pipes_of s p) = State_Active \<and> pstate (pipes_of s q) = State_Idle \<longrightarrow>
            (\<exists>s'. pair_do (Start q) s = Inr (- EISCONN, s') \<and> excl s' = excl s \<and> pipes_of s' p = pipes_of s p))
       \<and> (nn_xpair_events (excl s) AND NN_SOCKBASE_EVENT_IN \<noteq> 0
            \<longleftrightarrow> (\<exists>p. pstate (pipes_of s p) = State_Active \<and> instate (pipes_of s p) = In_Idle))
       \<and> (nn_xpair_events (excl s) AND NN_SOCKBASE_EVENT_OUT \<noteq> 0
            \<longleftrightarrow> (\<exists>p. pstate (pipes_of s p) = State_Active \<and> outstate (pipes_of s p) = Out_Idle))
       \<and> (\<exists>rc s'. pair_do (Send t) s = Inr (rc, s')
            \<and> (rc = - EAGAIN \<longleftrightarrow> nn_xpair_events (excl s) AND NN_SOCKBASE_EVENT_OUT = 0))"
proof -
  have inv: "pair_inv s" by (rule pair_reach_inv [OF assms(1)])
  have "eoutpipe (excl s) = None \<longleftrightarrow> nn_xpair_events (excl s) AND NN_SOCKBASE_EVENT_OUT = 0"
    by (simp add: nn_xpair_events_def nn_excl_can_recv_def nn_excl_can_send_def Let_def
        NN_SOCKBASE_EVENT_IN_def NN_SOCKBASE_EVENT_OUT_def)
  moreover have "fst (t p) \<noteq> - EAGAIN" for p
    using assms(2) by (auto simp: codes_ok_def EAGAIN_def NN_PIPE_PARSED_def dest: spec [of _ p])
  ultimately have "\<exists>rc s'. pair_do (Send t) s = Inr (rc, s')
      \<and> (rc = - EAGAIN \<longleftrightarrow> nn_xpair_events (excl s) AND NN_SOCKBASE_EVENT_OUT = 0)"
    using send_step [OF inv assms(2)] by (cases "eoutpipe (excl s)") auto
  then show ?thesis
    using start_refused [OF inv] xpair_events_inv [OF inv] pair_inv_pipes(1) [OF inv] by auto
qed

text \<open>The fresh socket: not writable, so sending returns \<open>EAGAIN\<close>.\<close>
theorem pair_exclusive_witness:
  "\<exists>rc s'. pair_do (Send (\<lambda>_. (0, True))) pair_init = Inr (rc, s')
     \<and> (rc = - EAGAIN \<longleftrightarrow> nn_xpair_events (excl pair_init) AND NN_SOCKBASE_EVENT_OUT = 0)"
  using pair_exclusive [OF reach_init, of "\<lambda>_. (0, True)"] by (simp add: codes_ok_def)

end
