(* ===== verification/Nn_Prio.thy ===== *)
theory Nn_Prio
  imports Nn_Pipe
begin

text \<open>
  The prioritised pipe list of \<open>nanomsg/src/protocols/utils/priolist.c\<close> and its two users, the load
  balancer \<open>lb.c\<close> and the fair queue \<open>fq.c\<close>. The doubly linked lists of the slots are HOL lists of
  the addresses of their \<open>nn_priolist_data\<close>, as the refinement of \<open>nn_list\<close> allows. An address is in
  a list exactly when \<open>nn_list_item_isinlist\<close> holds for it.
\<close>

section \<open>The list\<close>

record priolist_data =
  dpipe :: addr
  dprio :: int

record priolist_slot =
  spipes :: "addr list"
  scurrent :: "addr option"

record nn_priolist =
  pslots :: "priolist_slot list"
  pcurrent :: int

type_synonym prio_mem = "addr \<Rightarrow> priolist_data"

definition NN_PRIOLIST_SLOTS :: nat where "NN_PRIOLIST_SLOTS = 16"

text \<open>The iterator behind an item, as \<open>nn_list_next\<close> and \<open>nn_list_erase\<close> return it.\<close>

fun next_in :: "addr \<Rightarrow> addr list \<Rightarrow> addr option" where
  "next_in x [] = None"
| "next_in x (y # ys) = (if x = y then (case ys of [] \<Rightarrow> None | z # _ \<Rightarrow> Some z) else next_in x ys)"

definition list_begin :: "addr list \<Rightarrow> addr option" where
  "list_begin xs = (case xs of [] \<Rightarrow> None | x # _ \<Rightarrow> Some x)"

definition nn_priolist_init :: nn_priolist where
  "nn_priolist_init = \<lparr>pslots = replicate NN_PRIOLIST_SLOTS \<lparr>spipes = [], scurrent = None\<rparr>, pcurrent = -1\<rparr>"

definition nn_priolist_term :: "nn_priolist \<Rightarrow> unit c_result" where
  "nn_priolist_term self = (if \<forall>s\<in>set (pslots self). spipes s = [] then Inr () else Inl Assertion)"

definition nn_priolist_add :: "prio_mem \<Rightarrow> addr \<Rightarrow> addr \<Rightarrow> int \<Rightarrow> prio_mem" where
  "nn_priolist_add mem data pipe priority = mem(data := \<lparr>dpipe = pipe, dprio = priority\<rparr>)"

text \<open>The slot of a priority, and its replacement.\<close>

abbreviation slot_at :: "nn_priolist \<Rightarrow> int \<Rightarrow> priolist_slot" where
  "slot_at self p \<equiv> pslots self ! nat (p - 1)"

definition put_slot :: "nn_priolist \<Rightarrow> int \<Rightarrow> priolist_slot \<Rightarrow> nn_priolist" where
  "put_slot self p s = self\<lparr>pslots := (pslots self)[nat (p - 1) := s]\<rparr>"

text \<open>The loop that moves \<open>current\<close> to the next non-empty slot.\<close>

function skip_empty :: "priolist_slot list \<Rightarrow> int \<Rightarrow> int" where
  "skip_empty ss c =
     (if spipes (ss ! nat (c - 1)) = [] then
        (if c + 1 > int NN_PRIOLIST_SLOTS then -1 else skip_empty ss (c + 1))
      else c)"
  by pat_completeness auto
termination by (relation "measure (\<lambda>(ss, c). nat (int NN_PRIOLIST_SLOTS - c))") auto

declare skip_empty.simps [simp del]

definition nn_priolist_rm :: "prio_mem \<Rightarrow> nn_priolist \<Rightarrow> addr \<Rightarrow> nn_priolist" where
  "nn_priolist_rm mem self data =
     (let p = dprio (mem data); slot = slot_at self p in
      if data \<notin> set (spipes slot) then self
      else if scurrent slot \<noteq> Some data then
        put_slot self p (slot\<lparr>spipes := remove1 data (spipes slot)\<rparr>)
      else
        let it = next_in data (spipes slot);
            rest = remove1 data (spipes slot);
            self = put_slot self p \<lparr>spipes = rest, scurrent = (if it = None then list_begin rest else it)\<rparr>
        in if pcurrent self \<noteq> p then self
           else self\<lparr>pcurrent := skip_empty (pslots self) (pcurrent self)\<rparr>)"

definition nn_priolist_activate :: "prio_mem \<Rightarrow> nn_priolist \<Rightarrow> addr \<Rightarrow> nn_priolist c_result" where
  "nn_priolist_activate mem self data =
     (let p = dprio (mem data); slot = slot_at self p in
      if data \<in> set (spipes slot) then Inl Assertion
      else if spipes slot \<noteq> [] then Inr (put_slot self p (slot\<lparr>spipes := spipes slot @ [data]\<rparr>))
      else
        let self = put_slot self p \<lparr>spipes = spipes slot @ [data], scurrent = Some data\<rparr>
        in if pcurrent self = -1 then Inr (self\<lparr>pcurrent := p\<rparr>)
           else if pcurrent self > p then Inr (self\<lparr>pcurrent := p\<rparr>)
           else Inr self)"

definition nn_priolist_is_active :: "nn_priolist \<Rightarrow> bool" where
  "nn_priolist_is_active self \<longleftrightarrow> pcurrent self \<noteq> -1"

definition nn_priolist_getpipe :: "prio_mem \<Rightarrow> nn_priolist \<Rightarrow> addr option c_result" where
  "nn_priolist_getpipe mem self =
     (if pcurrent self = -1 then Inr None
      else (case scurrent (slot_at self (pcurrent self)) of
              None \<Rightarrow> Inl Null_Pointer
            | Some data \<Rightarrow> Inr (Some (dpipe (mem data)))))"

definition nn_priolist_advance :: "nn_priolist \<Rightarrow> bool \<Rightarrow> nn_priolist c_result" where
  "nn_priolist_advance self release =
     (if \<not> pcurrent self > 0 then Inl Assertion
      else
        let p = pcurrent self; slot = slot_at self p in
        case scurrent slot of
          None \<Rightarrow> Inl Null_Pointer
        | Some data \<Rightarrow>
            let it = next_in data (spipes slot);
                rest = (if release then remove1 data (spipes slot) else spipes slot);
                self = put_slot self p \<lparr>spipes = rest, scurrent = (if it = None then list_begin rest else it)\<rparr>
            in Inr (self\<lparr>pcurrent := skip_empty (pslots self) p\<rparr>))"

definition nn_priolist_get_priority :: "nn_priolist \<Rightarrow> int" where
  "nn_priolist_get_priority self = pcurrent self"

section \<open>Load balancing and fair queueing\<close>

text \<open>
  \<open>struct nn_lb\<close> and \<open>struct nn_fq\<close> hold nothing but a priority list. \<open>tsend\<close> and \<open>trecv\<close> give what
  the transport answers to \<open>nn_pipe_send\<close> and \<open>nn_pipe_recv\<close>. The result carries the pipe used.
\<close>

type_synonym nn_lb = nn_priolist
type_synonym nn_fq = nn_priolist

definition nn_lb_send ::
  "(addr \<Rightarrow> int \<times> bool) \<Rightarrow> prio_mem \<Rightarrow> pipes \<Rightarrow> nn_lb \<Rightarrow> (int \<times> addr option \<times> pipes \<times> nn_lb) c_result" where
  "nn_lb_send tsend mem ps self =
     (case nn_priolist_getpipe mem self of
        Inl e \<Rightarrow> Inl e
      | Inr None \<Rightarrow> Inr (- EAGAIN, None, ps, self)
      | Inr (Some pipe) \<Rightarrow>
          (case nn_pipe_send (tsend pipe) (ps pipe) of
             Inl e \<Rightarrow> Inl e
           | Inr (rc, pb) \<Rightarrow>
               if rc < 0 then Inl Assertion
               else (case nn_priolist_advance self (rc AND NN_PIPE_RELEASE \<noteq> 0) of
                       Inl e \<Rightarrow> Inl e
                     | Inr self \<Rightarrow> Inr (rc AND NOT NN_PIPE_RELEASE, Some pipe, ps(pipe := pb), self))))"

definition nn_fq_recv ::
  "(addr \<Rightarrow> int \<times> bool) \<Rightarrow> prio_mem \<Rightarrow> pipes \<Rightarrow> nn_fq \<Rightarrow> (int \<times> addr option \<times> pipes \<times> nn_fq) c_result" where
  "nn_fq_recv trecv mem ps self =
     (case nn_priolist_getpipe mem self of
        Inl e \<Rightarrow> Inl e
      | Inr None \<Rightarrow> Inr (- EAGAIN, None, ps, self)
      | Inr (Some p) \<Rightarrow>
          (case nn_pipe_recv (trecv p) (ps p) of
             Inl e \<Rightarrow> Inl e
           | Inr (rc, pb) \<Rightarrow>
               if rc < 0 then Inl Assertion
               else (case nn_priolist_advance self (rc AND NN_PIPE_RELEASE \<noteq> 0) of
                       Inl e \<Rightarrow> Inl e
                     | Inr self \<Rightarrow> Inr (rc AND NOT NN_PIPE_RELEASE, Some p, ps(p := pb), self))))"

definition nn_lb_init :: nn_lb where
  "nn_lb_init = nn_priolist_init"

definition nn_lb_term :: "nn_lb \<Rightarrow> unit c_result" where
  "nn_lb_term self = nn_priolist_term self"

definition nn_fq_init :: nn_fq where
  "nn_fq_init = nn_priolist_init"

definition nn_fq_term :: "nn_fq \<Rightarrow> unit c_result" where
  "nn_fq_term self = nn_priolist_term self"

definition nn_lb_add :: "prio_mem \<Rightarrow> addr \<Rightarrow> addr \<Rightarrow> int \<Rightarrow> prio_mem" where
  "nn_lb_add mem data pipe priority = nn_priolist_add mem data pipe priority"

definition nn_lb_rm :: "prio_mem \<Rightarrow> nn_priolist \<Rightarrow> addr \<Rightarrow> nn_priolist" where
  "nn_lb_rm mem self data = nn_priolist_rm mem self data"

definition nn_lb_out :: "prio_mem \<Rightarrow> nn_priolist \<Rightarrow> addr \<Rightarrow> nn_priolist c_result" where
  "nn_lb_out mem self data = nn_priolist_activate mem self data"

definition nn_lb_can_send :: "nn_priolist \<Rightarrow> bool" where
  "nn_lb_can_send self \<longleftrightarrow> nn_priolist_is_active self"

definition nn_lb_get_priority :: "nn_priolist \<Rightarrow> int" where
  "nn_lb_get_priority self = nn_priolist_get_priority self"

definition nn_fq_add :: "prio_mem \<Rightarrow> addr \<Rightarrow> addr \<Rightarrow> int \<Rightarrow> prio_mem" where
  "nn_fq_add mem data pipe priority = nn_priolist_add mem data pipe priority"

definition nn_fq_rm :: "prio_mem \<Rightarrow> nn_priolist \<Rightarrow> addr \<Rightarrow> nn_priolist" where
  "nn_fq_rm mem self data = nn_priolist_rm mem self data"

definition nn_fq_in :: "prio_mem \<Rightarrow> nn_priolist \<Rightarrow> addr \<Rightarrow> nn_priolist c_result" where
  "nn_fq_in mem self data = nn_priolist_activate mem self data"

definition nn_fq_can_recv :: "nn_priolist \<Rightarrow> bool" where
  "nn_fq_can_recv self \<longleftrightarrow> nn_priolist_is_active self"

section \<open>The invariant\<close>

text \<open>
  Every slot has a current pipe exactly when it has pipes, the pipes of a slot have its priority, and
  \<open>pcurrent\<close> is the first non-empty slot, or \<open>-1\<close>.
\<close>

definition slot_ok :: "prio_mem \<Rightarrow> int \<Rightarrow> priolist_slot \<Rightarrow> bool" where
  "slot_ok mem p s \<longleftrightarrow> distinct (spipes s) \<and> (\<forall>d\<in>set (spipes s). dprio (mem d) = p)
     \<and> (case scurrent s of None \<Rightarrow> spipes s = [] | Some d \<Rightarrow> d \<in> set (spipes s))"

definition slots_ok :: "prio_mem \<Rightarrow> priolist_slot list \<Rightarrow> bool" where
  "slots_ok mem ss \<longleftrightarrow> length ss = 16 \<and> (\<forall>i<16. slot_ok mem (int i + 1) (ss ! i))"

definition first_slot :: "priolist_slot list \<Rightarrow> int \<Rightarrow> bool" where
  "first_slot ss c \<longleftrightarrow>
     (if \<forall>s\<in>set ss. spipes s = [] then c = -1
      else 1 \<le> c \<and> c \<le> int (length ss) \<and> spipes (ss ! nat (c - 1)) \<noteq> [] \<and> (\<forall>i. int i < c - 1 \<longrightarrow> spipes (ss ! i) = []))"

definition prio_ok :: "prio_mem \<Rightarrow> nn_priolist \<Rightarrow> bool" where
  "prio_ok mem self \<longleftrightarrow> slots_ok mem (pslots self) \<and> first_slot (pslots self) (pcurrent self)"

lemma skip_empty_first:
  assumes "length ss = 16" and "1 \<le> c" and "c \<le> 16" and "\<forall>i. int i < c - 1 \<longrightarrow> spipes (ss ! i) = []"
  shows "first_slot ss (skip_empty ss c)"
  using assms
proof (induction ss c rule: skip_empty.induct)
  case (1 ss c)
  show ?case
  proof (cases "spipes (ss ! nat (c - 1)) = []")
    case True
    have all: "\<forall>i. int i < c \<longrightarrow> spipes (ss ! i) = []"
    proof (intro allI impI)
      fix i assume "int i < c"
      then show "spipes (ss ! i) = []"
        using 1(5) True by (cases "int i = c - 1") (auto simp: nat_eq_iff dest: sym)
    qed
    show ?thesis
    proof (cases "c + 1 > 16")
      case True2: True
      then have "\<forall>s\<in>set ss. spipes s = []"
        using all 1(2,4) by (auto simp: in_set_conv_nth)
      with True True2 show ?thesis
        by (subst skip_empty.simps) (simp add: NN_PRIOLIST_SLOTS_def first_slot_def)
    next
      case False
      with True all 1 show ?thesis
        by (subst skip_empty.simps) (simp add: NN_PRIOLIST_SLOTS_def)
    qed
  next
    case False
    moreover have "ss ! nat (c - 1) \<in> set ss" using 1(2,3,4) by simp
    ultimately have "\<not> (\<forall>s\<in>set ss. spipes s = [])" by blast
    with False 1(2-5) show ?thesis
      by (subst skip_empty.simps) (simp add: first_slot_def)
  qed
qed


text \<open>A non-empty slot other than the current one may change freely, the current one stays non-empty.\<close>

lemma first_slot_update:
  assumes "first_slot ss c" and "1 \<le> p" and "p \<le> int (length ss)"
    and "spipes (ss ! nat (p - 1)) \<noteq> []" and "spipes s \<noteq> [] \<or> c \<noteq> p"
  shows "first_slot (ss[nat (p - 1) := s]) c"
proof -
  have "ss ! nat (p - 1) \<in> set ss" using assms(2,3) by simp
  then have c: "1 \<le> c" "c \<le> int (length ss)" "spipes (ss ! nat (c - 1)) \<noteq> []"
    "\<forall>i. int i < c - 1 \<longrightarrow> spipes (ss ! i) = []"
    using assms(1,4) by (auto simp: first_slot_def split: if_splits)
  have "\<not> p < c" using c(4)[rule_format, of "nat (p - 1)"] assms(2,4) by auto
  then have le: "c \<le> p" by simp
  have before: "\<forall>i. int i < c - 1 \<longrightarrow> spipes (ss[nat (p - 1) := s] ! i) = []"
    using c(4) le by (auto simp: nth_list_update)
  have at_c: "spipes (ss[nat (p - 1) := s] ! nat (c - 1)) \<noteq> []"
  proof (cases "c = p")
    case True
    with assms(3,5) c(1,2) show ?thesis by simp
  next
    case False
    then have "nat (c - 1) \<noteq> nat (p - 1)" using c(1) assms(2) by simp
    with c(3) show ?thesis by simp
  qed
  moreover have "ss[nat (p - 1) := s] ! nat (c - 1) \<in> set (ss[nat (p - 1) := s])"
    using c(1,2) by (intro nth_mem) simp
  ultimately have "\<not> (\<forall>t\<in>set (ss[nat (p - 1) := s]). spipes t = [])" by blast
  with before at_c c(1,2) show ?thesis by (simp add: first_slot_def)
qed

text \<open>A slot that becomes non-empty is the first one when it precedes the current one.\<close>

lemma first_slot_add:
  assumes "first_slot ss c" and "1 \<le> p" and "p \<le> int (length ss)"
    and "spipes (ss ! nat (p - 1)) = []" and "spipes s \<noteq> []"
  shows "first_slot (ss[nat (p - 1) := s]) (if c = -1 \<or> c > p then p else c)"
proof -
  let ?ss = "ss[nat (p - 1) := s]"
  have at_p: "?ss ! nat (p - 1) = s" using assms(2,3) by simp
  moreover have "?ss ! nat (p - 1) \<in> set ?ss" using assms(2,3) by (intro nth_mem) simp
  ultimately have some: "\<not> (\<forall>t\<in>set ?ss. spipes t = [])" using assms(5) by auto
  show ?thesis
  proof (cases "\<forall>t\<in>set ss. spipes t = []")
    case True
    then have "c = -1" using assms(1) by (simp add: first_slot_def)
    moreover have "\<forall>i. int i < p - 1 \<longrightarrow> spipes (?ss ! i) = []"
      using True assms(3) by (auto simp: nth_list_update)
    ultimately show ?thesis using some at_p assms(2,3,5) by (simp add: first_slot_def)
  next
    case False
    then have c: "1 \<le> c" "c \<le> int (length ss)" "spipes (ss ! nat (c - 1)) \<noteq> []"
      "\<forall>i. int i < c - 1 \<longrightarrow> spipes (ss ! i) = []"
      using assms(1) by (auto simp: first_slot_def)
    have "c \<noteq> p" using c(3) assms(4) by auto
    show ?thesis
    proof (cases "c > p")
      case True
      then have "\<forall>i. int i < p - 1 \<longrightarrow> spipes (?ss ! i) = []"
        using c(4) by (auto simp: nth_list_update)
      with True some at_p assms(2,3,5) show ?thesis by (simp add: first_slot_def)
    next
      case F: False
      then have "\<forall>i. int i < c - 1 \<longrightarrow> spipes (?ss ! i) = []"
        using c(4) \<open>c \<noteq> p\<close> by (auto simp: nth_list_update)
      moreover have "nat (c - 1) \<noteq> nat (p - 1)" using c(1) assms(2) \<open>c \<noteq> p\<close> by simp
      ultimately show ?thesis using F c some by (simp add: first_slot_def)
    qed
  qed
qed

lemma slots_ok_update:
  assumes "slots_ok mem ss" and "1 \<le> p" and "slot_ok mem p s"
  shows "slots_ok mem (ss[nat (p - 1) := s])"
proof -
  have "slot_ok mem (int i + 1) (ss[nat (p - 1) := s] ! i)" if "i < 16" for i
  proof (cases "i = nat (p - 1)")
    case True
    with assms that show ?thesis by (simp add: slots_ok_def)
  next
    case False
    with assms that show ?thesis by (simp add: slots_ok_def)
  qed
  with assms(1) show ?thesis by (simp add: slots_ok_def)
qed

lemma slots_ok_at:
  assumes "slots_ok mem ss" and "1 \<le> p" and "p \<le> 16"
  shows "slot_ok mem p (ss ! nat (p - 1))"
proof -
  have "nat (p - 1) < 16" using assms(2,3) by simp
  then have "slot_ok mem (int (nat (p - 1)) + 1) (ss ! nat (p - 1))"
    using assms(1) by (simp only: slots_ok_def)
  then show ?thesis using assms(2) by simp
qed

text \<open>Moving on from an item: the successor, or the first of what is left.\<close>

lemma next_in_mem: "next_in x xs = Some y \<Longrightarrow> distinct xs \<Longrightarrow> y \<in> set xs \<and> y \<noteq> x"
  by (induction xs) (auto split: if_splits list.splits)

lemma next_in_nth:
  "distinct xs \<Longrightarrow> i < length xs \<Longrightarrow>
     next_in (xs ! i) xs = (if i + 1 < length xs then Some (xs ! (i + 1)) else None)"
proof (induction xs arbitrary: i)
  case (Cons y ys)
  then show ?case
    by (cases i) (auto split: list.splits simp: nth_Cons')
qed simp

lemma list_begin_mem: "list_begin xs = Some x \<Longrightarrow> x \<in> set xs"
  by (auto simp: list_begin_def split: list.splits)

lemma list_begin_None: "list_begin xs = None \<longleftrightarrow> xs = []"
  by (auto simp: list_begin_def split: list.splits)

lemma moved_slot_ok:
  assumes "slot_ok mem p s" and "rest = spipes s \<or> rest = remove1 d (spipes s)"
  shows "slot_ok mem p \<lparr>spipes = rest,
           scurrent = (if next_in d (spipes s) = None then list_begin rest else next_in d (spipes s))\<rparr>"
proof -
  have dist: "distinct (spipes s)" and prio: "\<forall>e\<in>set (spipes s). dprio (mem e) = p"
    using assms(1) by (simp_all add: slot_ok_def)
  have rest: "distinct rest" "set rest \<subseteq> set (spipes s)"
    using assms(2) dist set_remove1_subset by auto
  show ?thesis
  proof (cases "next_in d (spipes s)")
    case None
    with rest prio show ?thesis
      by (auto simp: slot_ok_def list_begin_None dest: list_begin_mem split: option.splits)
  next
    case (Some y)
    then have "y \<in> set rest" using next_in_mem [OF Some dist] assms(2) by auto
    with Some rest prio show ?thesis by (auto simp: slot_ok_def)
  qed
qed


section \<open>The operations keep the invariant\<close>

text \<open>The pipes a list holds, in all slots.\<close>

definition active_pipes :: "nn_priolist \<Rightarrow> addr set" where
  "active_pipes self = (\<Union>s\<in>set (pslots self). set (spipes s))"

lemma prio_init_ok: "prio_ok mem nn_priolist_init"
  by (simp add: prio_ok_def nn_priolist_init_def slots_ok_def first_slot_def slot_ok_def NN_PRIOLIST_SLOTS_def)

lemma prio_okD:
  assumes "prio_ok mem self"
  shows "slots_ok mem (pslots self)" and "first_slot (pslots self) (pcurrent self)"
    and "length (pslots self) = 16"
  using assms by (simp_all add: prio_ok_def slots_ok_def)

lemma activate_ok:
  assumes ok: "prio_ok mem self" and p: "1 \<le> dprio (mem d)" "dprio (mem d) \<le> 16"
    and new: "d \<notin> active_pipes self"
  shows "\<exists>self'. nn_priolist_activate mem self d = Inr self' \<and> prio_ok mem self'"
proof -
  define p where "p = dprio (mem d)"
  define s where "s = slot_at self p"
  note ok = prio_okD [OF ok]
  have p: "1 \<le> p" "p \<le> 16" "p \<le> int (length (pslots self))" using p ok(3) by (simp_all add: p_def)
  have s_ok: "slot_ok mem p s" using slots_ok_at [OF ok(1) p(1,2)] by (simp add: s_def)
  have "s \<in> set (pslots self)" unfolding s_def using p by simp
  with new have out: "d \<notin> set (spipes s)" by (auto simp: active_pipes_def)
  show ?thesis
  proof (cases "spipes s = []")
    case True
    let ?s = "\<lparr>spipes = [d], scurrent = Some d\<rparr>"
    have "slot_ok mem p ?s" by (simp add: slot_ok_def p_def)
    then have 1: "slots_ok mem ((pslots self)[nat (p - 1) := ?s])"
      by (rule slots_ok_update [OF ok(1) p(1)])
    have 2: "first_slot ((pslots self)[nat (p - 1) := ?s])
        (if pcurrent self = -1 \<or> pcurrent self > p then p else pcurrent self)"
      using True by (intro first_slot_add [OF ok(2) p(1,3)]) (simp_all add: s_def)
    show ?thesis
      using 1 2 True by (auto simp: nn_priolist_activate_def Let_def put_slot_def prio_ok_def p_def s_def)
  next
    case False
    let ?s = "s\<lparr>spipes := spipes s @ [d]\<rparr>"
    have "slot_ok mem p ?s" using s_ok out False by (auto simp: slot_ok_def p_def split: option.splits)
    then have 1: "slots_ok mem ((pslots self)[nat (p - 1) := ?s])"
      by (rule slots_ok_update [OF ok(1) p(1)])
    have 2: "first_slot ((pslots self)[nat (p - 1) := ?s]) (pcurrent self)"
      using False by (intro first_slot_update [OF ok(2) p(1,3)]) (simp_all add: s_def)
    show ?thesis
      using 1 2 False out by (simp add: nn_priolist_activate_def Let_def put_slot_def prio_ok_def p_def s_def)
  qed
qed

text \<open>Replacing the current slot and moving on keeps the invariant.\<close>

lemma moved_prio_ok:
  assumes "slots_ok mem (pslots self)" and "first_slot (pslots self) (pcurrent self)"
    and "1 \<le> pcurrent self" and "pcurrent self \<le> 16" and "slot_ok mem (pcurrent self) s"
  shows "prio_ok mem (self\<lparr>pslots := (pslots self)[nat (pcurrent self - 1) := s],
            pcurrent := skip_empty ((pslots self)[nat (pcurrent self - 1) := s]) (pcurrent self)\<rparr>)"
proof -
  let ?ss = "(pslots self)[nat (pcurrent self - 1) := s]"
  have "slots_ok mem ?ss" by (rule slots_ok_update [OF assms(1,3,5)])
  moreover have "\<forall>i. int i < pcurrent self - 1 \<longrightarrow> spipes (?ss ! i) = []"
    using assms(2,3) by (auto simp: first_slot_def nth_list_update split: if_splits)
  ultimately show ?thesis
    using skip_empty_first [of ?ss "pcurrent self"] assms(3,4) by (simp add: prio_ok_def slots_ok_def)
qed

lemma rm_ok:
  assumes ok: "prio_ok mem self" and p: "1 \<le> dprio (mem d)" "dprio (mem d) \<le> 16"
  shows "prio_ok mem (nn_priolist_rm mem self d)"
proof -
  define p where "p = dprio (mem d)"
  define s where "s = slot_at self p"
  define s' where "s' = \<lparr>spipes = remove1 d (spipes s), scurrent =
    (if next_in d (spipes s) = None then list_begin (remove1 d (spipes s)) else next_in d (spipes s))\<rparr>"
  note okd = prio_okD [OF ok]
  have p: "1 \<le> p" "p \<le> 16" "p \<le> int (length (pslots self))" using p okd(3) by (simp_all add: p_def)
  have s_ok: "slot_ok mem p s" using slots_ok_at [OF okd(1) p(1,2)] by (simp add: s_def)
  have s'_ok: "slot_ok mem p s'" unfolding s'_def by (rule moved_slot_ok [OF s_ok]) simp
  note unf = nn_priolist_rm_def Let_def put_slot_def p_def [symmetric] s_def [symmetric] s'_def [symmetric]
  consider "d \<notin> set (spipes s)" | "d \<in> set (spipes s)" "scurrent s \<noteq> Some d"
    | "d \<in> set (spipes s)" "scurrent s = Some d" "pcurrent self \<noteq> p"
    | "d \<in> set (spipes s)" "scurrent s = Some d" "pcurrent self = p" by blast
  then show ?thesis
  proof cases
    case 1
    with ok show ?thesis by (simp add: unf)
  next
    case 2
    let ?s = "s\<lparr>spipes := remove1 d (spipes s)\<rparr>"
    obtain e where e: "scurrent s = Some e" "e \<in> set (spipes s)" "e \<noteq> d"
      using s_ok 2 by (auto simp: slot_ok_def split: option.splits)
    then have "e \<in> set (remove1 d (spipes s))" by simp
    then have ne: "remove1 d (spipes s) \<noteq> []" by auto
    have "slot_ok mem p ?s" using s_ok e by (auto simp: slot_ok_def)
    then have "slots_ok mem ((pslots self)[nat (p - 1) := ?s])" by (rule slots_ok_update [OF okd(1) p(1)])
    moreover have "first_slot ((pslots self)[nat (p - 1) := ?s]) (pcurrent self)"
      using 2 ne by (intro first_slot_update [OF okd(2) p(1,3)]) (auto simp: s_def)
    ultimately show ?thesis using 2 by (simp add: unf prio_ok_def)
  next
    case 3
    have "slots_ok mem ((pslots self)[nat (p - 1) := s'])" by (rule slots_ok_update [OF okd(1) p(1) s'_ok])
    moreover have "first_slot ((pslots self)[nat (p - 1) := s']) (pcurrent self)"
      using 3 by (intro first_slot_update [OF okd(2) p(1,3)]) (auto simp: s_def)
    ultimately show ?thesis using 3 by (simp add: unf prio_ok_def)
  next
    case 4
    then show ?thesis
      using moved_prio_ok [OF okd(1,2), of s'] p s'_ok by (simp add: unf)
  qed
qed


section \<open>Which pipes are active\<close>

lemma slot_pipes_active:
  assumes "length (pslots self) = 16" and "1 \<le> p" and "p \<le> 16"
  shows "set (spipes (slot_at self p)) \<subseteq> active_pipes self"
proof -
  have "slot_at self p \<in> set (pslots self)" using assms by (intro nth_mem) simp
  then show ?thesis unfolding active_pipes_def by blast
qed

lemma active_in_slot:
  assumes "d \<in> active_pipes self"
  obtains i where "i < length (pslots self)" "d \<in> set (spipes (pslots self ! i))"
proof -
  obtain s where "s \<in> set (pslots self)" "d \<in> set (spipes s)"
    using assms unfolding active_pipes_def by blast
  then show thesis using that unfolding in_set_conv_nth [of s] by blast
qed

lemma active_iff:
  assumes "slots_ok mem (pslots self)"
  shows "d \<in> active_pipes self \<longleftrightarrow>
     1 \<le> dprio (mem d) \<and> dprio (mem d) \<le> 16 \<and> d \<in> set (spipes (slot_at self (dprio (mem d))))"
proof
  assume "d \<in> active_pipes self"
  then obtain i where "i < length (pslots self)" "d \<in> set (spipes (pslots self ! i))"
    by (rule active_in_slot)
  then have i: "i < 16" "d \<in> set (spipes (pslots self ! i))" using assms by (simp_all add: slots_ok_def)
  then have "dprio (mem d) = int i + 1" using assms by (simp add: slots_ok_def slot_ok_def)
  with i show "1 \<le> dprio (mem d) \<and> dprio (mem d) \<le> 16 \<and> d \<in> set (spipes (slot_at self (dprio (mem d))))"
    by simp
next
  assume *: "1 \<le> dprio (mem d) \<and> dprio (mem d) \<le> 16 \<and> d \<in> set (spipes (slot_at self (dprio (mem d))))"
  with slot_pipes_active [of self "dprio (mem d)"] assms show "d \<in> active_pipes self"
    by (auto simp: slots_ok_def)
qed

lemma active_update:
  assumes ok: "slots_ok mem (pslots self)" and ok': "slots_ok mem (pslots self')"
    and upd: "pslots self' = (pslots self)[nat (p - 1) := s]" and p: "1 \<le> p" "p \<le> 16"
  shows "active_pipes self' = (active_pipes self - set (spipes (slot_at self p))) \<union> set (spipes s)"
proof -
  have len: "length (pslots self) = 16" using ok by (simp add: slots_ok_def)
  have s_p: "\<forall>d\<in>set (spipes s). dprio (mem d) = p" and o_p: "\<forall>d\<in>set (spipes (slot_at self p)). dprio (mem d) = p"
    using slots_ok_at [OF ok' p] slots_ok_at [OF ok p] upd len p by (simp_all add: slot_ok_def)
  have "d \<in> active_pipes self' \<longleftrightarrow>
      d \<in> (active_pipes self - set (spipes (slot_at self p))) \<union> set (spipes s)" for d
  proof (cases "dprio (mem d) = p")
    case True
    then show ?thesis using p len by (simp add: active_iff [OF ok] active_iff [OF ok'] upd)
  next
    case False
    then have "d \<notin> set (spipes s)" "d \<notin> set (spipes (slot_at self p))" using s_p o_p by auto
    moreover have "nat (dprio (mem d) - 1) \<noteq> nat (p - 1)" if "1 \<le> dprio (mem d)"
      using that p False by simp
    ultimately show ?thesis by (auto simp: active_iff [OF ok] active_iff [OF ok'] upd)
  qed
  then show ?thesis by blast
qed

lemma activate_active:
  assumes ok: "prio_ok mem self" and p: "1 \<le> dprio (mem d)" "dprio (mem d) \<le> 16"
    and run: "nn_priolist_activate mem self d = Inr self'" and ok': "prio_ok mem self'"
  shows "active_pipes self' = insert d (active_pipes self)"
proof -
  let ?s = "slot_at self (dprio (mem d))"
  note oks = prio_okD(1) [OF ok] prio_okD(1) [OF ok']
  obtain s where s: "pslots self' = (pslots self)[nat (dprio (mem d) - 1) := s]" "set (spipes s) = insert d (set (spipes ?s))"
    using run by (auto simp: nn_priolist_activate_def Let_def put_slot_def split: if_splits)
  have "set (spipes ?s) \<subseteq> active_pipes self"
    by (rule slot_pipes_active [OF prio_okD(3) [OF ok] p])
  then show ?thesis unfolding active_update [OF oks s(1) p] s(2) by blast
qed

lemma rm_slots:
  assumes "d \<in> set (spipes (slot_at self (dprio (mem d))))"
  shows "\<exists>s. pslots (nn_priolist_rm mem self d) = (pslots self)[nat (dprio (mem d) - 1) := s]
     \<and> spipes s = remove1 d (spipes (slot_at self (dprio (mem d))))"
proof (cases "scurrent (slot_at self (dprio (mem d))) = Some d")
  case True
  let ?s = "slot_at self (dprio (mem d))"
  let ?rest = "remove1 d (spipes ?s)"
  show ?thesis
    by (rule exI [of _ "\<lparr>spipes = ?rest, scurrent =
          (if next_in d (spipes ?s) = None then list_begin ?rest else next_in d (spipes ?s))\<rparr>"])
      (use assms True in \<open>simp add: nn_priolist_rm_def Let_def put_slot_def\<close>)
next
  case False
  let ?s = "slot_at self (dprio (mem d))"
  show ?thesis
    by (rule exI [of _ "?s\<lparr>spipes := remove1 d (spipes ?s)\<rparr>"])
      (use assms False in \<open>simp add: nn_priolist_rm_def Let_def put_slot_def\<close>)
qed

lemma rm_active:
  assumes ok: "prio_ok mem self" and p: "1 \<le> dprio (mem d)" "dprio (mem d) \<le> 16"
  shows "active_pipes (nn_priolist_rm mem self d) = active_pipes self - {d}"
proof (cases "d \<in> set (spipes (slot_at self (dprio (mem d))))")
  case True
  let ?s = "slot_at self (dprio (mem d))"
  note ok' = rm_ok [OF ok p]
  note oks = prio_okD(1) [OF ok] prio_okD(1) [OF ok']
  have dist: "distinct (spipes ?s)" using slots_ok_at [OF oks(1) p] unfolding slot_ok_def by (rule conjunct1)
  obtain s where s: "pslots (nn_priolist_rm mem self d) = (pslots self)[nat (dprio (mem d) - 1) := s]"
      "spipes s = remove1 d (spipes ?s)"
    using rm_slots [where mem = mem, OF True] by blast
  have "set (spipes ?s) \<subseteq> active_pipes self"
    by (rule slot_pipes_active [OF prio_okD(3) [OF ok] p])
  then show ?thesis
    unfolding active_update [OF oks s(1) p] s(2) set_remove1_eq [OF dist] using True by blast
next
  case False
  then have "nn_priolist_rm mem self d = self" by (simp add: nn_priolist_rm_def Let_def)
  moreover have "d \<notin> active_pipes self" using False by (simp add: active_iff [OF prio_okD(1) [OF ok]])
  ultimately show ?thesis by simp
qed

text \<open>The current slot of a list with pipes, and its current item.\<close>

lemma current_item:
  assumes ok: "prio_ok mem self" and ne: "active_pipes self \<noteq> {}"
  obtains d where "1 \<le> pcurrent self" "pcurrent self \<le> 16" "scurrent (slot_at self (pcurrent self)) = Some d"
    "d \<in> set (spipes (slot_at self (pcurrent self)))" "\<forall>e\<in>active_pipes self. pcurrent self \<le> dprio (mem e)"
proof -
  note okd = prio_okD [OF ok]
  have nz: "\<not> (\<forall>s\<in>set (pslots self). spipes s = [])" using ne unfolding active_pipes_def by auto
  have c: "1 \<le> pcurrent self" "pcurrent self \<le> 16" "spipes (slot_at self (pcurrent self)) \<noteq> []"
      "\<forall>i. int i < pcurrent self - 1 \<longrightarrow> spipes (pslots self ! i) = []"
    using okd(2) unfolding first_slot_def if_not_P [OF nz] okd(3) by simp_all
  have "slot_ok mem (pcurrent self) (slot_at self (pcurrent self))" by (rule slots_ok_at [OF okd(1) c(1,2)])
  then obtain d where d: "scurrent (slot_at self (pcurrent self)) = Some d"
      "d \<in> set (spipes (slot_at self (pcurrent self)))"
    using c(3) by (auto simp: slot_ok_def split: option.splits)
  have "pcurrent self \<le> dprio (mem e)" if "e \<in> active_pipes self" for e
  proof (rule ccontr)
    assume "\<not> pcurrent self \<le> dprio (mem e)"
    then have "spipes (slot_at self (dprio (mem e))) = []"
      using c(4)[rule_format, of "nat (dprio (mem e) - 1)"] that active_iff [OF okd(1)] by auto
    with that active_iff [OF okd(1)] show False by auto
  qed
  with c(1,2) d that show ?thesis by blast
qed

lemma no_current:
  assumes "prio_ok mem self" and "active_pipes self = {}"
  shows "pcurrent self = -1"
proof -
  have "\<forall>s\<in>set (pslots self). spipes s = []" using assms(2) unfolding active_pipes_def by auto
  with prio_okD(2) [OF assms(1)] show ?thesis unfolding first_slot_def by (simp only: if_True)
qed

lemma advance_ok:
  assumes ok: "prio_ok mem self" and c: "1 \<le> pcurrent self" "pcurrent self \<le> 16"
    and d: "scurrent (slot_at self (pcurrent self)) = Some d" "d \<in> set (spipes (slot_at self (pcurrent self)))"
  shows "\<exists>self'. nn_priolist_advance self release = Inr self' \<and> prio_ok mem self'
     \<and> active_pipes self' = (if release then active_pipes self - {d} else active_pipes self)"
proof -
  note okd = prio_okD [OF ok]
  define s where "s = slot_at self (pcurrent self)"
  define rest where "rest = (if release then remove1 d (spipes s) else spipes s)"
  define s' where "s' = \<lparr>spipes = rest,
    scurrent = (if next_in d (spipes s) = None then list_begin rest else next_in d (spipes s))\<rparr>"
  define self' where "self' = self\<lparr>pslots := (pslots self)[nat (pcurrent self - 1) := s'],
    pcurrent := skip_empty ((pslots self)[nat (pcurrent self - 1) := s']) (pcurrent self)\<rparr>"
  have s_ok: "slot_ok mem (pcurrent self) s" using slots_ok_at [OF okd(1) c] by (simp add: s_def)
  have "slot_ok mem (pcurrent self) s'"
    unfolding s'_def by (rule moved_slot_ok [OF s_ok]) (simp add: rest_def)
  then have ok': "prio_ok mem self'" unfolding self'_def by (rule moved_prio_ok [OF okd(1,2) c])
  have "pslots self' = (pslots self)[nat (pcurrent self - 1) := s']" by (simp add: self'_def)
  from active_update [OF okd(1) prio_okD(1) [OF ok'] this c]
  have act: "active_pipes self' = (active_pipes self - set (spipes s)) \<union> set rest"
    by (simp add: s_def s'_def)
  have "set (spipes s) \<subseteq> active_pipes self"
    unfolding s_def by (rule slot_pipes_active [OF okd(3) c])
  then have "active_pipes self' = (if release then active_pipes self - {d} else active_pipes self)"
    using act d(2) s_ok by (auto simp: rest_def slot_ok_def s_def)
  moreover have "nn_priolist_advance self release = Inr self'"
    using c d(1) by (simp add: nn_priolist_advance_def Let_def put_slot_def self'_def s'_def rest_def s_def)
  ultimately show ?thesis using ok' by blast
qed


text \<open>What \<open>getpipe\<close> and \<open>advance\<close> do on a list with pipes and on one without.\<close>

lemma getpipe_cases:
  assumes ok: "prio_ok mem self"
  shows "if active_pipes self = {} then nn_priolist_getpipe mem self = Inr None
     else \<exists>d\<in>active_pipes self. nn_priolist_getpipe mem self = Inr (Some (dpipe (mem d)))
       \<and> (\<forall>e\<in>active_pipes self. dprio (mem d) \<le> dprio (mem e))
       \<and> (\<forall>release. \<exists>self'. nn_priolist_advance self release = Inr self' \<and> prio_ok mem self'
            \<and> active_pipes self' = (if release then active_pipes self - {d} else active_pipes self))"
proof (cases "active_pipes self = {}")
  case True
  then show ?thesis using no_current [OF ok] by (simp add: nn_priolist_getpipe_def)
next
  case False
  obtain d where d: "1 \<le> pcurrent self" "pcurrent self \<le> 16" "scurrent (slot_at self (pcurrent self)) = Some d"
      "d \<in> set (spipes (slot_at self (pcurrent self)))" "\<forall>e\<in>active_pipes self. pcurrent self \<le> dprio (mem e)"
    using ok False by (rule current_item)
  have "slot_ok mem (pcurrent self) (slot_at self (pcurrent self))"
    by (rule slots_ok_at [OF prio_okD(1) [OF ok] d(1,2)])
  then have prio: "dprio (mem d) = pcurrent self" using d(4) unfolding slot_ok_def by blast
  have "d \<in> active_pipes self" using slot_pipes_active [OF prio_okD(3) [OF ok] d(1,2)] d(4) by blast
  moreover have "nn_priolist_getpipe mem self = Inr (Some (dpipe (mem d)))"
    using d(1,3) by (simp add: nn_priolist_getpipe_def)
  ultimately show ?thesis
    using False d(5) prio advance_ok [OF ok d(1-4)] by (simp only: if_False) (metis (no_types))
qed


section \<open>Dispatching over the pipes\<close>

text \<open>
  The load balancer and the fair queue dispatch in the same way: they differ in the operation of the
  pipe. \<open>dispatch_ok\<close> says that the pipes in the list are distinct and idle, as \<open>nn_pipe_send\<close> and
  \<open>nn_pipe_recv\<close> demand.
\<close>

definition dispatch_ok :: "(nn_pipebase \<Rightarrow> bool) \<Rightarrow> prio_mem \<Rightarrow> pipes \<Rightarrow> nn_priolist \<Rightarrow> bool" where
  "dispatch_ok idle mem ps self \<longleftrightarrow> prio_ok mem self
     \<and> inj_on (\<lambda>d. dpipe (mem d)) (active_pipes self) \<and> (\<forall>d\<in>active_pipes self. idle (ps (dpipe (mem d))))"

text \<open>Several transfers in a row: the pipes used, and the state after them.\<close>

primrec repeat_run ::
  "(pipes \<Rightarrow> nn_priolist \<Rightarrow> (int \<times> addr option \<times> pipes \<times> nn_priolist) c_result)
   \<Rightarrow> nat \<Rightarrow> pipes \<Rightarrow> nn_priolist \<Rightarrow> (addr option list \<times> pipes \<times> nn_priolist) c_result" where
  "repeat_run run 0 ps self = Inr ([], ps, self)"
| "repeat_run run (Suc n) ps self =
     (case run ps self of
        Inl e \<Rightarrow> Inl e
      | Inr (_, to, ps, self) \<Rightarrow>
          (case repeat_run run n ps self of
             Inl e \<Rightarrow> Inl e
           | Inr (tos, ps, self) \<Rightarrow> Inr (to # tos, ps, self)))"

lemma put_slot_same:
  assumes "s = slot_at self p"
  shows "put_slot self p s = self"
  using assms by (simp add: put_slot_def)

lemma put_slot_twice: "put_slot (put_slot self p s) p s' = put_slot self p s'"
  by (simp add: put_slot_def)

lemma cycle_list:
  assumes "i < length xs"
  shows "map (\<lambda>j. xs ! ((i + j) mod length xs)) [0..<length xs] = rotate i xs"
  using assms by (intro nth_equalityI) (simp_all add: nth_rotate add.commute)

locale dispatcher =
  fixes xfer :: "int \<times> bool \<Rightarrow> nn_pipebase \<Rightarrow> (int \<times> nn_pipebase) c_result"
    and idle :: "nn_pipebase \<Rightarrow> bool"
    and run :: "(addr \<Rightarrow> int \<times> bool) \<Rightarrow> prio_mem \<Rightarrow> pipes \<Rightarrow> nn_priolist
      \<Rightarrow> (int \<times> addr option \<times> pipes \<times> nn_priolist) c_result"
  assumes run_empty: "nn_priolist_getpipe mem self = Inr None \<Longrightarrow> run t mem ps self = Inr (- EAGAIN, None, ps, self)"
    and run_pipe: "nn_priolist_getpipe mem self = Inr (Some p) \<Longrightarrow> xfer (t p) (ps p) = Inr (rc, pb) \<Longrightarrow> 0 \<le> rc
      \<Longrightarrow> nn_priolist_advance self (rc AND NN_PIPE_RELEASE \<noteq> 0) = Inr self'
      \<Longrightarrow> run t mem ps self = Inr (rc AND NOT NN_PIPE_RELEASE, Some p, ps(p := pb), self')"
    and run_fault: "nn_priolist_getpipe mem self = Inr (Some p) \<Longrightarrow> xfer (t p) (ps p) = Inl e \<Longrightarrow> run t mem ps self = Inl e"
    and xfer_error: "idle pb \<Longrightarrow> rc < 0 \<Longrightarrow> xfer (rc, now) pb = Inl Assertion"
    and xfer_now: "idle pb \<Longrightarrow> xfer (rc, True) pb = (if rc < 0 then Inl Assertion else Inr (rc, pb))"
    and xfer_later: "idle pb \<Longrightarrow> 0 \<le> rc \<Longrightarrow> \<exists>pb'. xfer (rc, False) pb = Inr (rc OR NN_PIPE_RELEASE, pb')"
begin

text \<open>One transfer, for any answer of the transport.\<close>

lemma run_cases:
  assumes ok: "dispatch_ok idle mem ps self"
  shows "if active_pipes self = {} then run t mem ps self = Inr (- EAGAIN, None, ps, self)
     else \<exists>d\<in>active_pipes self. (\<forall>e\<in>active_pipes self. dprio (mem d) \<le> dprio (mem e))
       \<and> (case t (dpipe (mem d)) of (rc, now) \<Rightarrow>
           if rc < 0 then run t mem ps self = Inl Assertion
           else \<exists>ps' self'. run t mem ps self = Inr (rc AND NOT NN_PIPE_RELEASE, Some (dpipe (mem d)), ps', self')
             \<and> dispatch_ok idle mem ps' self'
             \<and> active_pipes self' = (if now \<and> rc AND NN_PIPE_RELEASE = 0 then active_pipes self else active_pipes self - {d}))"
proof (cases "active_pipes self = {}")
  case True
  then show ?thesis using getpipe_cases [of mem self] run_empty [of mem self] ok by (simp add: dispatch_ok_def)
next
  case False
  have prio: "prio_ok mem self" and inj: "inj_on (\<lambda>d. dpipe (mem d)) (active_pipes self)"
    and idle: "\<And>d. d \<in> active_pipes self \<Longrightarrow> idle (ps (dpipe (mem d)))"
    using ok by (simp_all add: dispatch_ok_def)
  obtain d where d: "d \<in> active_pipes self" "nn_priolist_getpipe mem self = Inr (Some (dpipe (mem d)))"
      "\<forall>e\<in>active_pipes self. dprio (mem d) \<le> dprio (mem e)"
      and adv: "\<And>release. \<exists>self'. nn_priolist_advance self release = Inr self' \<and> prio_ok mem self'
            \<and> active_pipes self' = (if release then active_pipes self - {d} else active_pipes self)"
    using getpipe_cases [OF prio] unfolding if_not_P [OF False] by blast
  obtain rc now where t: "t (dpipe (mem d)) = (rc, now)" by fastforce
  let ?P = "\<lambda>ps' self'. run t mem ps self = Inr (rc AND NOT NN_PIPE_RELEASE, Some (dpipe (mem d)), ps', self')
      \<and> dispatch_ok idle mem ps' self'
      \<and> active_pipes self' = (if now \<and> rc AND NN_PIPE_RELEASE = 0 then active_pipes self else active_pipes self - {d})"
  have "if rc < 0 then run t mem ps self = Inl Assertion else \<exists>ps' self'. ?P ps' self'"
  proof (cases "rc < 0")
    case True
    with run_fault [where t = t and ps = ps, OF d(2)] xfer_error [OF idle [OF d(1)] True] t show ?thesis by simp
  next
    case rc: False
    define code where "code = (if now then rc else rc OR NN_PIPE_RELEASE)"
    have code: "0 \<le> code" "code AND NOT NN_PIPE_RELEASE = rc AND NOT NN_PIPE_RELEASE"
      "code AND NN_PIPE_RELEASE = 0 \<longleftrightarrow> now \<and> rc AND NN_PIPE_RELEASE = 0"
      using rc by (auto simp: code_def NN_PIPE_RELEASE_def bit.conj_disj_distrib2 or_eq_0_iff)
    obtain self' where s: "nn_priolist_advance self (code AND NN_PIPE_RELEASE \<noteq> 0) = Inr self'" "prio_ok mem self'"
      "active_pipes self' = (if code AND NN_PIPE_RELEASE \<noteq> 0 then active_pipes self - {d} else active_pipes self)"
      using adv [of "code AND NN_PIPE_RELEASE \<noteq> 0"] by auto
    obtain pb where x: "xfer (t (dpipe (mem d))) (ps (dpipe (mem d))) = Inr (code, pb)"
        "now \<longrightarrow> pb = ps (dpipe (mem d))"
      using xfer_now [OF idle [OF d(1)], of rc] xfer_later [OF idle [OF d(1)], of rc] t rc
      by (cases now) (auto simp: code_def)
    have "run t mem ps self = Inr (rc AND NOT NN_PIPE_RELEASE, Some (dpipe (mem d)), ps(dpipe (mem d) := pb), self')"
      using run_pipe [where t = t and ps = ps, OF d(2) x(1) code(1) s(1)] code(2) by simp
    moreover have "dispatch_ok idle mem (ps(dpipe (mem d) := pb)) self'"
      using s(2,3) inj idle x(2) d(1) code(3) unfolding dispatch_ok_def
      by (cases now) (auto simp: inj_on_def)
    ultimately have "?P (ps(dpipe (mem d) := pb)) self'" using s(3) code(3) by simp
    with rc show ?thesis by (simp only: if_False) blast
  qed
  with d(1,3) t show ?thesis unfolding if_not_P [OF False] by (intro bexI [of _ d]) simp_all
qed

lemma run_ok:
  assumes ok: "dispatch_ok idle mem ps self" and codes: "codes_ok t"
  shows "if active_pipes self = {} then run t mem ps self = Inr (- EAGAIN, None, ps, self)
     else \<exists>d\<in>active_pipes self. \<exists>ps' self'.
       (\<forall>e\<in>active_pipes self. dprio (mem d) \<le> dprio (mem e))
       \<and> run t mem ps self = Inr (fst (t (dpipe (mem d))), Some (dpipe (mem d)), ps', self')
       \<and> dispatch_ok idle mem ps' self'
       \<and> active_pipes self' = (if snd (t (dpipe (mem d))) then active_pipes self else active_pipes self - {d})"
proof (cases "active_pipes self = {}")
  case True
  with run_cases [OF ok, of t] show ?thesis by simp
next
  case False
  from run_cases [OF ok, of t] obtain d where d: "d \<in> active_pipes self"
      "\<forall>e\<in>active_pipes self. dprio (mem d) \<le> dprio (mem e)"
      "case t (dpipe (mem d)) of (rc, now) \<Rightarrow>
         if rc < 0 then run t mem ps self = Inl Assertion
         else \<exists>ps' self'. run t mem ps self = Inr (rc AND NOT NN_PIPE_RELEASE, Some (dpipe (mem d)), ps', self')
           \<and> dispatch_ok idle mem ps' self'
           \<and> active_pipes self' = (if now \<and> rc AND NN_PIPE_RELEASE = 0 then active_pipes self else active_pipes self - {d})"
    unfolding if_not_P [OF False] by (elim bexE conjE) (rule that)
  obtain rc now where t: "t (dpipe (mem d)) = (rc, now)" by fastforce
  have rc: "rc = 0 \<or> rc = NN_PIPE_PARSED" using codes t by (metis codes_ok_def fst_conv)
  from d(3) t code_bits [OF rc] obtain ps' self' where
    "run t mem ps self = Inr (rc, Some (dpipe (mem d)), ps', self')" "dispatch_ok idle mem ps' self'"
    "active_pipes self' = (if now then active_pipes self else active_pipes self - {d})"
    by auto
  with d(1,2) t show ?thesis
    unfolding if_not_P [OF False] by (intro bexI [of _ d] exI [of _ ps'] exI [of _ self']) simp_all
qed

text \<open>A pipe that has become idle is activated, and a pipe is removed: the others stay distinct and idle.\<close>

lemma activate_keeps:
  assumes ok: "dispatch_ok idle mem ps self" and p: "1 \<le> dprio (mem d)" "dprio (mem d) \<le> 16"
    and d: "d \<notin> active_pipes self" "idle (ps (dpipe (mem d)))"
      "dpipe (mem d) \<notin> (\<lambda>e. dpipe (mem e)) ` active_pipes self"
  shows "\<exists>self'. nn_priolist_activate mem self d = Inr self' \<and> dispatch_ok idle mem ps self'"
proof -
  have prio: "prio_ok mem self" using ok by (simp add: dispatch_ok_def)
  from activate_ok [OF prio p] d(1) obtain self' where s: "nn_priolist_activate mem self d = Inr self'" "prio_ok mem self'"
    by auto
  with activate_active [OF prio p s] ok d show ?thesis by (simp add: dispatch_ok_def)
qed

lemma rm_keeps:
  assumes ok: "dispatch_ok idle mem ps self" and p: "1 \<le> dprio (mem d)" "dprio (mem d) \<le> 16"
  shows "dispatch_ok idle mem ps (nn_priolist_rm mem self d)"
proof -
  have prio: "prio_ok mem self" using ok by (simp add: dispatch_ok_def)
  from rm_ok [OF prio p] rm_active [OF prio p] ok show ?thesis
    by (auto simp: dispatch_ok_def inj_on_def)
qed

text \<open>A transfer that completes at once moves on to the next pipe of the slot.\<close>

lemma run_now:
  assumes ok: "dispatch_ok idle mem ps self" and c: "1 \<le> pcurrent self" "pcurrent self \<le> 16"
    and xs: "spipes (slot_at self (pcurrent self)) = xs" and i: "i < length xs"
    and cur: "scurrent (slot_at self (pcurrent self)) = Some (xs ! i)"
  shows "run (\<lambda>_. (0, True)) mem ps self = Inr (0, Some (dpipe (mem (xs ! i))), ps,
     put_slot self (pcurrent self) \<lparr>spipes = xs, scurrent = Some (xs ! (Suc i mod length xs))\<rparr>)"
proof -
  define s' where "s' = \<lparr>spipes = xs, scurrent = Some (xs ! (Suc i mod length xs))\<rparr>"
  have prio: "prio_ok mem self" using ok by (simp add: dispatch_ok_def)
  note okd = prio_okD [OF prio]
  have dist: "distinct xs"
    using slots_ok_at [OF okd(1) c] unfolding slot_ok_def xs by (rule conjunct1)
  have nxt: "(if next_in (xs ! i) xs = None then list_begin xs else next_in (xs ! i) xs) = Some (xs ! (Suc i mod length xs))"
  proof (cases "Suc i < length xs")
    case True
    then show ?thesis using next_in_nth [OF dist i] by simp
  next
    case False
    then have "Suc i = length xs" using i by simp
    then show ?thesis using next_in_nth [OF dist i] i by (auto simp: list_begin_def split: list.splits)
  qed
  have "xs \<noteq> []" using i by auto
  then have skip: "skip_empty ((pslots self)[nat (pcurrent self - 1) := s']) (pcurrent self) = pcurrent self"
    using c okd(3) by (subst skip_empty.simps) (simp add: s'_def)
  have adv: "nn_priolist_advance self False = Inr (put_slot self (pcurrent self) s')"
    using c cur xs nxt skip by (simp add: nn_priolist_advance_def Let_def put_slot_def s'_def)
  have "xs ! i \<in> set (spipes (slot_at self (pcurrent self)))" using i xs by simp
  then have "idle (ps (dpipe (mem (xs ! i))))"
    using ok slot_pipes_active [OF okd(3) c] unfolding dispatch_ok_def by blast
  from xfer_now [OF this, of 0]
  have x: "xfer ((\<lambda>_. (0, True)) (dpipe (mem (xs ! i)))) (ps (dpipe (mem (xs ! i)))) = Inr (0, ps (dpipe (mem (xs ! i))))"
    by simp
  have g: "nn_priolist_getpipe mem self = Inr (Some (dpipe (mem (xs ! i))))"
    using c cur by (simp add: nn_priolist_getpipe_def)
  show ?thesis
    using run_pipe [where t = "\<lambda>_. (0, True)" and ps = ps, OF g x, of "put_slot self (pcurrent self) s'"] adv by (simp add: s'_def)
qed

lemma run_cycle:
  assumes "dispatch_ok idle mem ps self" and "1 \<le> pcurrent self" and "pcurrent self \<le> 16"
    and "spipes (slot_at self (pcurrent self)) = xs" and "i < length xs"
    and "scurrent (slot_at self (pcurrent self)) = Some (xs ! i)"
  shows "repeat_run (run (\<lambda>_. (0, True)) mem) n ps self =
     Inr (map (\<lambda>j. Some (dpipe (mem (xs ! ((i + j) mod length xs))))) [0..<n], ps,
          put_slot self (pcurrent self) \<lparr>spipes = xs, scurrent = Some (xs ! ((i + n) mod length xs))\<rparr>)"
  using assms
proof (induction n arbitrary: self i)
  case 0
  then have "\<lparr>spipes = xs, scurrent = Some (xs ! i)\<rparr> = slot_at self (pcurrent self)" by simp
  from put_slot_same [OF this] 0(5) show ?case by simp
next
  case (Suc n)
  define i' where "i' = Suc i mod length xs"
  define self' where "self' = put_slot self (pcurrent self) \<lparr>spipes = xs, scurrent = Some (xs ! i')\<rparr>"
  have run: "run (\<lambda>_. (0, True)) mem ps self = Inr (0, Some (dpipe (mem (xs ! i))), ps, self')"
    unfolding self'_def i'_def by (rule run_now [OF Suc.prems])
  have "slot_at self (pcurrent self) \<in> set (pslots self)" "xs \<noteq> []"
    using Suc.prems(1-3,5) by (auto simp: dispatch_ok_def dest!: prio_okD(3) intro!: nth_mem)
  then have ne: "active_pipes self \<noteq> {}" using Suc.prems(4) unfolding active_pipes_def by fastforce
  have ok': "dispatch_ok idle mem ps self'"
    using run_ok [OF Suc.prems(1), of "\<lambda>_. (0, True)"] run unfolding if_not_P [OF ne] by (auto simp: codes_ok_def)
  have len: "nat (pcurrent self - 1) < length (pslots self)"
    using Suc.prems(1-3) prio_okD(3) [of mem self] by (simp add: dispatch_ok_def)
  have "i' < length xs" using Suc.prems(5) unfolding i'_def by (intro mod_less_divisor) linarith
  then have "repeat_run (run (\<lambda>_. (0, True)) mem) n ps self' =
     Inr (map (\<lambda>j. Some (dpipe (mem (xs ! ((i' + j) mod length xs))))) [0..<n], ps,
          put_slot self' (pcurrent self') \<lparr>spipes = xs, scurrent = Some (xs ! ((i' + n) mod length xs))\<rparr>)"
    using ok' Suc.prems(2,3) len by (intro Suc.IH) (simp_all add: self'_def put_slot_def)
  moreover have "(i' + j) mod length xs = (i + Suc j) mod length xs" for j
    by (simp add: i'_def mod_add_left_eq)
  ultimately show ?case
    using run Suc.prems(5)
    by (simp add: map_upt_Suc put_slot_twice del: upt_Suc) (simp add: self'_def put_slot_def)
qed

lemma full_cycle:
  assumes ok: "dispatch_ok idle mem ps self" and ne: "active_pipes self \<noteq> {}"
  shows "\<exists>xs. distinct xs \<and> set xs = {d \<in> active_pipes self. \<forall>e\<in>active_pipes self. dprio (mem d) \<le> dprio (mem e)}
     \<and> repeat_run (run (\<lambda>_. (0, True)) mem) (length xs) ps self = Inr (map (\<lambda>d. Some (dpipe (mem d))) xs, ps, self)"
proof -
  have prio: "prio_ok mem self" using ok by (simp add: dispatch_ok_def)
  note okd = prio_okD [OF prio]
  let ?s = "slot_at self (pcurrent self)"
  obtain d where d: "1 \<le> pcurrent self" "pcurrent self \<le> 16" "scurrent ?s = Some d" "d \<in> set (spipes ?s)"
      "\<forall>e\<in>active_pipes self. pcurrent self \<le> dprio (mem e)"
    using prio ne by (rule current_item)
  obtain i where i: "i < length (spipes ?s)" "scurrent ?s = Some (spipes ?s ! i)"
    using d(3,4) by (auto simp: in_set_conv_nth)
  have s_ok: "slot_ok mem (pcurrent self) ?s" by (rule slots_ok_at [OF okd(1) d(1,2)])
  have sub: "set (spipes ?s) \<subseteq> active_pipes self" by (rule slot_pipes_active [OF okd(3) d(1,2)])
  have top: "set (spipes ?s) = {d \<in> active_pipes self. \<forall>e\<in>active_pipes self. dprio (mem d) \<le> dprio (mem e)}"
    (is "_ = ?top")
  proof
    show "set (spipes ?s) \<subseteq> ?top" using s_ok sub d(5) unfolding slot_ok_def by fastforce
    show "?top \<subseteq> set (spipes ?s)"
    proof
      fix x assume x: "x \<in> ?top"
      then have "dprio (mem x) \<le> dprio (mem d)" using sub d(4) by blast
      moreover have "dprio (mem d) = pcurrent self" using s_ok d(4) unfolding slot_ok_def by blast
      ultimately have "dprio (mem x) = pcurrent self" using d(5) x by force
      then show "x \<in> set (spipes ?s)" using x active_iff [OF okd(1), of x] by simp
    qed
  qed
  have same: "put_slot self (pcurrent self) \<lparr>spipes = spipes ?s, scurrent = Some (spipes ?s ! i)\<rparr> = self"
    using i(2) by (intro put_slot_same) simp
  have "repeat_run (run (\<lambda>_. (0, True)) mem) (length (spipes ?s)) ps self =
      Inr (map (\<lambda>d. Some (dpipe (mem d))) (rotate i (spipes ?s)), ps, self)"
    unfolding run_cycle [OF ok d(1,2) refl i] cycle_list [OF i(1), symmetric] using i(1) same by (simp add: comp_def)
  moreover have "distinct (rotate i (spipes ?s))" using s_ok by (simp add: slot_ok_def)
  ultimately show ?thesis
    using top by (intro exI [of _ "rotate i (spipes ?s)"]) simp
qed

end

interpretation lb: dispatcher nn_pipe_send "\<lambda>pb. outstate pb = Out_Idle" nn_lb_send
  by unfold_locales (auto simp: nn_lb_send_def nn_pipe_send_def nn_pipebase_sent_def Let_def)

interpretation fq: dispatcher nn_pipe_recv "\<lambda>pb. instate pb = In_Idle" nn_fq_recv
  by unfold_locales (auto simp: nn_fq_recv_def nn_pipe_recv_def nn_pipebase_received_def Let_def)


section \<open>The properties\<close>

text \<open>A list of two pipes of priority 1 and one of priority 8, and a fourth pipe that is not active.\<close>

definition three_data :: prio_mem where
  "three_data = nn_priolist_add (nn_priolist_add (nn_priolist_add (nn_priolist_add
     (\<lambda>_. \<lparr>dpipe = 0, dprio = 1\<rparr>) 1 101 8) 2 102 1) 3 103 1) 4 104 2"

definition three_pipes :: nn_priolist where
  "three_pipes = put_slot (put_slot (nn_priolist_init\<lparr>pcurrent := 1\<rparr>) 8 \<lparr>spipes = [1], scurrent = Some 1\<rparr>)
     1 \<lparr>spipes = [2, 3], scurrent = Some 3\<rparr>"

lemma three_pipes_ok: "prio_ok three_data three_pipes" "active_pipes three_pipes = {1, 2, 3}"
proof -
  let ?s8 = "\<lparr>spipes = [1], scurrent = Some (1::addr)\<rparr>" and ?s1 = "\<lparr>spipes = [2, 3], scurrent = Some (3::addr)\<rparr>"
  note init = prio_okD [OF prio_init_ok]
  have slots: "pslots three_pipes = (pslots nn_priolist_init)[nat (8 - 1) := ?s8, nat (1 - 1) := ?s1]"
    by (simp add: three_pipes_def put_slot_def)
  have "slots_ok three_data (pslots three_pipes)"
    unfolding slots by (intro slots_ok_update init)
      (simp_all add: slot_ok_def three_data_def nn_priolist_add_def)
  moreover have "set (pslots three_pipes) = {?s1, ?s8, \<lparr>spipes = [], scurrent = None\<rparr>}"
    unfolding slots by (simp add: nn_priolist_init_def NN_PRIOLIST_SLOTS_def numeral_eq_Suc) blast
  ultimately show "prio_ok three_data three_pipes" "active_pipes three_pipes = {1, 2, 3}"
    using init(3) by (auto simp: prio_ok_def first_slot_def active_pipes_def three_pipes_def put_slot_def)
qed

text \<open>Property C17. The priority list implements a set of active pipes served by priority. On a list that
  satisfies the invariant, activating a pipe inserts it, and activating an active one fails the
  assertion; removing a pipe deletes it whether it is active or not; with no active pipe \<open>getpipe\<close>
  gives none; otherwise it gives an active pipe of the highest priority, the lowest number, and
  advancing drops that pipe exactly when it is released. The invariant holds initially and is kept.\<close>

theorem priolist_refines:
  assumes "prio_ok mem self"
  shows "prio_ok mem nn_priolist_init \<and> active_pipes nn_priolist_init = {}
    \<and> (\<forall>d. 1 \<le> dprio (mem d) \<and> dprio (mem d) \<le> 16 \<longrightarrow>
       (if d \<in> active_pipes self then nn_priolist_activate mem self d = Inl Assertion
        else \<exists>self'. nn_priolist_activate mem self d = Inr self' \<and> prio_ok mem self'
               \<and> active_pipes self' = insert d (active_pipes self))
       \<and> prio_ok mem (nn_priolist_rm mem self d)
       \<and> active_pipes (nn_priolist_rm mem self d) = active_pipes self - {d})
    \<and> (if active_pipes self = {} then nn_priolist_getpipe mem self = Inr None
     else \<exists>d\<in>active_pipes self. nn_priolist_getpipe mem self = Inr (Some (dpipe (mem d)))
       \<and> (\<forall>e\<in>active_pipes self. dprio (mem d) \<le> dprio (mem e))
       \<and> (\<forall>release. \<exists>self'. nn_priolist_advance self release = Inr self' \<and> prio_ok mem self'
            \<and> active_pipes self' = (if release then active_pipes self - {d} else active_pipes self)))"
proof (intro conjI allI impI)
  show "prio_ok mem nn_priolist_init" by (rule prio_init_ok)
  show "active_pipes nn_priolist_init = {}" by (simp add: active_pipes_def nn_priolist_init_def)
  fix d assume "1 \<le> dprio (mem d) \<and> dprio (mem d) \<le> 16"
  then have p: "1 \<le> dprio (mem d)" "dprio (mem d) \<le> 16" by simp_all
  have "nn_priolist_activate mem self d = Inl Assertion" if "d \<in> active_pipes self"
    using that by (simp add: active_iff [OF prio_okD(1) [OF assms]] nn_priolist_activate_def Let_def)
  then show "if d \<in> active_pipes self then nn_priolist_activate mem self d = Inl Assertion
      else \<exists>self'. nn_priolist_activate mem self d = Inr self' \<and> prio_ok mem self'
             \<and> active_pipes self' = insert d (active_pipes self)"
    using activate_ok [OF assms p] activate_active [OF assms p] by auto
  show "prio_ok mem (nn_priolist_rm mem self d)"
    and "active_pipes (nn_priolist_rm mem self d) = active_pipes self - {d}"
    using rm_ok [OF assms p] rm_active [OF assms p] by simp_all
qed (rule getpipe_cases [OF assms])

theorem priolist_refines_witness:
  "\<exists>self. nn_priolist_activate three_data three_pipes 4 = Inr self \<and> active_pipes self = {1, 2, 3, 4}"
proof -
  have "dprio (three_data 4) = 2" by (simp add: three_data_def nn_priolist_add_def)
  moreover have "4 \<notin> active_pipes three_pipes" "insert 4 (active_pipes three_pipes) = {1, 2, 3, 4}"
    using three_pipes_ok(2) by auto
  ultimately show ?thesis
    using priolist_refines [OF three_pipes_ok(1), THEN conjunct2, THEN conjunct2, THEN conjunct1, rule_format, of 4]
    by auto
qed

text \<open>Property C16. Sending by the load balancer and receiving by the fair queue serve the pipes by priority
  and agree with the states of the pipes. The pipes of the list are distinct and idle in the direction
  in question: this holds for the empty list, and is kept when a pipe that has become idle is
  activated, when a pipe is removed, and by the operation itself. Under this condition, for any
  answers of the transports: without pipes the operation is \<open>EAGAIN\<close>; otherwise it uses a pipe of the
  highest priority. If that transport answers with an error, a negative code, an assertion fails;
  otherwise the operation hands on the code without the release bit, and drops the pipe from the list
  exactly when the transport did not finish at once or set the release bit.\<close>

theorem lb_fq_serve_by_priority:
  assumes "dispatch_ok (\<lambda>pb. outstate pb = Out_Idle) mem ps lb" and "dispatch_ok (\<lambda>pb. instate pb = In_Idle) mem ps fq"
  shows "(if active_pipes lb = {} then nn_lb_send t mem ps lb = Inr (- EAGAIN, None, ps, lb)
     else \<exists>d\<in>active_pipes lb. (\<forall>e\<in>active_pipes lb. dprio (mem d) \<le> dprio (mem e))
       \<and> (case t (dpipe (mem d)) of (rc, now) \<Rightarrow>
           if rc < 0 then nn_lb_send t mem ps lb = Inl Assertion
           else \<exists>ps' lb'. nn_lb_send t mem ps lb = Inr (rc AND NOT NN_PIPE_RELEASE, Some (dpipe (mem d)), ps', lb')
             \<and> dispatch_ok (\<lambda>pb. outstate pb = Out_Idle) mem ps' lb'
             \<and> active_pipes lb' = (if now \<and> rc AND NN_PIPE_RELEASE = 0 then active_pipes lb else active_pipes lb - {d})))
    \<and> (if active_pipes fq = {} then nn_fq_recv t mem ps fq = Inr (- EAGAIN, None, ps, fq)
     else \<exists>d\<in>active_pipes fq. (\<forall>e\<in>active_pipes fq. dprio (mem d) \<le> dprio (mem e))
       \<and> (case t (dpipe (mem d)) of (rc, now) \<Rightarrow>
           if rc < 0 then nn_fq_recv t mem ps fq = Inl Assertion
           else \<exists>ps' fq'. nn_fq_recv t mem ps fq = Inr (rc AND NOT NN_PIPE_RELEASE, Some (dpipe (mem d)), ps', fq')
             \<and> dispatch_ok (\<lambda>pb. instate pb = In_Idle) mem ps' fq'
             \<and> active_pipes fq' = (if now \<and> rc AND NN_PIPE_RELEASE = 0 then active_pipes fq else active_pipes fq - {d})))
    \<and> dispatch_ok (\<lambda>pb. outstate pb = Out_Idle) mem ps nn_lb_init \<and> dispatch_ok (\<lambda>pb. instate pb = In_Idle) mem ps nn_fq_init
    \<and> (\<forall>d. 1 \<le> dprio (mem d) \<and> dprio (mem d) \<le> 16 \<longrightarrow>
         dispatch_ok (\<lambda>pb. outstate pb = Out_Idle) mem ps (nn_lb_rm mem lb d)
         \<and> dispatch_ok (\<lambda>pb. instate pb = In_Idle) mem ps (nn_fq_rm mem fq d)
         \<and> (d \<notin> active_pipes lb \<and> outstate (ps (dpipe (mem d))) = Out_Idle
              \<and> dpipe (mem d) \<notin> (\<lambda>e. dpipe (mem e)) ` active_pipes lb \<longrightarrow>
            (\<exists>lb'. nn_lb_out mem lb d = Inr lb' \<and> dispatch_ok (\<lambda>pb. outstate pb = Out_Idle) mem ps lb'))
         \<and> (d \<notin> active_pipes fq \<and> instate (ps (dpipe (mem d))) = In_Idle
              \<and> dpipe (mem d) \<notin> (\<lambda>e. dpipe (mem e)) ` active_pipes fq \<longrightarrow>
            (\<exists>fq'. nn_fq_in mem fq d = Inr fq' \<and> dispatch_ok (\<lambda>pb. instate pb = In_Idle) mem ps fq')))"
  (is "?A \<and> ?B \<and> ?C \<and> ?D \<and> ?E")
proof (intro conjI)
  show ?A by (rule lb.run_cases [OF assms(1)])
  show ?B by (rule fq.run_cases [OF assms(2)])
  have "active_pipes nn_priolist_init = {}" by (simp add: active_pipes_def nn_priolist_init_def)
  then show ?C ?D using prio_init_ok by (simp_all add: dispatch_ok_def nn_lb_init_def nn_fq_init_def)
  show ?E
    using lb.activate_keeps [OF assms(1)] lb.rm_keeps [OF assms(1)] fq.activate_keeps [OF assms(2)] fq.rm_keeps [OF assms(2)]
    by (simp add: nn_lb_out_def nn_fq_in_def nn_lb_rm_def nn_fq_rm_def)
qed

lemma three_pipes_dispatch:
  assumes "idle pb"
  shows "dispatch_ok idle three_data (\<lambda>_. pb) three_pipes"
  using assms three_pipes_ok
  by (simp add: dispatch_ok_def inj_on_def three_data_def nn_priolist_add_def)

abbreviation idle_pipe :: nn_pipebase where
  "idle_pipe \<equiv> \<lparr>pstate = State_Active, instate = In_Idle, outstate = Out_Idle\<rparr>"

theorem lb_fq_serve_by_priority_witness:
  "\<exists>p ps' lb'. p \<in> {102, 103} \<and> nn_lb_send (\<lambda>_. (0, False)) three_data (\<lambda>_. idle_pipe) three_pipes = Inr (0, Some p, ps', lb')"
proof -
  have "dispatch_ok (\<lambda>pb. outstate pb = Out_Idle) three_data (\<lambda>_. idle_pipe) three_pipes"
    "dispatch_ok (\<lambda>pb. instate pb = In_Idle) three_data (\<lambda>_. idle_pipe) three_pipes"
    by (rule three_pipes_dispatch, simp)+
  from lb_fq_serve_by_priority [OF this, THEN conjunct1, of "\<lambda>_. (0, False)"] three_pipes_ok(2) show ?thesis
    by (auto simp: three_data_def nn_priolist_add_def)
qed

text \<open>Property C15. Dispatching is fair. While the transports finish at once, as many sends of the load balancer
  as there are pipes of the highest priority use each of these pipes exactly once and lead back to
  the same state, so no such pipe waits for longer than one round; the same holds for the receives
  of the fair queue.\<close>

theorem lb_fq_round_robin:
  assumes "active_pipes self \<noteq> {}"
  shows "(dispatch_ok (\<lambda>pb. outstate pb = Out_Idle) mem ps self \<longrightarrow>
     (\<exists>xs. distinct xs \<and> set xs = {d \<in> active_pipes self. \<forall>e\<in>active_pipes self. dprio (mem d) \<le> dprio (mem e)}
       \<and> repeat_run (nn_lb_send (\<lambda>_. (0, True)) mem) (length xs) ps self
           = Inr (map (\<lambda>d. Some (dpipe (mem d))) xs, ps, self)))
    \<and> (dispatch_ok (\<lambda>pb. instate pb = In_Idle) mem ps self \<longrightarrow>
     (\<exists>xs. distinct xs \<and> set xs = {d \<in> active_pipes self. \<forall>e\<in>active_pipes self. dprio (mem d) \<le> dprio (mem e)}
       \<and> repeat_run (nn_fq_recv (\<lambda>_. (0, True)) mem) (length xs) ps self
           = Inr (map (\<lambda>d. Some (dpipe (mem d))) xs, ps, self)))"
  using lb.full_cycle [OF _ assms, of mem ps] fq.full_cycle [OF _ assms, of mem ps] by blast

theorem lb_fq_round_robin_witness:
  "\<exists>xs. distinct xs \<and> set xs = {2, 3}
     \<and> repeat_run (nn_lb_send (\<lambda>_. (0, True)) three_data) (length xs)
         (\<lambda>_. \<lparr>pstate = State_Active, instate = In_Idle, outstate = Out_Idle\<rparr>) three_pipes
       = Inr (map (\<lambda>d. Some (dpipe (three_data d))) xs,
              \<lambda>_. \<lparr>pstate = State_Active, instate = In_Idle, outstate = Out_Idle\<rparr>, three_pipes)"
proof -
  have ok: "dispatch_ok (\<lambda>pb. outstate pb = Out_Idle) three_data
      (\<lambda>_. \<lparr>pstate = State_Active, instate = In_Idle, outstate = Out_Idle\<rparr>) three_pipes"
    by (rule three_pipes_dispatch) simp
  have ne: "active_pipes three_pipes \<noteq> {}" using three_pipes_ok(2) by simp
  have top: "{d \<in> active_pipes three_pipes. \<forall>e\<in>active_pipes three_pipes. dprio (three_data d) \<le> dprio (three_data e)} = {2, 3}"
    unfolding three_pipes_ok(2) by (auto simp: three_data_def nn_priolist_add_def)
  show ?thesis using lb_fq_round_robin [OF ne, THEN conjunct1, rule_format, OF ok] unfolding top .
qed

end
