(* ===== verification/Nn_Wire.thy ===== *)
theory Nn_Wire
  imports Prelude
begin

unbundle bit_operations_syntax

text \<open>
  Numbers in network byte order, \<open>nanomsg/src/utils/wire.c\<close>: a buffer is the list of its
  bytes, a put function returns the bytes it writes.
\<close>

definition nn_gets :: "u8 list \<Rightarrow> u16" where
  "nn_gets buf = push_bit 8 (ucast (buf ! 0)) OR ucast (buf ! 1)"

definition nn_puts :: "u16 \<Rightarrow> u8 list" where
  "nn_puts val = [ucast (drop_bit 8 val AND 0xff), ucast (val AND 0xff)]"

definition nn_getl :: "u8 list \<Rightarrow> u32" where
  "nn_getl buf =
     push_bit 24 (ucast (buf ! 0)) OR push_bit 16 (ucast (buf ! 1))
     OR push_bit 8 (ucast (buf ! 2)) OR ucast (buf ! 3)"

definition nn_putl :: "u32 \<Rightarrow> u8 list" where
  "nn_putl val =
     [ucast (drop_bit 24 val AND 0xff), ucast (drop_bit 16 val AND 0xff),
      ucast (drop_bit 8 val AND 0xff), ucast (val AND 0xff)]"

definition nn_getll :: "u8 list \<Rightarrow> u64" where
  "nn_getll buf =
     push_bit 56 (ucast (buf ! 0)) OR push_bit 48 (ucast (buf ! 1))
     OR push_bit 40 (ucast (buf ! 2)) OR push_bit 32 (ucast (buf ! 3))
     OR push_bit 24 (ucast (buf ! 4)) OR push_bit 16 (ucast (buf ! 5))
     OR push_bit 8 (ucast (buf ! 6)) OR ucast (buf ! 7)"

definition nn_putll :: "u64 \<Rightarrow> u8 list" where
  "nn_putll val =
     [ucast (drop_bit 56 val AND 0xff), ucast (drop_bit 48 val AND 0xff),
      ucast (drop_bit 40 val AND 0xff), ucast (drop_bit 32 val AND 0xff),
      ucast (drop_bit 24 val AND 0xff), ucast (drop_bit 16 val AND 0xff),
      ucast (drop_bit 8 val AND 0xff), ucast (val AND 0xff)]"

lemma bit_byte: "bit b n \<Longrightarrow> n < 8" for b :: u8
  by (metis bit_imp_le_length len_num0 len_num1 len_bit0 mult_2 numeral_Bit0 one_add_one)

lemma bit_out: "bit (ucast (drop_bit k w AND 0xff) :: u8) n \<longleftrightarrow> n < 8 \<and> bit w (k + n)"
  for w :: "'a :: len word"
proof -
  have m: "(0xff :: 'a word) = mask 8" by (simp add: mask_eq_exp_minus_1)
  show ?thesis unfolding m by (auto simp: bit_simps dest: bit_imp_le_length)
qed

lemma bit_in: "bit (push_bit j (ucast b) :: 'a :: len word) m \<longleftrightarrow> j \<le> m \<and> m < LENGTH('a) \<and> bit b (m - j)"
  for b :: u8
  by (auto simp: bit_simps)

text \<open>A byte that is taken out and put back at its place.\<close>

lemma bit_there_and_back:
  "bit (push_bit k (ucast (ucast (drop_bit k w AND 0xff) :: u8)) :: 'a :: len word) n \<longleftrightarrow>
     k \<le> n \<and> n < k + 8 \<and> bit w n" for w :: "'a :: len word"
  by (auto simp: bit_in bit_out intro: bit_imp_le_length)

lemmas bit_wire = bit_there_and_back bit_there_and_back [of 0, simplified] bit_or_iff

lemma nn_gets_puts: "nn_gets (nn_puts val) = val"
  by (rule bit_word_eqI) (auto simp: nn_gets_def nn_puts_def bit_wire)

lemma nn_getl_putl: "nn_getl (nn_putl val) = val"
  by (rule bit_word_eqI) (auto simp: nn_getl_def nn_putl_def bit_wire)

lemma nn_getll_putll: "nn_getll (nn_putll val) = val"
  by (rule bit_word_eqI) (auto simp: nn_getll_def nn_putll_def bit_wire)

text \<open>The other direction: the bytes of a number that was read.\<close>

lemmas bit_fields = bit_out bit_out [of 0, simplified] bit_in bit_in [of 0, simplified] bit_or_iff
  bit_drop_bit_eq comp_def

lemma nn_putl_getl: "length bs = 4 \<Longrightarrow> nn_putl (nn_getl bs) = bs"
proof -
  assume "length bs = 4"
  then obtain a b c d where bs: "bs = [a, b, c, d]"
    by (auto simp: numeral_eq_Suc length_Suc_conv)
  have "ucast (drop_bit 24 (nn_getl bs) AND 0xff) = a" "ucast (drop_bit 16 (nn_getl bs) AND 0xff) = b"
    "ucast (drop_bit 8 (nn_getl bs) AND 0xff) = c" "ucast (nn_getl bs AND 0xff) = d"
    by (rule bit_word_eqI; auto simp: nn_getl_def bs bit_fields dest: bit_byte)+
  then show ?thesis by (simp add: nn_putl_def bs)
qed

section \<open>Properties\<close>

text \<open>
  The wire format round-trips: a 16, 32 or 64-bit number that was written is read back,
  whatever bytes follow it, and every four bytes that were read as a number are written back.
\<close>
theorem wire_roundtrip:
  "nn_gets (nn_puts a @ rest) = a \<and> nn_getl (nn_putl b @ rest) = b \<and> nn_getll (nn_putll c @ rest) = c
     \<and> (length bs = 4 \<longrightarrow> nn_putl (nn_getl bs) = bs)"
proof (intro conjI impI)
  show "nn_gets (nn_puts a @ rest) = a" using nn_gets_puts [of a] by (simp add: nn_gets_def nn_puts_def)
  show "nn_getl (nn_putl b @ rest) = b" using nn_getl_putl [of b] by (simp add: nn_getl_def nn_putl_def)
  show "nn_getll (nn_putll c @ rest) = c" using nn_getll_putll [of c] by (simp add: nn_getll_def nn_putll_def)
  show "nn_putl (nn_getl bs) = bs" if "length bs = 4" using that by (rule nn_putl_getl)
qed

text \<open>Four bytes read and written back.\<close>
theorem wire_roundtrip_witness: "nn_putl (nn_getl [0xde, 0xad, 0xca, 0xfe]) = [0xde, 0xad, 0xca, 0xfe]"
  using wire_roundtrip [of 0 "[]" 0 0 "[0xde, 0xad, 0xca, 0xfe]"] by simp

end
