(* ===== verification/Nn_Chunk.thy ===== *)
theory Nn_Chunk
  imports Nn_Wire Nn_Errno
begin

text \<open>
  The reference-counted message chunks of \<open>nanomsg/src/utils/chunk.c\<close>. A heap maps block numbers to
  chunks; a pointer is a block number and an offset from the start of the block. The struct
  \<open>nn_chunk\<close> takes the first 24 bytes; \<open>cbytes\<close> is the memory behind it: empty space, the size of
  that space, the tag, and the message. \<open>mal\<close> stands for \<open>malloc\<close>: a block number that is not in use
  and the bytes found in the new memory behind the struct.
\<close>

section \<open>Data and operations\<close>

record nn_chunk =
  refcount :: u32
  csize :: u64
  cbytes :: "u8 list"

type_synonym heap = "nat \<Rightarrow> nn_chunk option"
type_synonym chunk_ptr = "nat \<times> nat"
type_synonym malloc = "heap \<Rightarrow> u64 \<Rightarrow> (nat \<times> u8 list) option"

definition NN_CHUNK_TAG :: u32 where "NN_CHUNK_TAG = 0xdeadcafe"

definition NN_CHUNK_TAG_DEALLOCATED :: u32 where "NN_CHUNK_TAG_DEALLOCATED = 0xbeadfeed"

definition sizeof_nn_chunk :: nat where "sizeof_nn_chunk = 24"

definition nn_chunk_hdrsize :: nat where
  "nn_chunk_hdrsize = sizeof_nn_chunk + 2 * 4"

definition write_bytes :: "u8 list \<Rightarrow> nat \<Rightarrow> u8 list \<Rightarrow> u8 list" where
  "write_bytes xs i bs = take i xs @ bs @ drop (i + length bs) xs"

definition nn_chunk_getdata :: "nat \<Rightarrow> chunk_ptr" where
  "nn_chunk_getdata self = (self, sizeof_nn_chunk + 2 * 4)"

text \<open>
  \<open>nn_chunk_getptr\<close>: a read outside the block, or a result that is not the start of the block, is a
  fault of its own.
\<close>

definition nn_chunk_getptr :: "heap \<Rightarrow> chunk_ptr \<Rightarrow> (nat \<times> nn_chunk) c_result" where
  "nn_chunk_getptr H p =
     (case H (fst p) of
        None \<Rightarrow> Inl Out_Of_Bounds
      | Some c \<Rightarrow>
          if snd p < nn_chunk_hdrsize \<or> sizeof_nn_chunk + length (cbytes c) < snd p then Inl Out_Of_Bounds
          else if nn_getl (drop (snd p - sizeof_nn_chunk - 4) (cbytes c)) \<noteq> NN_CHUNK_TAG then Inl Assertion
          else
            let off = nn_getl (drop (snd p - sizeof_nn_chunk - 2 * 4) (cbytes c))
            in if snd p = 2 * 4 + unat off + sizeof_nn_chunk then Inr (fst p, c) else Inl Out_Of_Bounds)"

definition nn_chunk_alloc :: "malloc \<Rightarrow> heap \<Rightarrow> u64 \<Rightarrow> int \<Rightarrow> int \<times> chunk_ptr option \<times> heap" where
  "nn_chunk_alloc mal H n type =
     (let hdrsz = of_nat nn_chunk_hdrsize;
          sz = hdrsz + n
      in if sz < hdrsz then (- ENOMEM, None, H)
         else if type \<noteq> 0 then (- EINVAL, None, H)
         else
           (case mal H sz of
              None \<Rightarrow> (- ENOMEM, None, H)
            | Some (self, bs) \<Rightarrow>
                let bs = write_bytes bs 0 (nn_putl 0);
                    bs = write_bytes bs 4 (nn_putl NN_CHUNK_TAG)
                in (0, Some (nn_chunk_getdata self),
                    H(self \<mapsto> \<lparr>refcount = 1, csize = n, cbytes = bs\<rparr>))))"

text \<open>
  \<open>realloc\<close> of the C library: a block of the new size (the old one, or a new one) with the old bytes
  up to the smaller size; the old block is gone unless it is the one returned.
\<close>

definition nn_realloc :: "malloc \<Rightarrow> heap \<Rightarrow> nat \<Rightarrow> u64 \<Rightarrow> (nat \<times> heap) option" where
  "nn_realloc mal H self n =
     (case H self of
        None \<Rightarrow> None
      | Some c \<Rightarrow>
          (case mal (H(self := None)) n of
             None \<Rightarrow> None
           | Some (b, bs) \<Rightarrow>
               Some (b, (H(self := None))
                          (b \<mapsto> c\<lparr>cbytes := take (length bs) (cbytes c) @ drop (length (cbytes c)) bs\<rparr>))))"

definition nn_chunk_realloc ::
  "malloc \<Rightarrow> heap \<Rightarrow> u64 \<Rightarrow> chunk_ptr \<Rightarrow> (int \<times> chunk_ptr \<times> heap) c_result" where
  "nn_chunk_realloc mal H n chunk =
     (case nn_chunk_getptr H chunk of
        Inl e \<Rightarrow> Inl e
      | Inr (self, c) \<Rightarrow>
          if refcount c = 1 then
            let hdr_size = of_nat nn_chunk_hdrsize;
                new_size = hdr_size + n
            in if new_size < hdr_size then Inr (- ENOMEM, chunk, H)
               else
                 (case nn_realloc mal H self new_size of
                    None \<Rightarrow> Inr (- ENOMEM, chunk, H)
                  | Some (new_chunk, H) \<Rightarrow>
                      Inr (0, nn_chunk_getdata new_chunk, H(new_chunk := map_option (csize_update (\<lambda>_. n)) (H new_chunk))))
          else
            (case nn_chunk_alloc mal H n 0 of
               (rc, None, H) \<Rightarrow> Inr (rc, chunk, H)
             | (rc, Some new_ptr, H) \<Rightarrow>
                 if n < csize c then Inl Out_Of_Bounds
                 else
                   let data = take (unat (csize c)) (drop (snd (nn_chunk_getdata self) - sizeof_nn_chunk) (cbytes c));
                       H = H(fst new_ptr := map_option (\<lambda>d. d\<lparr>cbytes :=
                             write_bytes (cbytes d) (snd new_ptr - sizeof_nn_chunk) data\<rparr>) (H (fst new_ptr)))
                   in Inr (0, new_ptr, H(self := Some (c\<lparr>refcount := refcount c - 1\<rparr>)))))"

text \<open>\<open>nn_chunk_free\<close>: \<open>nn_atomic_dec\<close> returns the old count; the freed block leaves the heap.\<close>

definition nn_chunk_free :: "heap \<Rightarrow> chunk_ptr \<Rightarrow> heap c_result" where
  "nn_chunk_free H p =
     (case nn_chunk_getptr H p of
        Inl e \<Rightarrow> Inl e
      | Inr (self, c) \<Rightarrow>
          if refcount c \<le> 1 then Inr (H(self := None))
          else Inr (H(self \<mapsto> c\<lparr>refcount := refcount c - 1\<rparr>)))"

definition nn_chunk_addref :: "heap \<Rightarrow> chunk_ptr \<Rightarrow> u32 \<Rightarrow> heap c_result" where
  "nn_chunk_addref H p n =
     (case nn_chunk_getptr H p of
        Inl e \<Rightarrow> Inl e
      | Inr (self, c) \<Rightarrow> Inr (H(self \<mapsto> c\<lparr>refcount := refcount c + n\<rparr>)))"

definition nn_chunk_size :: "heap \<Rightarrow> chunk_ptr \<Rightarrow> u64 c_result" where
  "nn_chunk_size H p = (case nn_chunk_getptr H p of Inl e \<Rightarrow> Inl e | Inr (self, c) \<Rightarrow> Inr (csize c))"

definition nn_chunk_trim :: "heap \<Rightarrow> chunk_ptr \<Rightarrow> u64 \<Rightarrow> (chunk_ptr \<times> heap) c_result" where
  "nn_chunk_trim H p n =
     (case nn_chunk_getptr H p of
        Inl e \<Rightarrow> Inl e
      | Inr (self, c) \<Rightarrow>
          if \<not> n \<le> csize c then Inl Assertion
          else
            let o' = snd p + unat n;
                bs = write_bytes (cbytes c) (o' - sizeof_nn_chunk - 4) (nn_putl NN_CHUNK_TAG);
                empty_space = o' - nn_chunk_hdrsize
            in if \<not> empty_space < 2 ^ 32 - 1 then Inl Assertion
               else
                 let bs = write_bytes bs (o' - sizeof_nn_chunk - 2 * 4) (nn_putl (of_nat empty_space))
                 in Inr ((self, o'), H(self \<mapsto> c\<lparr>cbytes := bs, csize := csize c - n\<rparr>)))"

section \<open>What a pointer refers to\<close>

text \<open>\<open>malloc\<close>: the block is new and has the size asked for.\<close>

definition malloc_fresh :: "malloc \<Rightarrow> bool" where
  "malloc_fresh mal \<longleftrightarrow>
     (\<forall>H n b bs. mal H n = Some (b, bs) \<longrightarrow> H b = None \<and> length bs = unat n - sizeof_nn_chunk)"

text \<open>\<open>chunk_ref H p k data\<close>: \<open>p\<close> is a valid pointer into a chunk with \<open>k\<close> references and message \<open>data\<close>.\<close>

definition chunk_ref :: "heap \<Rightarrow> chunk_ptr \<Rightarrow> u32 \<Rightarrow> u8 list \<Rightarrow> bool" where
  "chunk_ref H p k data \<longleftrightarrow>
     (\<exists>c. nn_chunk_getptr H p = Inr (fst p, c) \<and> H (fst p) = Some c \<and> refcount c = k
        \<and> drop (snd p - sizeof_nn_chunk) (cbytes c) = data \<and> unat (csize c) = length data)"

lemmas chunk_sizes = sizeof_nn_chunk_def nn_chunk_hdrsize_def

lemma length_nn_putl [simp]: "length (nn_putl v) = 4"
  by (simp add: nn_putl_def)

lemma length_write_bytes [simp]: "i + length bs \<le> length xs \<Longrightarrow> length (write_bytes xs i bs) = length xs"
  by (simp add: write_bytes_def)

lemma drop_write_after: "i + length bs \<le> j \<Longrightarrow> i \<le> length xs \<Longrightarrow> drop j (write_bytes xs i bs) = drop j xs"
  by (simp add: write_bytes_def add.commute)

lemma nn_getl_append: "4 \<le> length xs \<Longrightarrow> nn_getl (xs @ ys) = nn_getl xs"
  by (auto simp: nn_getl_def nth_append)

lemma nn_getl_write_same: "i + 4 \<le> length xs \<Longrightarrow> nn_getl (drop i (write_bytes xs i (nn_putl v))) = v"
  by (simp add: write_bytes_def nn_getl_append nn_getl_putl)

lemma nn_getl_write_before:
  assumes "i + length bs \<le> j" and "i \<le> length xs"
  shows "nn_getl (drop j (write_bytes xs i bs)) = nn_getl (drop j xs)"
  using assms by (simp add: drop_write_after)

lemma nn_getl_take:
  assumes "j + 4 \<le> i" and "i \<le> length xs"
  shows "nn_getl (drop j (take i xs @ ys)) = nn_getl (drop j xs)"
proof -
  have "drop j (take i xs @ ys) = take (i - j) (drop j xs) @ ys"
    using assms by (simp add: drop_take)
  moreover have "nn_getl (take (i - j) (drop j xs)) = nn_getl (drop j xs)"
    using assms by (simp add: nn_getl_def)
  ultimately show ?thesis using assms by (simp add: nn_getl_append)
qed

lemma nn_getl_write_behind:
  "j + 4 \<le> i \<Longrightarrow> i \<le> length xs \<Longrightarrow> nn_getl (drop j (write_bytes xs i bs)) = nn_getl (drop j xs)"
  unfolding write_bytes_def by (rule nn_getl_take)

lemma nn_chunk_getptr_iff:
  "nn_chunk_getptr H (b, j) = Inr (s, c) \<longleftrightarrow>
     s = b \<and> H b = Some c \<and> 32 \<le> j \<and> j \<le> 24 + length (cbytes c)
     \<and> nn_getl (drop (j - 28) (cbytes c)) = NN_CHUNK_TAG \<and> unat (nn_getl (drop (j - 32) (cbytes c))) = j - 32"
  by (auto simp: nn_chunk_getptr_def chunk_sizes Let_def split: option.splits if_splits)

lemma chunk_ref_iff:
  "chunk_ref H (b, j) k data \<longleftrightarrow>
     (\<exists>c. H b = Some c \<and> 32 \<le> j \<and> j \<le> 24 + length (cbytes c)
     \<and> nn_getl (drop (j - 28) (cbytes c)) = NN_CHUNK_TAG \<and> unat (nn_getl (drop (j - 32) (cbytes c))) = j - 32
     \<and> refcount c = k \<and> drop (j - 24) (cbytes c) = data \<and> unat (csize c) = length data)"
  by (auto simp: chunk_ref_def nn_chunk_getptr_iff chunk_sizes)

lemma chunk_ref_getptr:
  assumes "chunk_ref H p k data"
  obtains c where "nn_chunk_getptr H p = Inr (fst p, c)" "H (fst p) = Some c" "refcount c = k"
    "drop (snd p - 24) (cbytes c) = data" "unat (csize c) = length data"
  using assms by (auto simp: chunk_ref_def chunk_sizes)

lemma chunk_ref_frame: "H' (fst p) = H (fst p) \<Longrightarrow> chunk_ref H' p k data \<longleftrightarrow> chunk_ref H p k data"
  by (cases p) (simp add: chunk_ref_iff)

section \<open>What the operations do\<close>

lemma nn_chunk_alloc_ref:
  assumes mal: "malloc_fresh mal" and fit: "unat n + 32 < 2 ^ 64" and m: "mal H (32 + n) = Some (b, bs)"
  shows "\<exists>H' data. nn_chunk_alloc mal H n 0 = (0, Some (b, 32), H') \<and> H b = None
           \<and> chunk_ref H' (b, 32) 1 data \<and> length data = unat n \<and> (\<forall>a. a \<noteq> b \<longrightarrow> H' a = H a)"
proof -
  have sz: "unat (32 + n) = 32 + unat n" using fit by (simp add: unat_word_ariths)
  then have "\<not> 32 + n < 32" by (simp add: word_less_nat_alt)
  moreover have len: "length bs = 8 + unat n" and fresh: "H b = None"
    using mal m sz by (auto simp: malloc_fresh_def chunk_sizes)
  moreover define cs where "cs = write_bytes (write_bytes bs 0 (nn_putl 0)) 4 (nn_putl NN_CHUNK_TAG)"
  have "nn_getl cs = 0" "nn_getl (drop 4 cs) = NN_CHUNK_TAG" "length cs = 8 + unat n"
    using len nn_getl_write_same [of 0 bs 0] nn_getl_write_behind [of 0 4 "write_bytes bs 0 (nn_putl 0)"]
    by (auto simp: cs_def nn_getl_write_same)
  ultimately show ?thesis using m
    by (auto simp: nn_chunk_alloc_def Let_def chunk_sizes nn_chunk_getdata_def chunk_ref_iff cs_def [symmetric])
qed

lemma nn_chunk_trim_ref:
  assumes ref: "chunk_ref H p k data" and n: "unat n \<le> length data" and small: "snd p + unat n - 32 < 2 ^ 32 - 1"
  shows "\<exists>H'. nn_chunk_trim H p n = Inr ((fst p, snd p + unat n), H')
           \<and> chunk_ref H' (fst p, snd p + unat n) k (drop (unat n) data)
           \<and> (\<forall>a. a \<noteq> fst p \<longrightarrow> H' a = H a)"
proof -
  obtain b j where p: "p = (b, j)" by (cases p)
  obtain c where c: "nn_chunk_getptr H (b, j) = Inr (b, c)" "H b = Some c" "refcount c = k"
      "drop (j - 24) (cbytes c) = data" "unat (csize c) = length data"
    using ref p by (auto elim: chunk_ref_getptr)
  then have j: "32 \<le> j" "j \<le> 24 + length (cbytes c)" by (auto simp: nn_chunk_getptr_iff)
  let ?o = "j + unat n"
  have len: "?o \<le> 24 + length (cbytes c)" using n c(4) j by auto
  define bs where "bs = write_bytes (cbytes c) (?o - 28) (nn_putl NN_CHUNK_TAG)"
  define ds where "ds = write_bytes bs (?o - 32) (nn_putl (of_nat (?o - 32)))"
  have lb: "length bs = length (cbytes c)" using j len by (simp add: bs_def)
  have tag: "nn_getl (drop (?o - 28) ds) = NN_CHUNK_TAG"
    using j len lb nn_getl_write_before [of "?o - 32" "nn_putl (of_nat (?o - 32))" "?o - 28" bs]
    by (simp add: ds_def) (simp add: bs_def nn_getl_write_same)
  have off: "unat (nn_getl (drop (?o - 32) ds)) = ?o - 32"
    using j len lb small p by (simp add: ds_def nn_getl_write_same unat_of_nat del: of_nat_diff of_nat_add)
  have dat: "drop (?o - 24) ds = drop (unat n) data"
    using j len lb c(4) by (simp add: ds_def bs_def drop_write_after) (simp add: drop_drop add.commute flip: c(4))
  have "n \<le> csize c" using n c(5) by (simp add: word_le_nat_alt)
  moreover have "unat (csize c - n) = length data - unat n" using n c(5) by (simp add: unat_sub word_le_nat_alt)
  moreover have "length ds = length (cbytes c)" using j len lb by (simp add: ds_def)
  ultimately show ?thesis
    using c j len small p tag off dat
    by (auto simp: nn_chunk_trim_def Let_def chunk_sizes chunk_ref_iff ds_def [symmetric] bs_def [symmetric]
        simp del: of_nat_diff of_nat_add)
qed

lemma chunk_ref_refcount:
  assumes "chunk_ref H p k data" and "H (fst p) = Some c"
  shows "chunk_ref (H(fst p \<mapsto> c\<lparr>refcount := k'\<rparr>)) p k' data"
  using assms by (cases p) (auto simp: chunk_ref_iff)

lemma nn_chunk_addref_ref:
  assumes "chunk_ref H p k data"
  shows "\<exists>H'. nn_chunk_addref H p n = Inr H' \<and> chunk_ref H' p (k + n) data \<and> (\<forall>a. a \<noteq> fst p \<longrightarrow> H' a = H a)"
  using assms by (elim chunk_ref_getptr) (auto simp: nn_chunk_addref_def chunk_ref_refcount [OF assms])

lemma nn_chunk_free_ref:
  assumes "chunk_ref H p k data"
  shows "\<exists>H'. nn_chunk_free H p = Inr H' \<and> (\<forall>a. a \<noteq> fst p \<longrightarrow> H' a = H a)
           \<and> (if k \<le> 1 then H' (fst p) = None else chunk_ref H' p (k - 1) data)"
  using assms by (elim chunk_ref_getptr) (auto simp: nn_chunk_free_def chunk_ref_refcount [OF assms])

lemma nn_chunk_size_ref: "chunk_ref H p k data \<Longrightarrow> \<exists>n. nn_chunk_size H p = Inr n \<and> unat n = length data"
  by (elim chunk_ref_getptr) (simp add: nn_chunk_size_def)

text \<open>A reference added and given back leaves the heap as it was.\<close>

lemma nn_chunk_addref_free:
  assumes ref: "chunk_ref H p k data" and k: "k \<noteq> 0" "k + 1 \<noteq> 0"
  shows "\<exists>H'. nn_chunk_addref H p 1 = Inr H' \<and> nn_chunk_free H' p = Inr H"
proof -
  obtain c where c: "nn_chunk_getptr H p = Inr (fst p, c)" "H (fst p) = Some c" "refcount c = k"
    using ref by (elim chunk_ref_getptr)
  let ?c = "c\<lparr>refcount := k + 1\<rparr>" and ?H = "H(fst p \<mapsto> c\<lparr>refcount := k + 1\<rparr>)"
  have "chunk_ref ?H p (k + 1) data" by (rule chunk_ref_refcount [OF ref c(2)])
  then have "nn_chunk_getptr ?H p = Inr (fst p, ?c)" by (elim chunk_ref_getptr) simp
  moreover have "\<not> k + 1 \<le> 1"
    using k unatSuc [of k] by (simp add: word_le_nat_alt unat_eq_zero add.commute)
  ultimately have "nn_chunk_free ?H p = Inr (?H(fst p \<mapsto> ?c\<lparr>refcount := k\<rparr>))" by (simp add: nn_chunk_free_def)
  moreover have same: "?H(fst p \<mapsto> ?c\<lparr>refcount := k\<rparr>) = H" using c(2,3) by auto
  ultimately have "nn_chunk_free ?H p = Inr H" by (simp only: same)
  then show ?thesis using c(1,3) by (simp add: nn_chunk_addref_def del: fun_upd_apply)
qed

lemma nn_chunk_realloc_alone:
  assumes mal: "malloc_fresh mal" and ref: "chunk_ref H (b, 32) 1 data" and fit: "unat n + 32 < 2 ^ 64"
    and m: "mal (H(b := None)) (32 + n) = Some (b', bs)"
  shows "\<exists>H' data'. nn_chunk_realloc mal H n (b, 32) = Inr (0, (b', 32), H') \<and> chunk_ref H' (b', 32) 1 data'
           \<and> length data' = unat n \<and> take (length data) data' = take (unat n) data"
proof -
  obtain c where c: "H b = Some c" "8 \<le> length (cbytes c)" "nn_getl (drop 4 (cbytes c)) = NN_CHUNK_TAG"
      "nn_getl (cbytes c) = 0" "refcount c = 1" "drop 8 (cbytes c) = data" "unat (csize c) = length data"
    using ref by (auto simp: chunk_ref_iff unat_eq_zero)
  have sz: "unat (32 + n) = 32 + unat n" using fit by (simp add: unat_word_ariths)
  then have nofl: "\<not> 32 + n < 32" by (simp add: word_less_nat_alt)
  have len: "length bs = 8 + unat n" using mal m sz by (auto simp: malloc_fresh_def chunk_sizes)
  let ?bs = "take (length bs) (cbytes c) @ drop (length (cbytes c)) bs"
  let ?H = "(H(b := None))(b' \<mapsto> c\<lparr>cbytes := ?bs, csize := n\<rparr>)"
  have split: "cbytes c = take 8 (cbytes c) @ data" using c(6) by (metis append_take_drop_id)
  have l8: "length (take 8 (cbytes c)) = 8" using c(2) by simp
  have shape: "?bs = take 8 (cbytes c) @ take (unat n) data @ drop (length (cbytes c)) bs"
    using len l8 by (subst split) (simp add: take_append)
  have "nn_getl ?bs = nn_getl (cbytes c)" "nn_getl (drop 4 ?bs) = nn_getl (drop 4 (cbytes c))"
    unfolding shape using c(2) nn_getl_take [of 0 8 "cbytes c"] nn_getl_take [of 4 8 "cbytes c"]
    by (simp_all only: drop0)
  moreover have "drop 8 ?bs = take (unat n) data @ drop (length (cbytes c)) bs"
    unfolding shape using l8 by simp
  moreover have lc: "length (cbytes c) = 8 + length data" using c(2,6) by auto
  moreover have "length ?bs = 8 + unat n" using len by simp
  ultimately have "chunk_ref ?H (b', 32) 1 (take (unat n) data @ drop (length (cbytes c)) bs)"
    using c(3,4,5) len lc by (simp add: chunk_ref_iff)
  moreover have "nn_chunk_getptr H (b, 32) = Inr (b, c)" using c by (simp add: nn_chunk_getptr_iff)
  then have "nn_chunk_realloc mal H n (b, 32) = Inr (0, (b', 32), ?H)"
    using c(1,5) nofl m
    by (simp add: nn_chunk_realloc_def Let_def chunk_sizes nn_realloc_def nn_chunk_getdata_def)
  moreover have "take (length data) (take (unat n) data @ drop (length (cbytes c)) bs) = take (unat n) data"
    using lc len by (cases "length data \<le> unat n") auto
  ultimately show ?thesis using lc len by (intro exI conjI) auto
qed

lemma chunk_ref_write:
  assumes ref: "chunk_ref H (b, 32) k fill" and fits: "length data \<le> length fill"
  shows "chunk_ref (H(b := map_option (\<lambda>d. d\<lparr>cbytes := write_bytes (cbytes d) 8 data\<rparr>) (H b))) (b, 32) k
           (data @ drop (length data) fill)"
proof -
  obtain d where d: "H b = Some d" "8 \<le> length (cbytes d)" "nn_getl (drop 4 (cbytes d)) = NN_CHUNK_TAG"
      "nn_getl (cbytes d) = 0" "refcount d = k" "drop 8 (cbytes d) = fill" "unat (csize d) = length fill"
    using ref by (auto simp: chunk_ref_iff unat_eq_zero)
  let ?ds = "write_bytes (cbytes d) 8 data"
  have ld: "length (cbytes d) = 8 + length fill" using d(2,6) by auto
  have "nn_getl ?ds = 0" "nn_getl (drop 4 ?ds) = NN_CHUNK_TAG"
    using d(3,4) ld nn_getl_write_behind [of 0 8 "cbytes d" data] nn_getl_write_behind [of 4 8 "cbytes d" data]
    by simp_all
  moreover have "drop 8 ?ds = data @ drop (length data) fill"
    using ld by (simp add: write_bytes_def drop_drop add.commute flip: d(6))
  moreover have "length ?ds = 8 + length fill" using fits ld by simp
  ultimately show ?thesis using d fits by (simp add: chunk_ref_iff)
qed

lemma nn_chunk_realloc_shared:
  assumes mal: "malloc_fresh mal" and ref: "chunk_ref H (b, 32) k data" and k: "k \<noteq> 1"
    and fit: "unat n + 32 < 2 ^ 64" and m: "mal H (32 + n) = Some (b', bs)"
  shows "if unat n < length data then nn_chunk_realloc mal H n (b, 32) = Inl Out_Of_Bounds
         else \<exists>H' data'. nn_chunk_realloc mal H n (b, 32) = Inr (0, (b', 32), H') \<and> chunk_ref H' (b', 32) 1 data'
           \<and> chunk_ref H' (b, 32) (k - 1) data \<and> length data' = unat n \<and> take (length data) data' = data"
proof -
  obtain c where c: "nn_chunk_getptr H (b, 32) = Inr (b, c)" "H b = Some c" "refcount c = k"
      "drop 8 (cbytes c) = data" "unat (csize c) = length data"
    using ref by (elim chunk_ref_getptr) simp
  obtain H1 fill where al: "nn_chunk_alloc mal H n 0 = (0, Some (b', 32), H1)" "H b' = None"
      "chunk_ref H1 (b', 32) 1 fill" "length fill = unat n" "\<forall>a. a \<noteq> b' \<longrightarrow> H1 a = H a"
    using nn_chunk_alloc_ref [OF mal fit m] by blast
  have bb: "b' \<noteq> b" using al(2) c(2) by auto
  obtain d where d: "H1 b' = Some d" using al(3) by (auto simp: chunk_ref_iff)
  let ?ds = "write_bytes (cbytes d) 8 data"
  let ?H = "H1(b' \<mapsto> d\<lparr>cbytes := ?ds\<rparr>, b \<mapsto> c\<lparr>refcount := k - 1\<rparr>)"
  have n: "n < csize c \<longleftrightarrow> unat n < length data" using c(5) by (simp add: word_less_nat_alt)
  have "take (unat (csize c)) (drop 8 (cbytes c)) = data" using c(4,5) by simp
  then have res: "nn_chunk_realloc mal H n (b, 32)
      = (if unat n < length data then Inl Out_Of_Bounds else Inr (0, (b', 32), ?H))"
    using c k al(1) d n by (simp add: nn_chunk_realloc_def Let_def nn_chunk_getdata_def chunk_sizes)
  have "\<exists>data'. chunk_ref ?H (b', 32) 1 data' \<and> length data' = unat n \<and> take (length data) data' = data"
    if fits: "length data \<le> unat n"
  proof -
    have "chunk_ref ?H (b', 32) 1 (data @ drop (length data) fill)"
      using chunk_ref_write [OF al(3), of data] fits al(4) d bb by (simp add: chunk_ref_iff)
    then show ?thesis using fits al(4) by (intro exI [of _ "data @ drop (length data) fill"]) simp
  qed
  moreover have "chunk_ref ?H (b, 32) (k - 1) data"
  proof -
    have "chunk_ref (H(b \<mapsto> c\<lparr>refcount := k - 1\<rparr>)) (b, 32) (k - 1) data"
      using chunk_ref_refcount [OF ref, of c] c(2) by simp
    then show ?thesis by (simp add: chunk_ref_iff)
  qed
  ultimately show ?thesis using res by auto
qed

section \<open>Properties\<close>

text \<open>
  A chunk behaves as a counted reference to a message. Through a valid pointer the size
  is the length of the message, adding references raises the count, freeing lowers it and releases
  the block exactly with the last reference, trimming \<open>n\<close> bytes gives a valid pointer to the message
  without its first \<open>n\<close> bytes (and stops at the assertion when the message is shorter), and no
  operation touches another block.
\<close>
theorem nn_chunk_refines:
  assumes "chunk_ref H p k data" and "snd p + length data < 2 ^ 32"
  shows "(\<exists>n. nn_chunk_size H p = Inr n \<and> unat n = length data)
       \<and> (\<exists>H'. nn_chunk_addref H p m = Inr H' \<and> chunk_ref H' p (k + m) data \<and> (\<forall>a. a \<noteq> fst p \<longrightarrow> H' a = H a))
       \<and> (\<exists>H'. nn_chunk_free H p = Inr H' \<and> (\<forall>a. a \<noteq> fst p \<longrightarrow> H' a = H a)
             \<and> (if k \<le> 1 then H' (fst p) = None else chunk_ref H' p (k - 1) data))
       \<and> (if length data < unat n then nn_chunk_trim H p n = Inl Assertion
          else \<exists>H'. nn_chunk_trim H p n = Inr ((fst p, snd p + unat n), H')
             \<and> chunk_ref H' (fst p, snd p + unat n) k (drop (unat n) data)
             \<and> (\<forall>a. a \<noteq> fst p \<longrightarrow> H' a = H a))"
proof -
  have "nn_chunk_trim H p n = Inl Assertion" if "length data < unat n"
    using assms(1) that by (elim chunk_ref_getptr) (simp add: nn_chunk_trim_def word_le_nat_alt)
  moreover have "32 \<le> snd p" using assms(1) by (cases p) (auto simp: chunk_ref_iff)
  ultimately show ?thesis
    using nn_chunk_size_ref [OF assms(1)] nn_chunk_addref_ref [OF assms(1)] nn_chunk_free_ref [OF assms(1)]
      nn_chunk_trim_ref [OF assms(1), of n] assms(2) by simp
qed

definition one_chunk :: heap where
  "one_chunk = [7 \<mapsto> \<lparr>refcount = 2, csize = 10,
     cbytes = nn_putl 0 @ nn_putl NN_CHUNK_TAG @ replicate 10 1\<rparr>]"

lemma one_chunk_ref: "chunk_ref one_chunk (7, 32) 2 (replicate 10 1)"
proof -
  have "nn_getl (nn_putl 0 @ ys) = 0" "nn_getl (nn_putl NN_CHUNK_TAG @ ys) = NN_CHUNK_TAG" for ys
    by (simp_all add: nn_getl_append nn_getl_putl)
  then show ?thesis by (simp add: chunk_ref_iff one_chunk_def del: replicate.simps)
qed

text \<open>A chunk of ten bytes with two references: three bytes trimmed off.\<close>
theorem nn_chunk_refines_witness:
  "\<exists>H'. nn_chunk_trim one_chunk (7, 32) 3 = Inr ((7, 35), H') \<and> chunk_ref H' (7, 35) 2 (replicate 7 1)"
  using nn_chunk_refines [OF one_chunk_ref, of 1 3] by auto

text \<open>
  \<open>nn_chunk_realloc\<close> on a message that was never trimmed keeps its bytes up to the
  smaller of the two sizes: in place for the only reference, and in a copy that leaves the other
  references alone when there are more. A shared chunk that is made smaller is the exception: the
  copy writes the whole old message behind the end of the new block.
\<close>
theorem nn_chunk_realloc_correct:
  assumes "malloc_fresh mal" and "chunk_ref H (b, 32) k data" and "unat n + 32 < 2 ^ 64"
    and "mal (if k = 1 then H(b := None) else H) (32 + n) = Some (b', bs)"
  shows "if k \<noteq> 1 \<and> unat n < length data then nn_chunk_realloc mal H n (b, 32) = Inl Out_Of_Bounds
         else \<exists>H' data'. nn_chunk_realloc mal H n (b, 32) = Inr (0, (b', 32), H') \<and> chunk_ref H' (b', 32) 1 data'
           \<and> length data' = unat n \<and> take (length data) data' = take (unat n) data
           \<and> (k \<noteq> 1 \<longrightarrow> chunk_ref H' (b, 32) (k - 1) data)"
proof (cases "k = 1")
  case True
  with nn_chunk_realloc_alone [OF assms(1), of H b data n b' bs] assms show ?thesis by simp
next
  case False
  with nn_chunk_realloc_shared [OF assms(1,2) False assms(3), of b' bs] assms(4) show ?thesis
    by (cases "unat n < length data") auto
qed

text \<open>The shared chunk of ten bytes, made smaller: the copy overruns.\<close>
theorem nn_chunk_realloc_correct_witness:
  "nn_chunk_realloc (\<lambda>H n. if H 8 = None then Some (8, replicate (unat n - 24) 0) else None) one_chunk 4 (7, 32)
     = Inl Out_Of_Bounds"
proof -
  let ?mal = "\<lambda>H n. if H 8 = None then Some (8, replicate (unat n - 24) 0) else None"
  have "malloc_fresh ?mal" by (auto simp: malloc_fresh_def chunk_sizes split: if_splits)
  from nn_chunk_realloc_correct [OF this one_chunk_ref, of 4 8 "replicate 12 0"] show ?thesis
    by (simp add: one_chunk_def del: replicate.simps)
qed

text \<open>
  Trimming is not safe on a chunk with another reference. The size is shared, so
  trimming eight bytes or more shortens the message of every other reference; trimming four bytes
  writes the new header over the tag in front of the old pointer, and the next use of the other
  reference stops at the tag assertion.
\<close>
theorem nn_chunk_trim_shared:
  assumes "chunk_ref H (b, 32) k data" and "32 + length data < 2 ^ 32"
  shows "(4 \<le> length data \<longrightarrow>
            (\<exists>p H'. nn_chunk_trim H (b, 32) 4 = Inr (p, H') \<and> nn_chunk_size H' (b, 32) = Inl Assertion))
       \<and> (8 \<le> unat n \<and> unat n \<le> length data \<longrightarrow>
            (\<exists>p H' m. nn_chunk_trim H (b, 32) n = Inr (p, H') \<and> nn_chunk_size H' (b, 32) = Inr m
               \<and> unat m = length data - unat n))"
proof -
  obtain c where c: "nn_chunk_getptr H (b, 32) = Inr (b, c)" "H b = Some c" "drop 8 (cbytes c) = data"
      "unat (csize c) = length data"
    using assms(1) by (elim chunk_ref_getptr) simp
  then have len: "length (cbytes c) = 8 + length data" by (auto simp: nn_chunk_getptr_iff)
  let ?bs = "\<lambda>m. write_bytes (write_bytes (cbytes c) (m + 4) (nn_putl NN_CHUNK_TAG)) m (nn_putl (of_nat m))"
  have trim: "nn_chunk_trim H (b, 32) n = Inr ((b, 32 + unat n), H(b \<mapsto> c\<lparr>cbytes := ?bs (unat n), csize := csize c - n\<rparr>))"
    if "unat n \<le> length data" for n
    using c that assms(2) by (simp add: nn_chunk_trim_def Let_def chunk_sizes word_le_nat_alt add.commute)
  have "nn_getl (drop 4 (?bs 4)) = 4" if "4 \<le> length data"
    using len that by (simp add: nn_getl_write_same)
  then have "nn_chunk_getptr (H(b \<mapsto> c\<lparr>cbytes := ?bs 4, csize := csize c - 4\<rparr>)) (b, 32) = Inl Assertion"
    if "4 \<le> length data"
    using len that by (simp add: nn_chunk_getptr_def chunk_sizes NN_CHUNK_TAG_def)
  moreover have "nn_getl (?bs m) = nn_getl (cbytes c)" "nn_getl (drop 4 (?bs m)) = nn_getl (drop 4 (cbytes c))"
    if "8 \<le> m" "m \<le> length data" for m
    using len that nn_getl_write_behind [of 0 m] nn_getl_write_behind [of 0 "m + 4" "cbytes c"]
    by (simp_all add: nn_getl_write_behind)
  then have keep: "nn_chunk_getptr (H(b \<mapsto> c\<lparr>cbytes := ?bs m, csize := v\<rparr>)) (b, 32) = Inr (b, c\<lparr>cbytes := ?bs m, csize := v\<rparr>)"
    if "8 \<le> m" "m \<le> length data" for m v
    using c(1) len that by (simp add: nn_chunk_getptr_iff)
  ultimately show ?thesis
    using trim [of 4] trim [of n] c(4) keep [of "unat n" "csize c - n"]
    by (auto simp: nn_chunk_size_def unat_sub word_le_nat_alt)
qed

text \<open>The chunk of ten bytes with two references, trimmed through one of them by four bytes.\<close>
theorem nn_chunk_trim_shared_witness:
  "\<exists>p H'. nn_chunk_trim one_chunk (7, 32) 4 = Inr (p, H') \<and> nn_chunk_size H' (7, 32) = Inl Assertion"
  using nn_chunk_trim_shared [OF one_chunk_ref, of 8] by simp

end
