(* ===== verification/Nn_Msg.thy ===== *)
theory Nn_Msg
  imports Nn_Chunk
begin

text \<open>
  Chunk references and messages of \<open>nanomsg/src/utils/chunkref.c\<close> and \<open>msg.c\<close>. A reference holds up
  to 31 bytes itself (\<open>rtag\<close> is their number) or points to a chunk (\<open>rtag\<close> is \<open>0xff\<close>); the two
  overlap in the C union, and the model keeps a field for each since the code only ever reads the
  one the tag announces. Operations that copy between two references take the target and return it.
\<close>

section \<open>Chunk references\<close>

definition NN_CHUNKREF_MAX :: nat where "NN_CHUNKREF_MAX = 32"

record nn_chunkref =
  rtag :: u8
  rdata :: "u8 list"
  rchunk :: chunk_ptr

definition nn_chunkref_init ::
  "malloc \<Rightarrow> heap \<Rightarrow> nn_chunkref \<Rightarrow> u64 \<Rightarrow> (nn_chunkref \<times> heap) c_result" where
  "nn_chunkref_init mal H self n =
     (if unat n < NN_CHUNKREF_MAX then Inr (self\<lparr>rtag := ucast n\<rparr>, H)
      else (case nn_chunk_alloc mal H n 0 of
              (rc, Some chunk, H) \<Rightarrow> if rc = 0 then Inr (self\<lparr>rtag := 0xff, rchunk := chunk\<rparr>, H) else Inl Assertion
            | (rc, None, H) \<Rightarrow> Inl Assertion))"

definition nn_chunkref_init_chunk :: "nn_chunkref \<Rightarrow> chunk_ptr \<Rightarrow> nn_chunkref" where
  "nn_chunkref_init_chunk self chunk = self\<lparr>rtag := 0xff, rchunk := chunk\<rparr>"

definition nn_chunkref_term :: "heap \<Rightarrow> nn_chunkref \<Rightarrow> heap c_result" where
  "nn_chunkref_term H self = (if rtag self = 0xff then nn_chunk_free H (rchunk self) else Inr H)"

definition nn_chunkref_getchunk ::
  "malloc \<Rightarrow> heap \<Rightarrow> nn_chunkref \<Rightarrow> (chunk_ptr \<times> nn_chunkref \<times> heap) c_result" where
  "nn_chunkref_getchunk mal H self =
     (if rtag self = 0xff then Inr (rchunk self, self\<lparr>rtag := 0\<rparr>, H)
      else (case nn_chunk_alloc mal H (ucast (rtag self)) 0 of
              (rc, Some chunk, H) \<Rightarrow>
                if rc = 0 then
                  Inr (chunk, self\<lparr>rtag := 0\<rparr>,
                       H(fst chunk := map_option (\<lambda>d. d\<lparr>cbytes := write_bytes (cbytes d)
                           (snd chunk - sizeof_nn_chunk) (take (unat (rtag self)) (rdata self))\<rparr>) (H (fst chunk))))
                else Inl Assertion
            | (rc, None, H) \<Rightarrow> Inl Assertion))"

definition nn_chunkref_mv :: "nn_chunkref \<Rightarrow> nn_chunkref \<Rightarrow> nn_chunkref" where
  "nn_chunkref_mv dst src =
     (if rtag src = 0xff then dst\<lparr>rtag := 0xff, rchunk := rchunk src\<rparr>
      else dst\<lparr>rtag := rtag src,
               rdata := take (unat (rtag src)) (rdata src) @ drop (unat (rtag src)) (rdata dst)\<rparr>)"

definition nn_chunkref_cp :: "heap \<Rightarrow> nn_chunkref \<Rightarrow> (nn_chunkref \<times> heap) c_result" where
  "nn_chunkref_cp H src =
     (if rtag src = 0xff then
        (case nn_chunk_addref H (rchunk src) 1 of Inl e \<Rightarrow> Inl e | Inr H \<Rightarrow> Inr (src, H))
      else Inr (src, H))"

definition nn_chunkref_data :: "heap \<Rightarrow> nn_chunkref \<Rightarrow> u8 list c_result" where
  "nn_chunkref_data H self =
     (if rtag self = 0xff then
        (case H (fst (rchunk self)) of
           None \<Rightarrow> Inl Out_Of_Bounds
         | Some c \<Rightarrow> Inr (drop (snd (rchunk self) - sizeof_nn_chunk) (cbytes c)))
      else Inr (rdata self))"

definition nn_chunkref_size :: "heap \<Rightarrow> nn_chunkref \<Rightarrow> u64 c_result" where
  "nn_chunkref_size H self =
     (if rtag self = 0xff then nn_chunk_size H (rchunk self) else Inr (ucast (rtag self)))"

definition nn_chunkref_trim :: "heap \<Rightarrow> nn_chunkref \<Rightarrow> u64 \<Rightarrow> (nn_chunkref \<times> heap) c_result" where
  "nn_chunkref_trim H self n =
     (if rtag self = 0xff then
        (case nn_chunk_trim H (rchunk self) n of
           Inl e \<Rightarrow> Inl e
         | Inr (chunk, H) \<Rightarrow> Inr (self\<lparr>rchunk := chunk\<rparr>, H))
      else if \<not> n \<le> ucast (rtag self) then Inl Assertion
      else Inr (self\<lparr>rdata := write_bytes (rdata self) 0
                     (take (unat (rtag self) - unat n) (drop (unat n) (rdata self))),
                     rtag := rtag self - ucast n\<rparr>, H))"

definition nn_chunkref_bulkcopy_start :: "heap \<Rightarrow> nn_chunkref \<Rightarrow> u32 \<Rightarrow> heap c_result" where
  "nn_chunkref_bulkcopy_start H self copies =
     (if rtag self = 0xff then nn_chunk_addref H (rchunk self) copies else Inr H)"

definition nn_chunkref_bulkcopy_cp :: "nn_chunkref \<Rightarrow> nn_chunkref" where
  "nn_chunkref_bulkcopy_cp src = src"

section \<open>Messages\<close>

record nn_msg =
  sphdr :: nn_chunkref
  hdrs :: nn_chunkref
  body :: nn_chunkref

definition nn_msg_init :: "malloc \<Rightarrow> heap \<Rightarrow> nn_msg \<Rightarrow> u64 \<Rightarrow> (nn_msg \<times> heap) c_result" where
  "nn_msg_init mal H self n =
     (case nn_chunkref_init mal H (sphdr self) 0 of Inl e \<Rightarrow> Inl e | Inr (r1, H) \<Rightarrow>
      case nn_chunkref_init mal H (hdrs self) 0 of Inl e \<Rightarrow> Inl e | Inr (r2, H) \<Rightarrow>
      case nn_chunkref_init mal H (body self) n of Inl e \<Rightarrow> Inl e | Inr (r3, H) \<Rightarrow>
        Inr (\<lparr>sphdr = r1, hdrs = r2, body = r3\<rparr>, H))"

definition nn_msg_init_chunk :: "malloc \<Rightarrow> heap \<Rightarrow> nn_msg \<Rightarrow> chunk_ptr \<Rightarrow> (nn_msg \<times> heap) c_result" where
  "nn_msg_init_chunk mal H self chunk =
     (case nn_chunkref_init mal H (sphdr self) 0 of Inl e \<Rightarrow> Inl e | Inr (r1, H) \<Rightarrow>
      case nn_chunkref_init mal H (hdrs self) 0 of Inl e \<Rightarrow> Inl e | Inr (r2, H) \<Rightarrow>
        Inr (\<lparr>sphdr = r1, hdrs = r2, body = nn_chunkref_init_chunk (body self) chunk\<rparr>, H))"

definition nn_msg_term :: "heap \<Rightarrow> nn_msg \<Rightarrow> heap c_result" where
  "nn_msg_term H self =
     (case nn_chunkref_term H (sphdr self) of Inl e \<Rightarrow> Inl e | Inr H \<Rightarrow>
      case nn_chunkref_term H (hdrs self) of Inl e \<Rightarrow> Inl e | Inr H \<Rightarrow>
        nn_chunkref_term H (body self))"

definition nn_msg_mv :: "nn_msg \<Rightarrow> nn_msg \<Rightarrow> nn_msg" where
  "nn_msg_mv dst src =
     \<lparr>sphdr = nn_chunkref_mv (sphdr dst) (sphdr src),
      hdrs = nn_chunkref_mv (hdrs dst) (hdrs src),
      body = nn_chunkref_mv (body dst) (body src)\<rparr>"

definition nn_msg_cp :: "heap \<Rightarrow> nn_msg \<Rightarrow> (nn_msg \<times> heap) c_result" where
  "nn_msg_cp H src =
     (case nn_chunkref_cp H (sphdr src) of Inl e \<Rightarrow> Inl e | Inr (r1, H) \<Rightarrow>
      case nn_chunkref_cp H (hdrs src) of Inl e \<Rightarrow> Inl e | Inr (r2, H) \<Rightarrow>
      case nn_chunkref_cp H (body src) of Inl e \<Rightarrow> Inl e | Inr (r3, H) \<Rightarrow>
        Inr (\<lparr>sphdr = r1, hdrs = r2, body = r3\<rparr>, H))"

definition nn_msg_bulkcopy_start :: "heap \<Rightarrow> nn_msg \<Rightarrow> u32 \<Rightarrow> heap c_result" where
  "nn_msg_bulkcopy_start H self copies =
     (case nn_chunkref_bulkcopy_start H (sphdr self) copies of Inl e \<Rightarrow> Inl e | Inr H \<Rightarrow>
      case nn_chunkref_bulkcopy_start H (hdrs self) copies of Inl e \<Rightarrow> Inl e | Inr H \<Rightarrow>
        nn_chunkref_bulkcopy_start H (body self) copies)"

definition nn_msg_bulkcopy_cp :: "nn_msg \<Rightarrow> nn_msg" where
  "nn_msg_bulkcopy_cp src =
     \<lparr>sphdr = nn_chunkref_bulkcopy_cp (sphdr src), hdrs = nn_chunkref_bulkcopy_cp (hdrs src),
      body = nn_chunkref_bulkcopy_cp (body src)\<rparr>"

definition nn_msg_replace_body :: "heap \<Rightarrow> nn_msg \<Rightarrow> nn_chunkref \<Rightarrow> (nn_msg \<times> heap) c_result" where
  "nn_msg_replace_body H self new_body =
     (case nn_chunkref_term H (body self) of Inl e \<Rightarrow> Inl e | Inr H \<Rightarrow> Inr (self\<lparr>body := new_body\<rparr>, H))"

section \<open>Contents and reference counts\<close>

text \<open>\<open>cref H r data\<close>: the reference \<open>r\<close> is valid and \<open>data\<close> is what it stands for.\<close>

definition cref :: "heap \<Rightarrow> nn_chunkref \<Rightarrow> u8 list \<Rightarrow> bool" where
  "cref H r data \<longleftrightarrow>
     (if rtag r = 0xff then \<exists>k. chunk_ref H (rchunk r) k data
      else unat (rtag r) < NN_CHUNKREF_MAX \<and> length (rdata r) = NN_CHUNKREF_MAX - 1
        \<and> data = take (unat (rtag r)) (rdata r))"

text \<open>The change of a reference count, and the count that stands behind a reference.\<close>

definition bump :: "u32 \<Rightarrow> nat \<Rightarrow> heap \<Rightarrow> heap" where
  "bump n b H = H(b := map_option (\<lambda>c. c\<lparr>refcount := refcount c + n\<rparr>) (H b))"

definition rbump :: "u32 \<Rightarrow> nn_chunkref \<Rightarrow> heap \<Rightarrow> heap" where
  "rbump n r H = (if rtag r = 0xff then bump n (fst (rchunk r)) H else H)"

lemma bump_commute: "bump n a (bump m b H) = bump m b (bump n a H)"
  by (rule ext) (auto simp: bump_def option.map_comp comp_def add.commute add.left_commute)

lemma bump_add: "bump n a (bump m a H) = bump (m + n) a H"
  by (rule ext) (auto simp: bump_def option.map_comp comp_def add.assoc)

lemma bump_zero: "bump 0 a H = H"
  by (rule ext) (cases "H a", auto simp: bump_def)

lemma chunk_ref_bump:
  "chunk_ref H p k data \<Longrightarrow> chunk_ref (bump n b H) p (if fst p = b then k + n else k) data"
  by (cases p) (auto simp: chunk_ref_iff bump_def)

lemma nn_chunk_addref_bump: "chunk_ref H p k data \<Longrightarrow> nn_chunk_addref H p n = Inr (bump n (fst p) H)"
  by (elim chunk_ref_getptr) (simp add: nn_chunk_addref_def bump_def)

lemma nn_chunk_free_bump: "chunk_ref H p k data \<Longrightarrow> \<not> k \<le> 1 \<Longrightarrow> nn_chunk_free H p = Inr (bump (- 1) (fst p) H)"
  by (elim chunk_ref_getptr) (simp add: nn_chunk_free_def bump_def)

lemma cref_bump: "cref H r data \<Longrightarrow> cref (bump n b H) r data"
  unfolding cref_def by (simp split: if_splits) (blast intro: chunk_ref_bump)

lemma cref_rbump: "cref H r data \<Longrightarrow> cref (rbump n r' H) r data"
  by (simp add: rbump_def cref_bump)

lemma rbump_add: "rbump n r (rbump m r H) = rbump (m + n) r H"
  by (simp add: rbump_def bump_add)

lemma rbump_commute: "rbump n r (rbump m s H) = rbump m s (rbump n r H)"
  by (simp add: rbump_def bump_commute)

lemma rbump_zero: "rbump 0 r H = H"
  by (simp add: rbump_def bump_zero)

text \<open>A valid reference whose count (if it has a chunk) satisfies \<open>P\<close>.\<close>

definition counted :: "(u32 \<Rightarrow> bool) \<Rightarrow> heap \<Rightarrow> nn_chunkref \<Rightarrow> bool" where
  "counted P H r \<longleftrightarrow> (rtag r = 0xff \<longrightarrow> (\<exists>k data. chunk_ref H (rchunk r) k data \<and> P k))"

definition apart :: "nn_chunkref \<Rightarrow> nn_chunkref \<Rightarrow> bool" where
  "apart r s \<longleftrightarrow> (rtag r = 0xff \<and> rtag s = 0xff \<longrightarrow> fst (rchunk r) \<noteq> fst (rchunk s))"

lemma counted_rbump_same:
  assumes "counted P H r"
  shows "counted (\<lambda>k. P (k - n)) (rbump n r H) r"
proof (cases "rtag r = 0xff")
  case True
  then obtain k data where ref: "chunk_ref H (rchunk r) k data" and P: "P k"
    using assms unfolding counted_def by blast
  have "chunk_ref (rbump n r H) (rchunk r) (k + n) data"
    using chunk_ref_bump [OF ref, of n "fst (rchunk r)"] True by (simp add: rbump_def)
  moreover have "P (k + n - n)" using P by simp
  ultimately show ?thesis unfolding counted_def by blast
qed (simp add: counted_def)

lemma counted_rbump_apart: "apart r s \<Longrightarrow> counted P (rbump n s H) r \<longleftrightarrow> counted P H r"
  unfolding counted_def
  using chunk_ref_frame [of "rbump n s H" "rchunk r" H] by (auto simp: rbump_def bump_def apart_def)

lemma nn_chunkref_start_bump: "counted P H r \<Longrightarrow> nn_chunkref_bulkcopy_start H r n = Inr (rbump n r H)"
  by (auto simp: counted_def rbump_def nn_chunkref_bulkcopy_start_def nn_chunk_addref_bump)

lemma nn_chunkref_cp_bump: "counted P H r \<Longrightarrow> nn_chunkref_cp H r = Inr (r, rbump 1 r H)"
  by (auto simp: counted_def rbump_def nn_chunkref_cp_def nn_chunk_addref_bump)

lemma nn_chunkref_term_bump:
  "counted (\<lambda>k. \<not> k \<le> 1) H r \<Longrightarrow> nn_chunkref_term H r = Inr (rbump (- 1) r H)"
  by (auto simp: counted_def rbump_def nn_chunkref_term_def nn_chunk_free_bump)

text \<open>The same for the three references of a message, which have chunks of their own.\<close>

definition mbump :: "u32 \<Rightarrow> nn_msg \<Rightarrow> heap \<Rightarrow> heap" where
  "mbump n m H = rbump n (body m) (rbump n (hdrs m) (rbump n (sphdr m) H))"

definition msg_counted :: "(u32 \<Rightarrow> bool) \<Rightarrow> heap \<Rightarrow> nn_msg \<Rightarrow> bool" where
  "msg_counted P H m \<longleftrightarrow> counted P H (sphdr m) \<and> counted P H (hdrs m) \<and> counted P H (body m)
     \<and> apart (sphdr m) (hdrs m) \<and> apart (sphdr m) (body m) \<and> apart (hdrs m) (body m)"

lemma msg_counted_mono: "msg_counted P H m \<Longrightarrow> \<forall>k. P k \<longrightarrow> Q k \<Longrightarrow> msg_counted Q H m"
  unfolding msg_counted_def counted_def by blast

lemma apart_sym: "apart r s \<Longrightarrow> apart s r"
  by (auto simp: apart_def)

lemma mbump_add: "mbump n m (mbump k m H) = mbump (k + n) m H"
  unfolding mbump_def by (metis rbump_add rbump_commute)

lemma mbump_zero: "mbump 0 m H = H"
  by (simp add: mbump_def rbump_zero)

lemma msg_counted_mbump: "msg_counted P H m \<Longrightarrow> msg_counted (\<lambda>k. P (k - n)) (mbump n m H) m"
  unfolding msg_counted_def mbump_def
  by (auto simp: counted_rbump_apart apart_sym intro: counted_rbump_same)

lemma nn_msg_term_bump:
  assumes "msg_counted (\<lambda>k. \<not> k \<le> 1) H m"
  shows "nn_msg_term H m = Inr (mbump (- 1) m H)"
  using assms unfolding msg_counted_def
  by (simp add: nn_msg_term_def mbump_def nn_chunkref_term_bump counted_rbump_apart apart_sym)

lemma nn_msg_start_bump:
  assumes "msg_counted P H m"
  shows "nn_msg_bulkcopy_start H m n = Inr (mbump n m H)"
  using assms unfolding msg_counted_def
  by (simp add: nn_msg_bulkcopy_start_def mbump_def nn_chunkref_start_bump [of P] counted_rbump_apart apart_sym)

lemma nn_msg_cp_bump:
  assumes "msg_counted P H m"
  shows "nn_msg_cp H m = Inr (m, mbump 1 m H)"
  using assms unfolding msg_counted_def
  by (simp add: nn_msg_cp_def mbump_def nn_chunkref_cp_bump [of P] counted_rbump_apart apart_sym)

text \<open>The copies of a message are terminated one after another.\<close>

fun term_times :: "nat \<Rightarrow> heap \<Rightarrow> nn_msg \<Rightarrow> heap c_result" where
  "term_times 0 H m = Inr H"
| "term_times (Suc n) H m = (case nn_msg_term H m of Inl e \<Rightarrow> Inl e | Inr H \<Rightarrow> term_times n H m)"

lemma term_times_bump:
  assumes "msg_counted (\<lambda>k. k \<noteq> 0 \<and> unat k + n < 2 ^ 32) H m"
  shows "term_times n (mbump (of_nat n) m H) m = Inr H"
  using assms
proof (induction n)
  case 0
  then show ?case by (simp add: mbump_zero)
next
  case (Suc n)
  have "msg_counted (\<lambda>k. \<not> k \<le> 1) (mbump (of_nat (Suc n)) m H) m"
  proof -
    have big: "\<not> k \<le> 1" if "k - of_nat (Suc n) \<noteq> 0" "unat (k - of_nat (Suc n)) + Suc n < 2 ^ 32" for k :: u32
    proof -
      define j where "j = k - of_nat (Suc n)"
      have "unat (of_nat (Suc n) :: u32) = Suc n" using that(2) by (subst unat_of_nat) simp
      then have "unat (j + of_nat (Suc n)) = unat j + Suc n"
        using that(2) unfolding j_def [symmetric] by (subst unat_plus_if') simp
      moreover have "k = j + of_nat (Suc n)" by (simp add: j_def)
      moreover have "unat j \<noteq> 0" using that(1) by (simp add: j_def unat_eq_zero)
      ultimately show ?thesis by (simp add: word_le_nat_alt)
    qed
    show ?thesis
      by (rule msg_counted_mono [OF msg_counted_mbump [OF Suc.prems, of "of_nat (Suc n)"]]) (use big in blast)
  qed
  then have "nn_msg_term (mbump (of_nat (Suc n)) m H) m = Inr (mbump (of_nat n) m H)"
    by (simp add: nn_msg_term_bump mbump_add)
  moreover have "msg_counted (\<lambda>k. k \<noteq> 0 \<and> unat k + n < 2 ^ 32) H m"
    by (rule msg_counted_mono [OF Suc.prems]) simp
  ultimately show ?case using Suc.IH by simp
qed

section \<open>Chunk references\<close>

lemma unat_tag [simp]: "unat (ucast t :: u64) = unat t" for t :: u8
proof -
  have "unat t < 2 ^ LENGTH(8)" by (rule unsigned_less)
  then have "unat t < 2 ^ 64" by simp
  then show ?thesis by (simp add: unsigned_ucast_eq take_bit_nat_eq_self)
qed

lemma small_tag:
  fixes t :: u8 and n :: u64
  assumes "unat t < 32" and "unat n \<le> unat t"
  shows "unat (t - ucast n) = unat t - unat n"
proof -
  have "unat (ucast n :: u8) = unat n" using assms by (simp add: unsigned_ucast_eq take_bit_nat_eq_self)
  then show ?thesis using assms by (simp add: unat_sub word_le_nat_alt)
qed

lemma nn_chunkref_trim_inline:
  assumes "cref H r data" and "rtag r \<noteq> 0xff" and "unat n \<le> length data"
  shows "\<exists>r'. nn_chunkref_trim H r n = Inr (r', H) \<and> cref H r' (drop (unat n) data)"
proof -
  let ?t = "unat (rtag r)"
  have r: "?t < 32" "length (rdata r) = 31" "data = take ?t (rdata r)"
    using assms(1,2) by (auto simp: cref_def NN_CHUNKREF_MAX_def)
  have n: "unat n \<le> ?t" using assms(3) r by simp
  then have le: "n \<le> ucast (rtag r)" by (simp add: word_le_nat_alt)
  let ?r = "r\<lparr>rdata := write_bytes (rdata r) 0 (take (?t - unat n) (drop (unat n) (rdata r))), rtag := rtag r - ucast n\<rparr>"
  have t: "unat (rtag r - ucast n) = ?t - unat n" using small_tag r(1) n .
  have "rtag r - ucast n \<noteq> 0xff"
  proof
    assume "rtag r - ucast n = 0xff"
    then have "unat (rtag r - ucast n) = 255" by simp
    with t r(1) show False by simp
  qed
  moreover have "take (?t - unat n) (rdata ?r) = drop (unat n) data"
    using r n by (simp add: write_bytes_def drop_take)
  moreover have "length (rdata ?r) = 31" using r n by (simp add: write_bytes_def)
  ultimately have "cref H ?r (drop (unat n) data)" using t r(1) by (simp add: cref_def NN_CHUNKREF_MAX_def)
  moreover have "nn_chunkref_trim H r n = Inr (?r, H)" using assms(2) le by (simp add: nn_chunkref_trim_def)
  ultimately show ?thesis by blast
qed

lemma nn_chunkref_trim_chunk:
  assumes "cref H r data" and "rtag r = 0xff" and "unat n \<le> length data" and "snd (rchunk r) + length data < 2 ^ 32"
  shows "\<exists>r' H'. nn_chunkref_trim H r n = Inr (r', H') \<and> cref H' r' (drop (unat n) data)"
proof -
  obtain k where ref: "chunk_ref H (rchunk r) k data" using assms(1,2) by (auto simp: cref_def)
  have "32 \<le> snd (rchunk r)" using ref by (cases "rchunk r") (auto simp: chunk_ref_iff)
  then have "snd (rchunk r) + unat n - 32 < 2 ^ 32 - 1" using assms(3,4) by simp
  from nn_chunk_trim_ref [OF ref assms(3) this] obtain H' where
    "nn_chunk_trim H (rchunk r) n = Inr ((fst (rchunk r), snd (rchunk r) + unat n), H')"
    "chunk_ref H' (fst (rchunk r), snd (rchunk r) + unat n) k (drop (unat n) data)" by blast
  with assms(2) show ?thesis by (auto simp: nn_chunkref_trim_def cref_def)
qed

lemma nn_chunkref_getchunk_ref:
  assumes mal: "malloc_fresh mal" and r: "cref H r data"
    and m: "rtag r \<noteq> 0xff \<Longrightarrow> mal H (32 + ucast (rtag r)) \<noteq> None"
  shows "\<exists>p r' H' k. nn_chunkref_getchunk mal H r = Inr (p, r', H') \<and> chunk_ref H' p k data \<and> rtag r' = 0"
proof (cases "rtag r = 0xff")
  case True
  with r show ?thesis by (auto simp: nn_chunkref_getchunk_def cref_def)
next
  case False
  then obtain b bs where mb: "mal H (32 + ucast (rtag r)) = Some (b, bs)" using m by auto
  have d: "data = take (unat (rtag r)) (rdata r)" "length data = unat (rtag r)" "unat (rtag r) < 32"
    using False r by (auto simp: cref_def NN_CHUNKREF_MAX_def)
  obtain H1 fill where al: "nn_chunk_alloc mal H (ucast (rtag r)) 0 = (0, Some (b, 32), H1)"
      "chunk_ref H1 (b, 32) 1 fill" "length fill = unat (rtag r)"
    using nn_chunk_alloc_ref [OF mal _ mb] d(3) by auto
  from chunk_ref_write [OF al(2), of data] al d False show ?thesis
    by (auto simp: nn_chunkref_getchunk_def chunk_sizes)
qed

section \<open>Properties\<close>

text \<open>
  A chunk reference keeps its bytes through every operation, whether it holds them itself
  or points to a chunk: the size is their number, trimming drops the first ones (and stops at the
  assertion when there are too few), a moved or copied reference has the same bytes, and the chunk
  that \<open>nn_chunkref_getchunk\<close> hands out holds them and leaves the reference empty.
\<close>
theorem nn_chunkref_refines:
  assumes "cref H r data" and "rtag r = 0xff \<Longrightarrow> snd (rchunk r) + length data < 2 ^ 32"
    and "length (rdata dst) = NN_CHUNKREF_MAX - 1" and "malloc_fresh mal"
    and "rtag r \<noteq> 0xff \<Longrightarrow> mal H (32 + ucast (rtag r)) \<noteq> None"
  shows "(\<exists>k. nn_chunkref_size H r = Inr k \<and> unat k = length data)
       \<and> (if length data < unat n then nn_chunkref_trim H r n = Inl Assertion
          else \<exists>r' H'. nn_chunkref_trim H r n = Inr (r', H') \<and> cref H' r' (drop (unat n) data))
       \<and> cref H (nn_chunkref_mv dst r) data
       \<and> (\<exists>r' H'. nn_chunkref_cp H r = Inr (r', H') \<and> cref H' r' data \<and> cref H' r data)
       \<and> (\<exists>p r' H' k. nn_chunkref_getchunk mal H r = Inr (p, r', H') \<and> chunk_ref H' p k data \<and> rtag r' = 0)"
proof (intro conjI)
  have inl: "length data = unat (rtag r)" "unat (rtag r) < 32" "length (rdata r) = 31"
    "data = take (unat (rtag r)) (rdata r)" if "rtag r \<noteq> 0xff"
    using assms(1) that by (auto simp: cref_def NN_CHUNKREF_MAX_def)
  show "\<exists>k. nn_chunkref_size H r = Inr k \<and> unat k = length data"
    using assms(1) nn_chunk_size_ref [of H "rchunk r" _ data] inl(1) by (auto simp: nn_chunkref_size_def cref_def)
  have short: "nn_chunkref_trim H r n = Inl Assertion" if "length data < unat n"
  proof (cases "rtag r = 0xff")
    case True
    then obtain k where "chunk_ref H (rchunk r) k data" using assms(1) by (auto simp: cref_def)
    with that True show ?thesis
      by (elim chunk_ref_getptr) (simp add: nn_chunkref_trim_def nn_chunk_trim_def word_le_nat_alt)
  next
    case False
    with that inl(1) show ?thesis by (simp add: nn_chunkref_trim_def word_le_nat_alt)
  qed
  show "if length data < unat n then nn_chunkref_trim H r n = Inl Assertion
          else \<exists>r' H'. nn_chunkref_trim H r n = Inr (r', H') \<and> cref H' r' (drop (unat n) data)"
    using short nn_chunkref_trim_inline [OF assms(1), of n] nn_chunkref_trim_chunk [OF assms(1), of n] assms(2)
    by (cases "rtag r = 0xff"; cases "length data < unat n") auto
  show "cref H (nn_chunkref_mv dst r) data"
    using assms(1,3) inl by (auto simp: nn_chunkref_mv_def cref_def NN_CHUNKREF_MAX_def)
  have "counted (\<lambda>_. True) H r"
    using assms(1) unfolding counted_def cref_def by (simp split: if_splits) blast
  then show "\<exists>r' H'. nn_chunkref_cp H r = Inr (r', H') \<and> cref H' r' data \<and> cref H' r data"
    using nn_chunkref_cp_bump cref_rbump [OF assms(1)] by blast
  show "\<exists>p r' H' k. nn_chunkref_getchunk mal H r = Inr (p, r', H') \<and> chunk_ref H' p k data \<and> rtag r' = 0"
    using nn_chunkref_getchunk_ref [OF assms(4,1,5)] by blast
qed

text \<open>Three bytes held in the reference itself, the first one trimmed off.\<close>
theorem nn_chunkref_refines_witness:
  "\<exists>r' H'. nn_chunkref_trim Map.empty \<lparr>rtag = 3, rdata = replicate 31 5, rchunk = (0, 0)\<rparr> 1 = Inr (r', H')
     \<and> cref H' r' [5, 5]"
proof -
  let ?r = "\<lparr>rtag = 3, rdata = replicate 31 5, rchunk = (0, 0)\<rparr>"
  let ?mal = "\<lambda>H n. if H 8 = None then Some (8, replicate (unat n - 24) 0) else None"
  have "cref Map.empty ?r (replicate 3 5)" by (simp add: cref_def NN_CHUNKREF_MAX_def take_replicate)
  moreover have "malloc_fresh ?mal" by (auto simp: malloc_fresh_def chunk_sizes split: if_splits)
  ultimately have "\<exists>r' H'. nn_chunkref_trim Map.empty ?r 1 = Inr (r', H') \<and> cref H' r' (drop 1 (replicate 3 5))"
    using nn_chunkref_refines [of Map.empty ?r "replicate 3 5" ?r ?mal 1] by (simp add: NN_CHUNKREF_MAX_def)
  then show ?thesis by (simp add: numeral_3_eq_3)
qed

text \<open>
  Property C22. The reference counts of a message balance. \<open>nn_msg_bulkcopy_start\<close> for \<open>n\<close> copies and
  \<open>nn_msg_term\<close> on each of the \<open>n\<close> copies give back the very heap they started from, with no chunk
  leaked and none freed under the original; the same for \<open>nn_msg_cp\<close> and one \<open>nn_msg_term\<close>; and
  copies have the bytes of the original in all three parts.
\<close>
theorem nn_msg_copies_balance:
  assumes "msg_counted (\<lambda>k. k \<noteq> 0 \<and> unat k + max n 1 < 2 ^ 32) H m"
  shows "(\<exists>H'. nn_msg_bulkcopy_start H m (of_nat n) = Inr H' \<and> term_times n H' (nn_msg_bulkcopy_cp m) = Inr H)
       \<and> (\<exists>m' H'. nn_msg_cp H m = Inr (m', H') \<and> nn_msg_term H' m' = Inr H
            \<and> (\<forall>data. (cref H (sphdr m) data \<longrightarrow> cref H' (sphdr m') data) \<and> (cref H (hdrs m) data \<longrightarrow> cref H' (hdrs m') data)
                 \<and> (cref H (body m) data \<longrightarrow> cref H' (body m') data)))"
proof (intro conjI)
  have m: "nn_msg_bulkcopy_cp m = m" by (cases m) (simp add: nn_msg_bulkcopy_cp_def nn_chunkref_bulkcopy_cp_def)
  have "msg_counted (\<lambda>k. k \<noteq> 0 \<and> unat k + n < 2 ^ 32) H m"
    by (rule msg_counted_mono [OF assms]) linarith
  then show "\<exists>H'. nn_msg_bulkcopy_start H m (of_nat n) = Inr H' \<and> term_times n H' (nn_msg_bulkcopy_cp m) = Inr H"
    using nn_msg_start_bump [OF assms, of "of_nat n"] term_times_bump m by simp
  have "msg_counted (\<lambda>k. k \<noteq> 0 \<and> unat k + 1 < 2 ^ 32) H m"
    by (rule msg_counted_mono [OF assms]) linarith
  from term_times_bump [OF this] have "nn_msg_term (mbump 1 m H) m = Inr H"
    by (simp split: sum.splits)
  then show "\<exists>m' H'. nn_msg_cp H m = Inr (m', H') \<and> nn_msg_term H' m' = Inr H
      \<and> (\<forall>data. (cref H (sphdr m) data \<longrightarrow> cref H' (sphdr m') data) \<and> (cref H (hdrs m) data \<longrightarrow> cref H' (hdrs m') data)
           \<and> (cref H (body m) data \<longrightarrow> cref H' (body m') data))"
    using nn_msg_cp_bump [OF assms] by (intro exI [of _ m] exI [of _ "mbump 1 m H"]) (simp add: mbump_def cref_rbump)
qed

text \<open>A message whose body is the chunk with two references, copied three times.\<close>
theorem nn_msg_copies_balance_witness:
  "\<exists>m H'. body m = \<lparr>rtag = 0xff, rdata = replicate 31 0, rchunk = (7, 32)\<rparr>
     \<and> nn_msg_bulkcopy_start one_chunk m 3 = Inr H' \<and> term_times 3 H' (nn_msg_bulkcopy_cp m) = Inr one_chunk"
proof -
  let ?e = "\<lparr>rtag = 0, rdata = replicate 31 0, rchunk = (0, 0)\<rparr>"
  let ?m = "\<lparr>sphdr = ?e, hdrs = ?e, body = \<lparr>rtag = 0xff, rdata = replicate 31 0, rchunk = (7, 32)\<rparr>\<rparr>"
  have "msg_counted (\<lambda>k. k \<noteq> 0 \<and> unat k + max 3 1 < 2 ^ 32) one_chunk ?m"
    using one_chunk_ref by (auto simp: msg_counted_def counted_def apart_def)
  from nn_msg_copies_balance [OF this] show ?thesis by (auto intro!: exI [of _ ?m])
qed

end
