(* ===== verification/Nn_Dist.thy ===== *)
theory Nn_Dist
  imports Nn_Msg Nn_Pipe
begin

text \<open>
  The distributor of \<open>nanomsg/src/protocols/utils/dist.c\<close>, which hands a copy of a message to every
  pipe that is ready. The list of pipes is a HOL list of the addresses of the \<open>nn_dist_data\<close>. The
  references to the message's chunks are counted in the heap; a transport that takes a copy holds
  its reference.
\<close>

section \<open>The distributor\<close>

record nn_dist =
  dcount :: u32
  dpipes :: "addr list"

text \<open>\<open>mem\<close> gives the pipe of each \<open>nn_dist_data\<close>.\<close>

type_synonym dist_mem = "addr \<Rightarrow> addr"

definition nn_dist_init :: nn_dist where
  "nn_dist_init = \<lparr>dcount = 0, dpipes = []\<rparr>"

definition nn_dist_term :: "nn_dist \<Rightarrow> unit c_result" where
  "nn_dist_term self = (if dcount self = 0 \<and> dpipes self = [] then Inr () else Inl Assertion)"

definition nn_dist_add :: "dist_mem \<Rightarrow> addr \<Rightarrow> addr \<Rightarrow> dist_mem" where
  "nn_dist_add mem data pipe = mem(data := pipe)"

definition nn_dist_rm :: "nn_dist \<Rightarrow> addr \<Rightarrow> nn_dist" where
  "nn_dist_rm self data =
     (if data \<in> set (dpipes self) then \<lparr>dcount = dcount self - 1, dpipes = remove1 data (dpipes self)\<rparr> else self)"

definition nn_dist_out :: "nn_dist \<Rightarrow> addr \<Rightarrow> nn_dist c_result" where
  "nn_dist_out self data =
     (if data \<in> set (dpipes self) then Inl Assertion
      else Inr \<lparr>dcount = dcount self + 1, dpipes = dpipes self @ [data]\<rparr>)"

text \<open>
  The loop over the pipes. It gives the items that stay in the list, the pipes a copy went to, the
  states of the pipes, the heap and the count.
\<close>

fun dist_loop ::
  "(addr \<Rightarrow> int \<times> bool) \<Rightarrow> dist_mem \<Rightarrow> addr option \<Rightarrow> nn_msg \<Rightarrow> addr list \<Rightarrow> pipes \<Rightarrow> heap \<Rightarrow> u32
   \<Rightarrow> (addr list \<times> addr list \<times> pipes \<times> heap \<times> u32) c_result" where
  "dist_loop tsend mem exclude msg [] ps H c = Inr ([], [], ps, H, c)"
| "dist_loop tsend mem exclude msg (d # ds) ps H c =
     (let copy = nn_msg_bulkcopy_cp msg in
      if Some (mem d) = exclude then
        (case nn_msg_term H copy of
           Inl e \<Rightarrow> Inl e
         | Inr H \<Rightarrow>
             (case dist_loop tsend mem exclude msg ds ps H c of
                Inl e \<Rightarrow> Inl e
              | Inr (stay, sent, r) \<Rightarrow> Inr (d # stay, sent, r)))
      else
        (case nn_pipe_send (tsend (mem d)) (ps (mem d)) of
           Inl e \<Rightarrow> Inl e
         | Inr (rc, pb) \<Rightarrow>
             if rc < 0 then Inl Assertion
             else if rc AND NN_PIPE_RELEASE \<noteq> 0 then
               (case dist_loop tsend mem exclude msg ds (ps(mem d := pb)) H (c - 1) of
                  Inl e \<Rightarrow> Inl e
                | Inr (stay, sent, r) \<Rightarrow> Inr (stay, mem d # sent, r))
             else
               (case dist_loop tsend mem exclude msg ds (ps(mem d := pb)) H c of
                  Inl e \<Rightarrow> Inl e
                | Inr (stay, sent, r) \<Rightarrow> Inr (d # stay, mem d # sent, r))))"

definition nn_dist_send ::
  "(addr \<Rightarrow> int \<times> bool) \<Rightarrow> dist_mem \<Rightarrow> pipes \<Rightarrow> heap \<Rightarrow> nn_dist \<Rightarrow> nn_msg \<Rightarrow> addr option
   \<Rightarrow> (int \<times> addr list \<times> pipes \<times> heap \<times> nn_dist) c_result" where
  "nn_dist_send tsend mem ps H self msg exclude =
     (if dcount self = 0 then
        (case nn_msg_term H msg of Inl e \<Rightarrow> Inl e | Inr H \<Rightarrow> Inr (0, [], ps, H, self))
      else
        (case nn_msg_bulkcopy_start H msg (dcount self) of
           Inl e \<Rightarrow> Inl e
         | Inr H \<Rightarrow>
             (case dist_loop tsend mem exclude msg (dpipes self) ps H (dcount self) of
                Inl e \<Rightarrow> Inl e
              | Inr (stay, sent, ps, H, c) \<Rightarrow>
                  (case nn_msg_term H msg of
                     Inl e \<Rightarrow> Inl e
                   | Inr H \<Rightarrow> Inr (0, sent, ps, H, \<lparr>dcount = c, dpipes = stay\<rparr>)))))"

section \<open>Correctness\<close>

text \<open>The count is the number of pipes, and the pipes are distinct and ready.\<close>

definition dist_ok :: "dist_mem \<Rightarrow> pipes \<Rightarrow> nn_dist \<Rightarrow> bool" where
  "dist_ok mem ps self \<longleftrightarrow> length (dpipes self) < 2 ^ 32 \<and> dcount self = of_nat (length (dpipes self))
     \<and> distinct (map mem (dpipes self)) \<and> (\<forall>d\<in>set (dpipes self). outstate (ps (mem d)) = Out_Idle)"

lemma bulkcopy_cp_same: "nn_msg_bulkcopy_cp m = m"
  by (simp add: nn_msg_bulkcopy_cp_def nn_chunkref_bulkcopy_cp_def)

lemma pipe_send_cases:
  assumes "outstate pb = Out_Idle" and "fst t = 0 \<or> fst t = NN_PIPE_PARSED"
  shows "\<exists>rc pb'. nn_pipe_send t pb = Inr (rc, pb') \<and> 0 \<le> rc \<and> (rc AND NN_PIPE_RELEASE = 0 \<longleftrightarrow> snd t)
     \<and> (snd t \<longrightarrow> outstate pb' = Out_Idle)"
proof -
  obtain rc now where t: "t = (rc, now)" by fastforce
  then have "rc = 0 \<or> rc = NN_PIPE_PARSED" using assms(2) by simp
  from code_bits [OF this] show ?thesis
    using assms(1) t by (cases now) (auto simp: nn_pipe_send_def nn_pipebase_sent_def)
qed

lemma one_copy_less:
  assumes "msg_counted (\<lambda>k. Suc n < unat k) H m"
  shows "nn_msg_term H m = Inr (mbump (- 1) m H)" and "msg_counted (\<lambda>k. n < unat k) (mbump (- 1) m H) m"
proof -
  show "nn_msg_term H m = Inr (mbump (- 1) m H)"
    by (rule nn_msg_term_bump, rule msg_counted_mono [OF assms]) (simp add: word_le_nat_alt)
  have "n < unat k" if "Suc n < unat (k - - 1)" for k :: u32
  proof -
    have k: "k - - 1 = 1 + k" by simp
    then have "1 + k \<noteq> 0" using that by (metis not_less_zero unat_0)
    from unatSuc [OF this] show ?thesis using that unfolding k by linarith
  qed
  then show "msg_counted (\<lambda>k. n < unat k) (mbump (- 1) m H) m"
    by (intro msg_counted_mono [OF msg_counted_mbump [OF assms, of "- 1"]]) blast
qed


definition stays :: "(addr \<Rightarrow> int \<times> bool) \<Rightarrow> dist_mem \<Rightarrow> addr option \<Rightarrow> addr \<Rightarrow> bool" where
  "stays tsend mem exclude d \<longleftrightarrow> Some (mem d) = exclude \<or> snd (tsend (mem d))"

lemma dist_loop_sends:
  assumes "codes_ok tsend" and "distinct (map mem ds)" and "\<forall>d\<in>set ds. outstate (ps (mem d)) = Out_Idle"
    and "msg_counted (\<lambda>k. length ds < unat k) H m"
  shows "\<exists>ps'. dist_loop tsend mem exclude m ds ps H c = Inr (filter (stays tsend mem exclude) ds,
       filter (\<lambda>p. Some p \<noteq> exclude) (map mem ds), ps',
       mbump (of_nat (length (filter (\<lambda>p. Some p \<noteq> exclude) (map mem ds))) - of_nat (length ds)) m H,
       c + of_nat (length (filter (stays tsend mem exclude) ds)) - of_nat (length ds))
     \<and> (\<forall>d\<in>set (filter (stays tsend mem exclude) ds). outstate (ps' (mem d)) = Out_Idle)
     \<and> (\<forall>p. p \<notin> mem ` set ds \<longrightarrow> ps' p = ps p)"
  using assms(2-4)
proof (induction ds arbitrary: ps H c)
  case Nil
  then show ?case by (simp add: mbump_zero)
next
  case (Cons d ds)
  have more: "msg_counted (\<lambda>k. length ds < unat k) H m"
    by (rule msg_counted_mono [OF Cons.prems(3)]) simp
  show ?case
  proof (cases "Some (mem d) = exclude")
    case True
    note one = one_copy_less [OF Cons.prems(3) [unfolded list.size(4) add_Suc_right add_0_right]]
    obtain ps' where ps': "dist_loop tsend mem exclude m ds ps (mbump (- 1) m H) c =
        Inr (filter (stays tsend mem exclude) ds, filter (\<lambda>p. Some p \<noteq> exclude) (map mem ds), ps',
         mbump (of_nat (length (filter (\<lambda>p. Some p \<noteq> exclude) (map mem ds))) - of_nat (length ds)) m (mbump (- 1) m H),
         c + of_nat (length (filter (stays tsend mem exclude) ds)) - of_nat (length ds))"
       "\<forall>d\<in>set (filter (stays tsend mem exclude) ds). outstate (ps' (mem d)) = Out_Idle"
       "\<forall>p. p \<notin> mem ` set ds \<longrightarrow> ps' p = ps p"
      using Cons.IH [of ps "mbump (- 1) m H" c] Cons.prems(1,2) one(2) by auto
    have "stays tsend mem exclude d" using True by (simp add: stays_def)
    moreover have "outstate (ps' (mem d)) = Out_Idle" using ps'(3) Cons.prems(1,2) by simp
    ultimately show ?thesis
      using True ps' one(1) by (simp add: Let_def bulkcopy_cp_same mbump_add algebra_simps)
  next
    case False
    have "fst (tsend (mem d)) = 0 \<or> fst (tsend (mem d)) = NN_PIPE_PARSED"
      using assms(1) by (simp add: codes_ok_def)
    moreover have "outstate (ps (mem d)) = Out_Idle" using Cons.prems(2) by simp
    ultimately obtain rc pb where snd_d: "nn_pipe_send (tsend (mem d)) (ps (mem d)) = Inr (rc, pb)" "0 \<le> rc"
        "rc AND NN_PIPE_RELEASE = 0 \<longleftrightarrow> snd (tsend (mem d))" "snd (tsend (mem d)) \<longrightarrow> outstate pb = Out_Idle"
      using pipe_send_cases by blast
    have st: "stays tsend mem exclude d \<longleftrightarrow> snd (tsend (mem d))" using False by (simp add: stays_def)
    have idle: "\<forall>e\<in>set ds. outstate ((ps(mem d := pb)) (mem e)) = Out_Idle"
    proof
      fix e assume e: "e \<in> set ds"
      then have "mem e \<noteq> mem d" using Cons.prems(1) by (metis distinct.simps(2) image_eqI list.set_map list.simps(9))
      with e Cons.prems(2) show "outstate ((ps(mem d := pb)) (mem e)) = Out_Idle" by simp
    qed
    define c' where "c' = (if snd (tsend (mem d)) then c else c - 1)"
    obtain ps' where ps': "dist_loop tsend mem exclude m ds (ps(mem d := pb)) H c' =
        Inr (filter (stays tsend mem exclude) ds, filter (\<lambda>p. Some p \<noteq> exclude) (map mem ds), ps',
         mbump (of_nat (length (filter (\<lambda>p. Some p \<noteq> exclude) (map mem ds))) - of_nat (length ds)) m H,
         c' + of_nat (length (filter (stays tsend mem exclude) ds)) - of_nat (length ds))"
       "\<forall>d\<in>set (filter (stays tsend mem exclude) ds). outstate (ps' (mem d)) = Out_Idle"
       "\<forall>p. p \<notin> mem ` set ds \<longrightarrow> ps' p = (ps(mem d := pb)) p"
      using Cons.IH [OF _ idle more, of c'] Cons.prems(1) unfolding list.map distinct.simps by blast
    have "ps' (mem d) = pb" using ps'(3) Cons.prems(1) by simp
    then show ?thesis
      using False ps' snd_d st
      by (cases "snd (tsend (mem d))") (simp_all add: Let_def c'_def)
  qed
qed


lemma start_counted:
  assumes "msg_counted (\<lambda>k. k \<noteq> 0 \<and> unat k + n < 2 ^ 32) H m"
  shows "msg_counted (\<lambda>k. n < unat k) (mbump (of_nat n) m H) m"
proof -
  have "n < unat k" if "k - of_nat n \<noteq> 0" "unat (k - of_nat n) + n < 2 ^ 32" for k :: u32
  proof -
    define j where "j = k - of_nat n"
    have "unat (of_nat n :: u32) = n" using that(2) by (subst unat_of_nat) simp
    then have "unat (j + of_nat n) = unat j + n"
      using that(2) unfolding j_def [symmetric] by (subst unat_plus_if') simp
    moreover have "k = j + of_nat n" by (simp add: j_def)
    moreover have "unat j \<noteq> 0" using that(1) by (simp add: j_def unat_eq_zero)
    ultimately show ?thesis by simp
  qed
  then show ?thesis
    by (intro msg_counted_mono [OF msg_counted_mbump [OF assms, of "of_nat n"]]) blast
qed

lemma nn_dist_send_ok:
  assumes ok: "dist_ok mem ps self" and codes: "codes_ok tsend"
    and cnt: "msg_counted (\<lambda>k. k \<noteq> 0 \<and> unat k + length (dpipes self) < 2 ^ 32) H m"
    and ne: "dpipes self \<noteq> []"
  shows "\<exists>ps' self'. nn_dist_send tsend mem ps H self m exclude =
       (case nn_msg_term (mbump (of_nat (length (filter (\<lambda>p. Some p \<noteq> exclude) (map mem (dpipes self))))) m H) m of
          Inl e \<Rightarrow> Inl e
        | Inr H' \<Rightarrow> Inr (0, filter (\<lambda>p. Some p \<noteq> exclude) (map mem (dpipes self)), ps', H', self'))
     \<and> dist_ok mem ps' self' \<and> dpipes self' = filter (stays tsend mem exclude) (dpipes self)"
proof -
  let ?ds = "dpipes self" and ?n = "length (dpipes self)"
  let ?sent = "filter (\<lambda>p. Some p \<noteq> exclude) (map mem ?ds)" and ?stay = "filter (stays tsend mem exclude) ?ds"
  have okd: "?n < 2 ^ 32" "dcount self = of_nat ?n" "distinct (map mem ?ds)"
      "\<forall>d\<in>set ?ds. outstate (ps (mem d)) = Out_Idle"
    using ok by (simp_all add: dist_ok_def)
  have "unat (of_nat ?n :: u32) = ?n" using okd(1) by (subst unat_of_nat) simp
  then have nz: "dcount self \<noteq> 0" using ne okd(2) by auto
  obtain ps' where ps': "dist_loop tsend mem exclude m ?ds ps (mbump (of_nat ?n) m H) (dcount self) =
      Inr (?stay, ?sent, ps', mbump (of_nat (length ?sent) - of_nat ?n) m (mbump (of_nat ?n) m H),
           dcount self + of_nat (length ?stay) - of_nat ?n)"
      "\<forall>d\<in>set ?stay. outstate (ps' (mem d)) = Out_Idle"
    using dist_loop_sends [OF codes okd(3,4) start_counted [OF cnt], of exclude "dcount self"] by blast
  have heap: "mbump (of_nat (length ?sent) - of_nat ?n) m (mbump (of_nat ?n) m H) = mbump (of_nat (length ?sent)) m H"
    by (simp add: mbump_add)
  have c: "dcount self + of_nat (length ?stay) - of_nat ?n = of_nat (length ?stay)" using okd(2) by simp
  let ?self = "\<lparr>dcount = of_nat (length ?stay), dpipes = ?stay\<rparr>"
  have "distinct (map mem ?stay)" using okd(3) by (rule distinct_map_filter)
  moreover have "length ?stay < 2 ^ 32" using okd(1) length_filter_le [of "stays tsend mem exclude" ?ds] by linarith
  ultimately have "dist_ok mem ps' ?self" using ps'(2) by (simp add: dist_ok_def)
  moreover have "nn_dist_send tsend mem ps H self m exclude =
       (case nn_msg_term (mbump (of_nat (length ?sent)) m H) m of
          Inl e \<Rightarrow> Inl e | Inr H' \<Rightarrow> Inr (0, ?sent, ps', H', ?self))"
    using nz ps'(1) unfolding nn_dist_send_def c heap
    by (simp add: nn_msg_start_bump [OF cnt] okd(2))
  ultimately show ?thesis by (intro exI [of _ ps'] exI [of _ ?self]) simp
qed


text \<open>Releasing the message after copies went out gives back its own reference only.\<close>

lemma term_after_copies:
  assumes "msg_counted (\<lambda>k. k \<noteq> 0 \<and> unat k + n < 2 ^ 32) H m" and "0 < n"
  shows "nn_msg_term (mbump (of_nat n) m H) m = Inr (mbump (of_nat (n - 1)) m H)"
proof -
  have "msg_counted (\<lambda>k. Suc (n - 1) < unat k) (mbump (of_nat n) m H) m"
    using start_counted [OF assms(1)] assms(2) by simp
  from one_copy_less(1) [OF this] show ?thesis using assms(2) by (simp add: mbump_add of_nat_diff)
qed

lemma nn_dist_rm_ok:
  assumes "dist_ok mem ps self"
  shows "dist_ok mem ps (nn_dist_rm self d) \<and> dpipes (nn_dist_rm self d) = remove1 d (dpipes self)"
proof (cases "d \<in> set (dpipes self)")
  case True
  then have len: "length (remove1 d (dpipes self)) = length (dpipes self) - 1" "length (dpipes self) \<noteq> 0"
    by (auto simp: length_remove1)
  have "distinct (map mem (remove1 d (dpipes self)))"
    using assms by (auto simp: dist_ok_def distinct_map intro: inj_on_subset)
  then show ?thesis
    using True assms len set_remove1_subset [of d "dpipes self"]
    by (auto simp: nn_dist_rm_def dist_ok_def of_nat_diff Suc_leI)
next
  case False
  then show ?thesis using assms by (simp add: nn_dist_rm_def remove1_idem)
qed

lemma nn_dist_out_ok:
  assumes "dist_ok mem ps self" and "mem d \<notin> mem ` set (dpipes self)" and "outstate (ps (mem d)) = Out_Idle"
    and "length (dpipes self) + 1 < 2 ^ 32"
  shows "\<exists>self'. nn_dist_out self d = Inr self' \<and> dist_ok mem ps self' \<and> dpipes self' = dpipes self @ [d]"
proof -
  have "d \<notin> set (dpipes self)" using assms(2) by blast
  then show ?thesis using assms by (simp add: nn_dist_out_def dist_ok_def)
qed

text \<open>
  Property C13. The distributor gives every ready pipe but the excluded one exactly one copy of the message,
  in the order in which the pipes became ready, and fails no assertion. The references to the
  message's chunks grow by one per copy and shrink by the one the caller gave up; without copies the
  message is released. The pipes that stay in the list are the excluded one and those whose
  transport finished at once, they are ready, and the count is their number. Adding and removing
  pipes keeps the same invariant.
\<close>
theorem dist_send_correct:
  assumes "dist_ok mem ps self" and "codes_ok tsend"
    and "msg_counted (\<lambda>k. k \<noteq> 0 \<and> unat k + length (dpipes self) < 2 ^ 32) H m"
    and "sent = filter (\<lambda>p. Some p \<noteq> exclude) (map mem (dpipes self))"
  shows "(\<exists>ps' self'. nn_dist_send tsend mem ps H self m exclude =
        (if sent = [] then (case nn_msg_term H m of Inl e \<Rightarrow> Inl e | Inr H' \<Rightarrow> Inr (0, [], ps', H', self'))
         else Inr (0, sent, ps', mbump (of_nat (length sent - 1)) m H, self'))
        \<and> dist_ok mem ps' self'
        \<and> dpipes self' = filter (\<lambda>d. Some (mem d) = exclude \<or> snd (tsend (mem d))) (dpipes self))
     \<and> (\<forall>d. dist_ok mem ps (nn_dist_rm self d) \<and> dpipes (nn_dist_rm self d) = remove1 d (dpipes self))
     \<and> (\<forall>d. mem d \<notin> mem ` set (dpipes self) \<and> outstate (ps (mem d)) = Out_Idle \<and> length (dpipes self) + 1 < 2 ^ 32
          \<longrightarrow> (\<exists>self'. nn_dist_out self d = Inr self' \<and> dist_ok mem ps self' \<and> dpipes self' = dpipes self @ [d]))"
proof (intro conjI allI impI)
  show "\<exists>ps' self'. nn_dist_send tsend mem ps H self m exclude =
        (if sent = [] then (case nn_msg_term H m of Inl e \<Rightarrow> Inl e | Inr H' \<Rightarrow> Inr (0, [], ps', H', self'))
         else Inr (0, sent, ps', mbump (of_nat (length sent - 1)) m H, self'))
        \<and> dist_ok mem ps' self'
        \<and> dpipes self' = filter (\<lambda>d. Some (mem d) = exclude \<or> snd (tsend (mem d))) (dpipes self)"
  proof (cases "dpipes self = []")
    case True
    with assms(1,4) show ?thesis by (intro exI [of _ ps] exI [of _ self]) (simp add: nn_dist_send_def dist_ok_def)
  next
    case False
    obtain ps' self' where out: "nn_dist_send tsend mem ps H self m exclude =
        (case nn_msg_term (mbump (of_nat (length sent)) m H) m of
          Inl e \<Rightarrow> Inl e | Inr H' \<Rightarrow> Inr (0, sent, ps', H', self'))"
       "dist_ok mem ps' self'" "dpipes self' = filter (stays tsend mem exclude) (dpipes self)"
      using nn_dist_send_ok [OF assms(1-3) False, of exclude] unfolding assms(4) by blast
    have "length sent \<le> length (dpipes self)" unfolding assms(4) by (metis length_filter_le length_map)
    then have cnt: "msg_counted (\<lambda>k. k \<noteq> 0 \<and> unat k + length sent < 2 ^ 32) H m"
      by (intro msg_counted_mono [OF assms(3)]) auto
    have st: "filter (\<lambda>d. Some (mem d) = exclude \<or> snd (tsend (mem d))) (dpipes self) = filter (stays tsend mem exclude) (dpipes self)"
      by (rule filter_cong) (simp_all add: stays_def)
    show ?thesis
    proof (intro exI conjI)
      show "nn_dist_send tsend mem ps H self m exclude =
        (if sent = [] then (case nn_msg_term H m of Inl e \<Rightarrow> Inl e | Inr H' \<Rightarrow> Inr (0, [], ps', H', self'))
         else Inr (0, sent, ps', mbump (of_nat (length sent - 1)) m H, self'))"
        unfolding out(1) using term_after_copies [OF cnt]
        by (cases "sent = []") (simp_all add: mbump_zero split: sum.split)
    qed (use out(2,3) st in simp_all)
  qed
  show "dist_ok mem ps (nn_dist_rm self d)" "dpipes (nn_dist_rm self d) = remove1 d (dpipes self)" for d
    using nn_dist_rm_ok [OF assms(1)] by blast+
  show "\<exists>self'. nn_dist_out self d = Inr self' \<and> dist_ok mem ps self' \<and> dpipes self' = dpipes self @ [d]"
    if "mem d \<notin> mem ` set (dpipes self) \<and> outstate (ps (mem d)) = Out_Idle \<and> length (dpipes self) + 1 < 2 ^ 32" for d
    using nn_dist_out_ok [OF assms(1)] that by blast
qed


text \<open>Three ready pipes, one of them excluded and one whose transport is busy afterwards.\<close>
theorem dist_send_correct_witness:
  "\<exists>m ps' H' self'. nn_dist_send (\<lambda>p. (0, p \<noteq> 102)) (\<lambda>d. 100 + d)
       (\<lambda>_. \<lparr>pstate = State_Active, instate = In_Idle, outstate = Out_Idle\<rparr>) one_chunk
       \<lparr>dcount = 3, dpipes = [1, 2, 3]\<rparr> m (Some 103) = Inr (0, [101, 102], ps', H', self')
     \<and> dpipes self' = [1, 3]"
proof -
  let ?e = "\<lparr>rtag = 0, rdata = replicate 31 0, rchunk = (0, 0)\<rparr>"
  let ?m = "\<lparr>sphdr = ?e, hdrs = ?e, body = \<lparr>rtag = 0xff, rdata = replicate 31 0, rchunk = (7, 32)\<rparr>\<rparr>"
  let ?d = "\<lparr>dcount = 3, dpipes = [1, 2, 3::addr]\<rparr>"
  let ?mem = "\<lambda>d::addr. 100 + d"
  let ?ps = "\<lambda>_::addr. \<lparr>pstate = State_Active, instate = In_Idle, outstate = Out_Idle\<rparr>"
  have 1: "dist_ok ?mem ?ps ?d" by (simp add: dist_ok_def)
  have 2: "codes_ok (\<lambda>p. (0, p \<noteq> 102))" by (simp add: codes_ok_def)
  have 3: "msg_counted (\<lambda>k. k \<noteq> 0 \<and> unat k + length (dpipes ?d) < 2 ^ 32) one_chunk ?m"
    using one_chunk_ref by (auto simp: msg_counted_def counted_def apart_def)
  have 4: "[101, 102] = filter (\<lambda>p. Some p \<noteq> Some 103) (map ?mem (dpipes ?d))" by simp
  show ?thesis
    using dist_send_correct [OF 1 2 3 4, THEN conjunct1] by (intro exI [of _ ?m]) auto
qed

end
