(* ===== verification/Nn_Trie.thy ===== *)
theory Nn_Trie
  imports Nn_Errno "HOL-Library.Sublist"
begin

text \<open>
  The patricia trie of \<open>nanomsg/src/protocols/pubsub/trie.c\<close>, which holds the subscriptions of a SUB
  socket. A node owns its children, so the trie is a datatype. The bytes and the pointers of a sparse
  node, two parallel arrays, are one list of pairs. A sparse node has no NULL pointers, a dense one
  may have them (\<open>None\<close>). The \<open>goto\<close> steps of \<open>nn_trie_subscribe\<close> are definitions of their own.
\<close>

section \<open>Nodes\<close>

datatype nn_trie_node = Node (refcount: u32) (nprefix: "u8 list") (children: nn_trie_children)
  and nn_trie_children =
    Sparse "(u8 \<times> nn_trie_node) list"
  | Dense u8 u8 u16 "nn_trie_node option list"

text \<open>A trie is its root pointer.\<close>

type_synonym nn_trie = "nn_trie_node option"

definition NN_TRIE_PREFIX_MAX :: nat where "NN_TRIE_PREFIX_MAX = 10"
definition NN_TRIE_SPARSE_MAX :: nat where "NN_TRIE_SPARSE_MAX = 8"
definition NN_TRIE_DENSE_TYPE :: nat where "NN_TRIE_DENSE_TYPE = NN_TRIE_SPARSE_MAX + 1"

lemmas trie_consts = NN_TRIE_PREFIX_MAX_def NN_TRIE_SPARSE_MAX_def NN_TRIE_DENSE_TYPE_def

fun node_type :: "nn_trie_children \<Rightarrow> nat" where
  "node_type (Sparse cs) = length cs"
| "node_type (Dense mn mx nbr arr) = NN_TRIE_DENSE_TYPE"

definition nn_trie_init :: nn_trie where "nn_trie_init = None"

fun nn_node_check_prefix :: "u8 list \<Rightarrow> u8 list \<Rightarrow> nat" where
  "nn_node_check_prefix [] data = 0"
| "nn_node_check_prefix (p # ps) [] = 0"
| "nn_node_check_prefix (p # ps) (d # data) = (if p \<noteq> d then 0 else Suc (nn_node_check_prefix ps data))"

definition nn_node_has_subscribers :: "nn_trie_node \<Rightarrow> bool" where
  "nn_node_has_subscribers node \<longleftrightarrow> refcount node \<noteq> 0"

text \<open>The index of a byte in the array of a sparse node.\<close>

fun sparse_index :: "(u8 \<times> nn_trie_node) list \<Rightarrow> u8 \<Rightarrow> nat option" where
  "sparse_index [] c = None"
| "sparse_index ((b, n) # cs) c = (if b = c then Some 0 else map_option Suc (sparse_index cs c))"

fun nn_node_next :: "nn_trie_children \<Rightarrow> u8 \<Rightarrow> nat option" where
  "nn_node_next (Sparse cs) c = sparse_index cs c"
| "nn_node_next (Dense mn mx nbr arr) c = (if c < mn \<or> c > mx then None else Some (unat (c - mn)))"

fun nn_node_child :: "nn_trie_children \<Rightarrow> nat \<Rightarrow> nn_trie_node option" where
  "nn_node_child (Sparse cs) i = Some (snd (cs ! i))"
| "nn_node_child (Dense mn mx nbr arr) i = arr ! i"

text \<open>Writing through the pointer that \<open>nn_node_child\<close> gives.\<close>

fun put_child :: "nn_trie_children \<Rightarrow> nat \<Rightarrow> nn_trie_node \<Rightarrow> nn_trie_children" where
  "put_child (Sparse cs) i n = Sparse (cs[i := (fst (cs ! i), n)])"
| "put_child (Dense mn mx nbr arr) i n = Dense mn mx nbr (arr[i := Some n])"

definition nn_node_compact :: "nn_trie_node \<Rightarrow> nn_trie_node" where
  "nn_node_compact self =
     (if nn_node_has_subscribers self then self
      else (case children self of
              Sparse [(c, ch)] \<Rightarrow>
                if length (nprefix self) + length (nprefix ch) + 1 > NN_TRIE_PREFIX_MAX then self
                else Node (refcount ch) (nprefix self @ c # nprefix ch) (children ch)
            | _ \<Rightarrow> self))"

section \<open>Subscribing\<close>

text \<open>Step 4 and step 5: the nodes for the rest of a new subscription.\<close>

function new_nodes :: "u8 list \<Rightarrow> nn_trie_node" where
  "new_nodes data =
     (if length data > NN_TRIE_PREFIX_MAX then
        Node 0 (take NN_TRIE_PREFIX_MAX data)
          (Sparse [(data ! NN_TRIE_PREFIX_MAX, new_nodes (drop (NN_TRIE_PREFIX_MAX + 1) data))])
      else Node 1 data (Sparse []))"
  by pat_completeness auto
termination by (relation "measure length") (auto simp: trie_consts)

declare new_nodes.simps [simp del]

text \<open>The range of the children when a sparse node becomes dense, and the array.\<close>

definition children_min :: "(u8 \<times> nn_trie_node) list \<Rightarrow> u8 \<Rightarrow> u8" where
  "children_min cs c =
     (let m = fold (\<lambda>(c2, _) m. if m < c2 then m else c2) cs 255 in if m < c then m else c)"

definition children_max :: "(u8 \<times> nn_trie_node) list \<Rightarrow> u8 \<Rightarrow> u8" where
  "children_max cs c =
     (let m = fold (\<lambda>(c2, _) m. if m > c2 then m else c2) cs 0 in if m > c then m else c)"

definition dense_array :: "(u8 \<times> nn_trie_node) list \<Rightarrow> u8 \<Rightarrow> u8 \<Rightarrow> nn_trie_node option list" where
  "dense_array cs mn mx =
     fold (\<lambda>(c, n) arr. arr[unat (c - mn) := Some n]) cs (replicate (unat (mx - mn) + 1) None)"

text \<open>Step 3: room for the next byte. The first result is a node with a free slot at the index.\<close>

definition widen :: "u8 \<Rightarrow> u8 \<Rightarrow> nn_trie_node option list \<Rightarrow> u8 \<Rightarrow> u8 \<times> u8 \<times> nn_trie_node option list" where
  "widen mn mx arr c =
     (if c < mn \<or> c > mx then
        let new_min = (if mn < c then mn else c); new_max = (if mx > c then mx else c) in
        (new_min, new_max,
         if mn \<noteq> new_min then replicate (unat (mn - new_min)) None @ arr
         else arr @ replicate (unat (new_max - new_min) + 1 - (unat (mx - mn) + 1)) None)
      else (mn, mx, arr))"

fun step3 :: "nn_trie_node \<Rightarrow> u8 list \<Rightarrow> (int \<times> nn_trie_node) c_result" where
  "step3 (Node r p k) [] = Inr (if r + 1 = 1 then 1 else 0, Node (r + 1) p k)"
| "step3 (Node r p k) (c # data) =
     (case k of
        Sparse cs \<Rightarrow>
          if length cs < NN_TRIE_SPARSE_MAX then Inr (1, Node r p (Sparse (cs @ [(c, new_nodes data)])))
          else
            let mn = children_min cs c; mx = children_max cs c; arr = dense_array cs mn mx; i = unat (c - mn) in
            if arr ! i \<noteq> None then Inl Assertion
            else Inr (1, Node 0 p (Dense mn mx (of_nat (length cs) + 1) (arr[i := Some (new_nodes data)])))
      | Dense mn mx nbr arr \<Rightarrow>
          let (mn, mx, arr) = widen mn mx arr c; i = unat (c - mn) in
          if arr ! i \<noteq> None then Inl Assertion
          else Inr (1, Node r p (Dense mn mx (nbr + 1) (arr[i := Some (new_nodes data)]))))"

text \<open>Step 2: the node is split behind the matching part of its prefix.\<close>

definition step2 :: "nn_trie_node \<Rightarrow> nat \<Rightarrow> nn_trie_node" where
  "step2 ch pos =
     Node 0 (take pos (nprefix ch))
       (Sparse [(nprefix ch ! pos, nn_node_compact (Node (refcount ch) (drop (pos + 1) (nprefix ch)) (children ch)))])"

text \<open>Step 1: the traversal.\<close>

lemma drop_Cons_less: "x # xs = drop n ys \<Longrightarrow> length xs < length ys"
  by (metis Suc_le_lessD diff_le_self length_Cons length_drop)

function node_subscribe :: "nn_trie_node \<Rightarrow> u8 list \<Rightarrow> (int \<times> nn_trie_node) c_result" where
  "node_subscribe (Node r p k) data =
     (let pos = nn_node_check_prefix p data; rest = drop pos data in
      if pos < length p then step3 (step2 (Node r p k) pos) rest
      else
        (case rest of
           [] \<Rightarrow> step3 (Node r p k) []
         | c # rest' \<Rightarrow>
             (case nn_node_next k c of
                None \<Rightarrow> step3 (Node r p k) rest
              | Some i \<Rightarrow>
                  (case nn_node_child k i of
                     None \<Rightarrow> step3 (Node r p k) rest
                   | Some n \<Rightarrow>
                       (case node_subscribe n rest' of
                          Inl e \<Rightarrow> Inl e
                        | Inr (rc, n') \<Rightarrow> Inr (rc, Node r p (put_child k i n')))))))"
  by pat_completeness auto
termination by (relation "measure (\<lambda>(n, data). length data)") (auto dest: drop_Cons_less drop_Cons_less [OF sym])

declare node_subscribe.simps [simp del]

definition nn_trie_subscribe :: "nn_trie \<Rightarrow> u8 list \<Rightarrow> (int \<times> nn_trie) c_result" where
  "nn_trie_subscribe self data =
     (case self of
        None \<Rightarrow> Inr (1, Some (new_nodes data))
      | Some root \<Rightarrow>
          (case node_subscribe root data of Inl e \<Rightarrow> Inl e | Inr (rc, root') \<Rightarrow> Inr (rc, Some root')))"

section \<open>Matching\<close>

text \<open>Reading behind the end of the data is a fault.\<close>

function nn_trie_match :: "nn_trie \<Rightarrow> u8 list \<Rightarrow> int c_result" where
  "nn_trie_match self data =
     (case self of
        None \<Rightarrow> Inr 0
      | Some node \<Rightarrow>
          if nn_node_check_prefix (nprefix node) data \<noteq> length (nprefix node) then Inr 0
          else if nn_node_has_subscribers node then Inr 1
          else (case drop (length (nprefix node)) data of
                  [] \<Rightarrow> Inl Out_Of_Bounds
                | c # rest \<Rightarrow>
                    nn_trie_match (case nn_node_next (children node) c of
                                     None \<Rightarrow> None | Some i \<Rightarrow> nn_node_child (children node) i) rest))"
  by pat_completeness auto
termination by (relation "measure (\<lambda>(n, data). length data)") (auto dest: drop_Cons_less drop_Cons_less [OF sym])

declare nn_trie_match.simps [simp del]

section \<open>Unsubscribing\<close>

text \<open>The end of the subscription is reached.\<close>

definition unsub_found :: "nn_trie \<Rightarrow> int \<times> nn_trie" where
  "unsub_found self =
     (case self of
        None \<Rightarrow> (- EINVAL, None)
      | Some node \<Rightarrow>
          if \<not> nn_node_has_subscribers node then (- EINVAL, self)
          else
            let node = Node (refcount node - 1) (nprefix node) (children node) in
            if refcount node = 0 then
              (if node_type (children node) = 0 then (1, None) else (1, Some (nn_node_compact node)))
            else (0, Some node))"

text \<open>The first and the last child of a dense array that is there.\<close>

fun first_child :: "nn_trie_node option list \<Rightarrow> nat" where
  "first_child [] = 0"
| "first_child (None # arr) = Suc (first_child arr)"
| "first_child (Some n # arr) = 0"

fun last_child :: "nn_trie_node option list \<Rightarrow> nat \<Rightarrow> nat" where
  "last_child arr 0 = 0"
| "last_child arr (Suc i) = (if arr ! Suc i \<noteq> None then Suc i else last_child arr i)"

text \<open>The children of a dense array with their bytes.\<close>

fun present :: "u8 \<Rightarrow> nn_trie_node option list \<Rightarrow> (u8 \<times> nn_trie_node) list" where
  "present c [] = []"
| "present c (None # arr) = present (c + 1) arr"
| "present c (Some n # arr) = (c, n) # present (c + 1) arr"

text \<open>The child of byte \<open>c\<close> at index \<open>i\<close> is gone.\<close>

definition prune :: "nn_trie_node \<Rightarrow> u8 \<Rightarrow> nat \<Rightarrow> (int \<times> nn_trie) c_result" where
  "prune self c i =
     (case children self of
        Sparse cs \<Rightarrow>
          (case sparse_index cs c of
             None \<Rightarrow> Inl Assertion
           | Some index \<Rightarrow>
               let cs = take index cs @ drop (index + 1) cs;
                   node = Node (refcount self) (nprefix self) (Sparse cs)
               in if cs = [] \<and> \<not> nn_node_has_subscribers node then Inr (1, None)
                  else Inr (1, Some (nn_node_compact node)))
      | Dense mn mx nbr arr \<Rightarrow>
          let arr = arr[i := None] in
          if unat nbr > NN_TRIE_SPARSE_MAX + 1 then
            (if c = mn then
               let j = first_child arr in
               Inr (1, Some (Node (refcount self) (nprefix self) (Dense (of_nat j + mn) mx (nbr - 1) (drop j arr))))
             else if c = mx then
               let j = last_child arr (unat (mx - mn)) in
               Inr (1, Some (Node (refcount self) (nprefix self) (Dense mn (of_nat j + mn) (nbr - 1) (take (j + 1) arr))))
             else Inr (1, Some (Node (refcount self) (nprefix self) (Dense mn mx (nbr - 1) arr))))
          else
            let cs = present mn arr in
            if length cs \<noteq> NN_TRIE_SPARSE_MAX then Inl Assertion
            else Inr (1, Some (Node 0 (nprefix self) (Sparse cs))))"

function nn_node_unsubscribe :: "nn_trie \<Rightarrow> u8 list \<Rightarrow> (int \<times> nn_trie) c_result" where
  "nn_node_unsubscribe self data =
     (if data = [] then Inr (unsub_found self)
      else
        (case self of
           None \<Rightarrow> Inl Null_Pointer
         | Some node \<Rightarrow>
             if nn_node_check_prefix (nprefix node) data \<noteq> length (nprefix node) then Inr (0, self)
             else
               (case drop (length (nprefix node)) data of
                  [] \<Rightarrow> Inr (unsub_found self)
                | c # rest \<Rightarrow>
                    (case nn_node_next (children node) c of
                       None \<Rightarrow> Inr (0, self)
                     | Some i \<Rightarrow>
                         (case nn_node_unsubscribe (nn_node_child (children node) i) rest of
                            Inl e \<Rightarrow> Inl e
                          | Inr (rc, None) \<Rightarrow> if rc = 0 then Inr (0, self) else prune node c i
                          | Inr (rc, Some ch) \<Rightarrow>
                              Inr (if rc = 0 then 0 else 1,
                                   Some (Node (refcount node) (nprefix node) (put_child (children node) i ch))))))))"
  by pat_completeness auto
termination by (relation "measure (\<lambda>(n, data). length data)") (auto dest: drop_Cons_less drop_Cons_less [OF sym])

declare nn_node_unsubscribe.simps [simp del]

definition nn_trie_unsubscribe :: "nn_trie \<Rightarrow> u8 list \<Rightarrow> (int \<times> nn_trie) c_result" where
  "nn_trie_unsubscribe self data = nn_node_unsubscribe self data"

end
