(* ===== verification/Nn_Trie_Props.thy ===== *)
theory Nn_Trie_Props
  imports Nn_Trie
begin

text \<open>
  The subscription trie against its specification, the number of subscriptions to each string.
  \<open>cnt\<close> reads this number off the trie, \<open>twf\<close> is the well-formedness the operations keep, and the
  properties say what \<open>nn_trie_subscribe\<close>, \<open>nn_trie_unsubscribe\<close> and \<open>nn_trie_match\<close> do to the counts.
\<close>

section \<open>Children\<close>

definition kid :: "nn_trie_children \<Rightarrow> u8 \<Rightarrow> nn_trie" where
  "kid k c = (case nn_node_next k c of None \<Rightarrow> None | Some i \<Rightarrow> nn_node_child k i)"

lemma sparse_index_Some:
  "sparse_index cs c = Some i \<Longrightarrow> i < length cs \<and> fst (cs ! i) = c \<and> map_of cs c = Some (snd (cs ! i))"
  by (induction cs arbitrary: i) (auto split: if_splits)

lemma sparse_index_None: "sparse_index cs c = None \<longleftrightarrow> map_of cs c = None"
  by (induction cs) (auto split: if_splits)

lemma kid_Sparse [simp]: "kid (Sparse cs) c = map_of cs c"
  using sparse_index_None [of cs c] sparse_index_Some [of cs c] by (cases "sparse_index cs c") (auto simp: kid_def)

lemma kid_Dense [simp]:
  "kid (Dense mn mx nbr arr) c = (if mn \<le> c \<and> c \<le> mx then arr ! unat (c - mn) else None)"
  by (auto simp: kid_def not_less)

lemma map_of_update_index:
  "sparse_index cs c = Some i \<Longrightarrow> map_of (cs[i := (c, n)]) = (map_of cs)(c \<mapsto> n)"
  by (induction cs arbitrary: i) (auto split: if_splits simp: fun_upd_twist)

lemma unat_minus_inj: "unat (a - m) = unat (b - m) \<longleftrightarrow> a = b" for a b m :: u8
  by (auto dest: unsigned_word_eqI)

lemma length_filter_update:
  "i < length xs \<Longrightarrow>
     length (filter P (xs[i := y])) + (if P (xs ! i) then 1 else 0) = length (filter P xs) + (if P y then 1 else 0)"
proof (induction xs arbitrary: i)
  case (Cons x xs)
  then show ?case by (cases i) auto
qed simp

definition dense_ok :: "u8 \<Rightarrow> u8 \<Rightarrow> nn_trie_node option list \<Rightarrow> bool" where
  "dense_ok mn mx arr \<longleftrightarrow> mn \<le> mx \<and> length arr = unat (mx - mn) + 1"

lemma dense_index:
  assumes "dense_ok mn mx arr" and "mn \<le> c" and "c \<le> mx"
  shows "unat (c - mn) < length arr"
proof -
  have "unat (c - mn) \<le> unat (mx - mn)"
    using assms by (simp add: dense_ok_def unat_sub word_le_nat_alt)
  then show ?thesis using assms(1) by (simp add: dense_ok_def)
qed

definition kids_ok :: "u32 \<Rightarrow> nn_trie_children \<Rightarrow> bool" where
  "kids_ok r k = (case k of
     Sparse cs \<Rightarrow> distinct (map fst cs) \<and> length cs \<le> NN_TRIE_SPARSE_MAX \<and> (cs = [] \<longrightarrow> r \<noteq> 0)
   | Dense mn mx nbr arr \<Rightarrow> dense_ok mn mx arr
       \<and> unat nbr = length (filter (\<lambda>n. n \<noteq> None) arr) \<and> NN_TRIE_SPARSE_MAX < unat nbr)"

inductive twf :: "nn_trie_node \<Rightarrow> bool" where
  twfI: "length p \<le> NN_TRIE_PREFIX_MAX \<Longrightarrow> kids_ok r k \<Longrightarrow> (\<And>c n. kid k c = Some n \<Longrightarrow> twf n) \<Longrightarrow> twf (Node r p k)"

inductive_simps twf_Node: "twf (Node r p k)"

lemma kid_put_child:
  assumes "kids_ok r k" and "nn_node_next k c = Some i" and "nn_node_child k i = Some n"
  shows "kid (put_child k i n') x = (if x = c then Some n' else kid k x)"
proof (cases k)
  case (Sparse cs)
  then show ?thesis
    using assms(2) sparse_index_Some [of cs c i] map_of_update_index [of cs c i n'] by auto
next
  case (Dense mn mx nbr arr)
  have c: "mn \<le> c" "c \<le> mx" "i = unat (c - mn)"
    using assms(2) Dense by (auto split: if_splits)
  have "dense_ok mn mx arr" using assms(1) Dense by (simp add: kids_ok_def)
  note i = dense_index [OF this c(1,2)]
  show ?thesis
    using Dense c i by (auto simp: nth_list_update unat_minus_inj)
qed

lemma kids_ok_put_child:
  assumes "kids_ok r k" and "nn_node_next k c = Some i" and "nn_node_child k i = Some n"
  shows "kids_ok r (put_child k i n')"
proof (cases k)
  case (Sparse cs)
  have "map fst (cs[i := (fst (cs ! i), n')]) = map fst cs"
    by (cases "i < length cs") (auto intro!: nth_equalityI simp: nth_list_update)
  with Sparse assms(1) show ?thesis by (auto simp: kids_ok_def)
next
  case (Dense mn mx nbr arr)
  have c: "mn \<le> c" "c \<le> mx" "i = unat (c - mn)"
    using assms(2) Dense by (auto split: if_splits)
  have "dense_ok mn mx arr" using assms(1) Dense by (simp add: kids_ok_def)
  note i = dense_index [OF this c(1,2)]
  have "arr ! i = Some n" using assms(3) Dense by simp
  then have "length (filter (\<lambda>n. n \<noteq> None) (arr[i := Some n'])) = length (filter (\<lambda>n. n \<noteq> None) arr)"
    using length_filter_update [of i arr "\<lambda>n. n \<noteq> None" "Some n'"] i c(3) by simp
  with Dense assms(1) show ?thesis by (simp add: kids_ok_def dense_ok_def)
qed

section \<open>The number of subscriptions\<close>

function cnt :: "nn_trie \<Rightarrow> u8 list \<Rightarrow> u32" where
  "cnt None s = 0"
| "cnt (Some (Node r p k)) s =
     (if take (length p) s = p then (case drop (length p) s of [] \<Rightarrow> r | c # s' \<Rightarrow> cnt (kid k c) s') else 0)"
  by pat_completeness auto
termination by (relation "measure (\<lambda>(n, s). length s)") (auto dest: drop_Cons_less [OF sym])

declare cnt.simps(2) [simp del]

lemma cnt_end [simp]: "cnt (Some (Node r p k)) p = r"
  by (simp add: cnt.simps)

lemma cnt_step [simp]: "cnt (Some (Node r p k)) (p @ c # s) = cnt (kid k c) s"
  by (simp add: cnt.simps)

lemma cnt_off [simp]: "\<not> Sublist.prefix p s \<Longrightarrow> cnt (Some (Node r p k)) s = 0"
  by (subst cnt.simps) (metis append_take_drop_id prefixI)

text \<open>A string either leaves the prefix of a node, ends at the node or goes on with a child.\<close>

lemma prefix_cases:
  obtains "\<not> Sublist.prefix p s" | "s = p" | c s' where "s = p @ c # s'"
  by (metis append_Nil2 list.exhaust prefixE)

lemma cnt_cong:
  assumes "\<And>c s. cnt (kid k c) s = cnt (kid k' c) s"
  shows "cnt (Some (Node r p k)) s = cnt (Some (Node r p k')) s"
  by (rule prefix_cases [of p s]) (use assms in auto)

lemma cnt_merge: "cnt (Some (Node 0 p (Sparse [(c, Node r q k)]))) s = cnt (Some (Node r (p @ c # q) k)) s"
proof (rule prefix_cases [of p s])
  fix d s' assume s: "s = p @ d # s'"
  show ?thesis
  proof (cases "d = c")
    case True
    show ?thesis
    proof (rule prefix_cases [of q s'])
      fix e t assume "s' = q @ e # t"
      with s True show ?thesis using cnt_step [of r "p @ c # q" k e t] by simp
    qed (use s True cnt_end [of r "p @ c # q" k] in auto)
  next
    case False
    then have "\<not> Sublist.prefix (p @ c # q) s" using s by simp
    with s False show ?thesis by simp
  qed
next
  assume "s = p"
  moreover from this have "\<not> Sublist.prefix (p @ c # q) s" by (auto dest: prefix_length_le)
  ultimately show ?thesis by simp
next
  assume "\<not> Sublist.prefix p s"
  moreover from this have "\<not> Sublist.prefix (p @ c # q) s" by (metis append_prefixD)
  ultimately show ?thesis by simp
qed

lemma nn_node_compact_cases:
  "nn_node_compact n = n \<or> (\<exists>c p r q k. n = Node 0 p (Sparse [(c, Node r q k)]) \<and> length p + length q + 1 \<le> NN_TRIE_PREFIX_MAX
     \<and> nn_node_compact n = Node r (p @ c # q) k)"
proof (cases "\<exists>p c ch. n = Node 0 p (Sparse [(c, ch)])")
  case True
  then obtain p c ch where "n = Node 0 p (Sparse [(c, ch)])" by blast
  then show ?thesis by (cases ch) (auto simp: nn_node_compact_def nn_node_has_subscribers_def)
next
  case False
  then show ?thesis
    by (cases n) (auto simp: nn_node_compact_def nn_node_has_subscribers_def split: nn_trie_children.splits list.splits)
qed

lemma cnt_compact [simp]: "cnt (Some (nn_node_compact n)) s = cnt (Some n) s"
  using nn_node_compact_cases [of n] by (auto simp: cnt_merge)

lemma twf_kid: "twf (Node r p k) \<Longrightarrow> kid k c = Some n \<Longrightarrow> twf n"
  by (auto simp: twf_Node)

lemma twf_compact:
  assumes "twf n"
  shows "twf (nn_node_compact n)"
  using nn_node_compact_cases [of n]
proof
  assume "\<exists>c p r q k. n = Node 0 p (Sparse [(c, Node r q k)]) \<and> length p + length q + 1 \<le> NN_TRIE_PREFIX_MAX
     \<and> nn_node_compact n = Node r (p @ c # q) k"
  then obtain c p r q k where n: "n = Node 0 p (Sparse [(c, Node r q k)])" "length p + length q + 1 \<le> NN_TRIE_PREFIX_MAX"
      "nn_node_compact n = Node r (p @ c # q) k" by blast
  then have tw: "twf (Node 0 p (Sparse [(c, Node r q k)]))" using assms by simp
  have "twf (Node r q k)" by (rule twf_kid [OF tw, of c]) simp
  then show ?thesis unfolding n(3) using n(2) by (simp add: twf_Node)
qed (use assms in simp)


section \<open>New nodes\<close>

lemma new_nodes_cnt: "cnt (Some (new_nodes data)) s = (if s = data then 1 else 0)"
proof (induction data arbitrary: s rule: new_nodes.induct)
  case (1 data)
  show ?case
  proof (cases "length data > NN_TRIE_PREFIX_MAX")
    case True
    let ?p = "take NN_TRIE_PREFIX_MAX data" and ?c = "data ! NN_TRIE_PREFIX_MAX"
    let ?q = "drop (NN_TRIE_PREFIX_MAX + 1) data"
    have split: "data = ?p @ ?c # ?q" using True by (simp add: id_take_nth_drop)
    have IH: "cnt (Some (new_nodes ?q)) s = (if s = ?q then 1 else 0)" for s using 1 True by simp
    have eq: "new_nodes data = Node 0 ?p (Sparse [(?c, new_nodes ?q)])"
      using True by (subst new_nodes.simps) simp
    show ?thesis
    proof (rule prefix_cases [of ?p s])
      fix d s' assume s: "s = ?p @ d # s'"
      then have "s = data \<longleftrightarrow> d = ?c \<and> s' = ?q" using split by (metis list.inject same_append_eq)
      then show ?thesis unfolding eq s using IH by simp
    next
      assume "s = ?p"
      moreover from this True have "s \<noteq> data" by auto
      ultimately show ?thesis unfolding eq by simp
    next
      assume off: "\<not> Sublist.prefix ?p s"
      then have "s \<noteq> data" by (auto simp: take_is_prefix)
      with off show ?thesis unfolding eq by simp
    qed
  next
    case False
    then have eq: "new_nodes data = Node 1 data (Sparse [])" by (subst new_nodes.simps) simp
    show ?thesis unfolding eq by (rule prefix_cases [of data s]) auto
  qed
qed

lemma new_nodes_twf: "twf (new_nodes data)"
proof (induction data rule: new_nodes.induct)
  case (1 data)
  then show ?case
    by (subst new_nodes.simps) (auto simp: twf_Node kids_ok_def trie_consts split: if_splits)
qed

section \<open>Matching a prefix\<close>

lemma check_prefix_le: "nn_node_check_prefix p d \<le> length p"
  by (induction p d rule: nn_node_check_prefix.induct) auto

lemma check_prefix_full: "nn_node_check_prefix p d = length p \<longleftrightarrow> Sublist.prefix p d"
  by (induction p d rule: nn_node_check_prefix.induct) auto

lemma check_prefix_part:
  assumes "nn_node_check_prefix p d < length p"
  shows "d = take (nn_node_check_prefix p d) p @ drop (nn_node_check_prefix p d) d"
    and "\<forall>c s. drop (nn_node_check_prefix p d) d = c # s \<longrightarrow> c \<noteq> p ! nn_node_check_prefix p d"
  using assms by (induction p d rule: nn_node_check_prefix.induct) (auto split: if_splits)


section \<open>Room for another child\<close>

lemma widen_ok:
  assumes ok: "dense_ok mn mx arr" and w: "widen mn mx arr c = (mn', mx', arr')"
  shows "dense_ok mn' mx' arr' \<and> mn' \<le> c \<and> c \<le> mx'
     \<and> (\<forall>x. kid (Dense mn' mx' nbr arr') x = kid (Dense mn mx nbr arr) x)
     \<and> length (filter (\<lambda>n. n \<noteq> None) arr') = length (filter (\<lambda>n. n \<noteq> None) arr)"
proof -
  have mm: "mn \<le> mx" and len: "length arr = unat (mx - mn) + 1" using ok by (simp_all add: dense_ok_def)
  consider "c < mn" | "mx < c" | "mn \<le> c" "c \<le> mx" by fastforce
  then show ?thesis
  proof cases
    case 1
    then have w': "mn' = c" "mx' = mx" "arr' = replicate (unat (mn - c)) None @ arr"
      using w mm by (auto simp: widen_def Let_def split: if_splits)
    have "dense_ok c mx arr'"
      using 1 mm len w'(3) by (simp add: dense_ok_def unat_sub word_le_nat_alt word_less_nat_alt)
    moreover have "kid (Dense c mx nbr arr') x = kid (Dense mn mx nbr arr) x" for x
    proof (cases "mn \<le> x")
      case True
      then have "unat (x - c) = unat (mn - c) + unat (x - mn)"
        using 1 by (simp add: unat_sub word_le_nat_alt word_less_nat_alt)
      moreover have "c \<le> x" using True 1 by simp
      ultimately show ?thesis using True by (simp add: w'(3) nth_append)
    next
      case False
      then have "c \<le> x \<Longrightarrow> unat (x - c) < unat (mn - c)"
        using 1 by (simp add: unat_sub word_le_nat_alt word_less_nat_alt)
      with False show ?thesis by (simp add: w'(3) nth_append)
    qed
    ultimately show ?thesis using 1 mm w' by simp
  next
    case 2
    then have w': "mn' = mn" "mx' = c" "arr' = arr @ replicate (unat (c - mn) + 1 - (unat (mx - mn) + 1)) None"
      using w mm by (auto simp: widen_def Let_def split: if_splits)
    have "dense_ok mn c arr'"
      using 2 mm len w'(3) by (simp add: dense_ok_def unat_sub word_le_nat_alt word_less_nat_alt)
    moreover have "kid (Dense mn c nbr arr') x = kid (Dense mn mx nbr arr) x" for x
    proof (cases "mn \<le> x \<and> x \<le> c")
      case True
      have "unat (x - mn) < length arr \<longleftrightarrow> x \<le> mx" and "unat (x - mn) < length arr'"
        using True mm len dense_index [OF calculation, of x]
        by (auto simp: unat_sub word_le_nat_alt word_less_nat_alt)
      with True show ?thesis by (auto simp: w'(3) nth_append)
    next
      case False
      with 2 show ?thesis by auto
    qed
    ultimately show ?thesis using 2 mm w' by simp
  next
    case 3
    then have "\<not> (c < mn \<or> mx < c)" by auto
    then have "mn' = mn" "mx' = mx" "arr' = arr" using w unfolding widen_def by simp_all
    with 3 ok show ?thesis by simp
  qed
qed

lemma children_min_le: "children_min cs c \<le> c \<and> (\<forall>(b, n)\<in>set cs. children_min cs c \<le> b)"
proof -
  have "fold (\<lambda>(c2, _) m. if m < c2 then m else c2) cs m \<le> m
      \<and> (\<forall>(b, n)\<in>set cs. fold (\<lambda>(c2, _) m. if m < c2 then m else c2) cs m \<le> b)" for m :: u8
  proof (induction cs arbitrary: m)
    case (Cons a cs)
    obtain b n where a: "a = (b, n)" by fastforce
    show ?case using Cons.IH [of "if m < b then m else b"] a by (auto split: if_splits)
  qed simp
  from this [of 255] show ?thesis by (auto simp: children_min_def Let_def)
qed

lemma children_max_ge: "c \<le> children_max cs c \<and> (\<forall>(b, n)\<in>set cs. b \<le> children_max cs c)"
proof -
  have "m \<le> fold (\<lambda>(c2, _) m. if m > c2 then m else c2) cs m
      \<and> (\<forall>(b, n)\<in>set cs. b \<le> fold (\<lambda>(c2, _) m. if m > c2 then m else c2) cs m)" for m :: u8
  proof (induction cs arbitrary: m)
    case (Cons a cs)
    obtain b n where a: "a = (b, n)" by fastforce
    show ?case using Cons.IH [of "if m > b then m else b"] a by (auto split: if_splits)
  qed simp
  from this [of 0] show ?thesis by (auto simp: children_max_def Let_def)
qed

lemma fill_array:
  fixes cs :: "(u8 \<times> nn_trie_node) list"
  assumes "distinct (map fst cs)" and "\<forall>(b, n)\<in>set cs. unat (b - mn) < length arr \<and> arr ! unat (b - mn) = None"
  shows "length (fold (\<lambda>(c, n) arr. arr[unat (c - mn) := Some n]) cs arr) = length arr
     \<and> (unat (x - mn) < length arr \<longrightarrow>
         fold (\<lambda>(c, n) arr. arr[unat (c - mn) := Some n]) cs arr ! unat (x - mn)
           = (case map_of cs x of None \<Rightarrow> arr ! unat (x - mn) | Some n \<Rightarrow> Some n))
     \<and> length (filter (\<lambda>n. n \<noteq> None) (fold (\<lambda>(c, n) arr. arr[unat (c - mn) := Some n]) cs arr))
         = length cs + length (filter (\<lambda>n. n \<noteq> None) arr)"
  using assms
proof (induction cs arbitrary: arr)
  case (Cons a cs)
  obtain b n where a: "a = (b, n)" by fastforce
  let ?arr = "arr[unat (b - mn) := Some n]"
  have b: "unat (b - mn) < length arr" "arr ! unat (b - mn) = None" "b \<notin> fst ` set cs"
    using Cons.prems a by auto
  have "\<forall>(b, n)\<in>set cs. unat (b - mn) < length ?arr \<and> ?arr ! unat (b - mn) = None"
  proof
    fix e assume e: "e \<in> set cs"
    obtain d m where d: "e = (d, m)" by fastforce
    have "d \<noteq> b" using b(3) e d by force
    then have "unat (d - mn) \<noteq> unat (b - mn)" by (simp add: unat_minus_inj)
    with e d Cons.prems(2) show "case e of (b, n) \<Rightarrow> unat (b - mn) < length ?arr \<and> ?arr ! unat (b - mn) = None"
      by auto
  qed
  moreover have "length (filter (\<lambda>n. n \<noteq> None) ?arr) = Suc (length (filter (\<lambda>n. n \<noteq> None) arr))"
    using length_filter_update [OF b(1), of "\<lambda>n. n \<noteq> None" "Some n"] b(2) by simp
  moreover have "map_of cs b = None" using b(3) by (simp add: map_of_eq_None_iff)
  ultimately show ?case
    using Cons.IH [of ?arr] Cons.prems(1) a b
    by (auto simp: nth_list_update unat_minus_inj split: option.splits)
qed simp


lemma dense_array_ok:
  fixes cs :: "(u8 \<times> nn_trie_node) list"
  assumes "distinct (map fst cs)" and "\<forall>(b, n)\<in>set cs. mn \<le> b \<and> b \<le> mx" and "mn \<le> mx"
  shows "dense_ok mn mx (dense_array cs mn mx)"
    and "kid (Dense mn mx nbr (dense_array cs mn mx)) x = map_of cs x"
    and "length (filter (\<lambda>n. n \<noteq> None) (dense_array cs mn mx)) = length cs"
proof -
  let ?e = "replicate (unat (mx - mn) + 1) (None :: nn_trie)"
  have e: "dense_ok mn mx ?e" using assms(3) by (simp add: dense_ok_def)
  have free: "\<forall>(b, n)\<in>set cs. unat (b - mn) < length ?e \<and> ?e ! unat (b - mn) = None"
  proof clarify
    fix b n assume "(b, n) \<in> set cs"
    then have "mn \<le> b" "b \<le> mx" using assms(2) by auto
    from dense_index [OF e this] show "unat (b - mn) < length ?e \<and> ?e ! unat (b - mn) = None"
      by (simp only: nth_replicate length_replicate simp_thms)
  qed
  note fill = fill_array [OF assms(1) free]
  show ok: "dense_ok mn mx (dense_array cs mn mx)"
    using fill assms(3) by (simp add: dense_ok_def dense_array_def)
  show "length (filter (\<lambda>n. n \<noteq> None) (dense_array cs mn mx)) = length cs"
    using fill by (simp add: dense_array_def)
  show "kid (Dense mn mx nbr (dense_array cs mn mx)) x = map_of cs x"
  proof (cases "mn \<le> x \<and> x \<le> mx")
    case True
    then have i: "unat (x - mn) < length ?e" by (intro dense_index [OF e]) simp_all
    then have "?e ! unat (x - mn) = None" by (simp only: nth_replicate length_replicate)
    with fill [of x, THEN conjunct2, THEN conjunct1, rule_format, OF i]
    have "dense_array cs mn mx ! unat (x - mn) = map_of cs x"
      unfolding dense_array_def by (cases "map_of cs x") simp_all
    with True show ?thesis by simp
  next
    case False
    then have "x \<notin> fst ` set cs" using assms(2) by fastforce
    then have "map_of cs x = None" by (simp add: map_of_eq_None_iff)
    with False show ?thesis by auto
  qed
qed

lemma dense_put:
  assumes ok: "dense_ok mn mx arr" and c: "mn \<le> c" "c \<le> mx" and free: "arr ! unat (c - mn) = None"
  shows "dense_ok mn mx (arr[unat (c - mn) := Some n])"
    and "kid (Dense mn mx nbr (arr[unat (c - mn) := Some n])) x = (if x = c then Some n else kid (Dense mn mx nbr' arr) x)"
    and "length (filter (\<lambda>n. n \<noteq> None) (arr[unat (c - mn) := Some n])) = Suc (length (filter (\<lambda>n. n \<noteq> None) arr))"
proof -
  note i = dense_index [OF ok c]
  show "dense_ok mn mx (arr[unat (c - mn) := Some n])" using ok by (simp add: dense_ok_def)
  show "kid (Dense mn mx nbr (arr[unat (c - mn) := Some n])) x = (if x = c then Some n else kid (Dense mn mx nbr' arr) x)"
    using i c by (simp add: nth_list_update unat_minus_inj)
  show "length (filter (\<lambda>n. n \<noteq> None) (arr[unat (c - mn) := Some n])) = Suc (length (filter (\<lambda>n. n \<noteq> None) arr))"
    using length_filter_update [OF i, of "\<lambda>n. n \<noteq> None" "Some n"] free by simp
qed

definition full :: "nn_trie_children \<Rightarrow> bool" where
  "full k \<longleftrightarrow> (case k of Sparse cs \<Rightarrow> length cs = NN_TRIE_SPARSE_MAX | Dense _ _ _ _ \<Rightarrow> False)"

lemma step3_add_sparse:
  assumes ok: "kids_ok r (Sparse cs)" and free: "map_of cs c = None"
  shows "\<exists>k'. step3 (Node r p (Sparse cs)) (c # data) = Inr (1, Node (if full (Sparse cs) then 0 else r) p k')
     \<and> kids_ok (if full (Sparse cs) then 0 else r) k'
     \<and> (\<forall>x. kid k' x = (if x = c then Some (new_nodes data) else map_of cs x))"
proof (cases "length cs < NN_TRIE_SPARSE_MAX")
  case True
  let ?k = "Sparse (cs @ [(c, new_nodes data)])"
  have "map_of (cs @ [(c, new_nodes data)]) x = (if x = c then Some (new_nodes data) else map_of cs x)" for x
    using free by (auto simp: map_add_def split: option.splits)
  moreover have "c \<notin> fst ` set cs" using free by (simp add: map_of_eq_None_iff)
  ultimately show ?thesis
    using True ok by (intro exI [of _ ?k]) (auto simp: full_def kids_ok_def)
next
  case False
  then have len: "length cs = NN_TRIE_SPARSE_MAX" using ok by (simp add: kids_ok_def)
  define mn where "mn = children_min cs c"
  define mx where "mx = children_max cs c"
  define arr where "arr = dense_array cs mn mx"
  have c: "mn \<le> c" "c \<le> mx" "mn \<le> mx" "\<forall>(b, n)\<in>set cs. mn \<le> b \<and> b \<le> mx"
    using children_min_le [of cs c] children_max_ge [of c cs] unfolding mn_def mx_def by auto
  have dist: "distinct (map fst cs)" using ok by (simp add: kids_ok_def)
  note arr = dense_array_ok [OF dist c(4,3), folded arr_def]
  have none: "arr ! unat (c - mn) = None" using arr(2) [of 0 c] c(1,2) free by simp
  note put = dense_put [where n = "new_nodes data", OF arr(1) c(1,2) none]
  let ?k = "Dense mn mx (of_nat (length cs) + 1) (arr[unat (c - mn) := Some (new_nodes data)])"
  have "kids_ok 0 ?k" using put(1,3) arr(3) len by (simp add: kids_ok_def trie_consts)
  moreover have "kid ?k x = (if x = c then Some (new_nodes data) else map_of cs x)" for x
    unfolding put(2) [where nbr' = 0] arr(2) ..
  moreover have "step3 (Node r p (Sparse cs)) (c # data) = Inr (1, Node 0 p ?k)"
    using len none by (simp add: mn_def [symmetric] mx_def [symmetric] arr_def [symmetric])
  ultimately show ?thesis using len by (intro exI [of _ ?k]) (simp add: full_def)
qed

lemma step3_add_dense:
  assumes ok: "kids_ok r (Dense mn mx nbr arr)" and free: "kid (Dense mn mx nbr arr) c = None"
  shows "\<exists>k'. step3 (Node r p (Dense mn mx nbr arr)) (c # data) = Inr (1, Node r p k') \<and> kids_ok r k'
     \<and> (\<forall>x. kid k' x = (if x = c then Some (new_nodes data) else kid (Dense mn mx nbr arr) x))"
proof -
  obtain mn' mx' arr' where w: "widen mn mx arr c = (mn', mx', arr')" by (metis prod_cases3)
  have d: "dense_ok mn mx arr" "unat nbr = length (filter (\<lambda>n. n \<noteq> None) arr)" "NN_TRIE_SPARSE_MAX < unat nbr"
    using ok by (simp_all add: kids_ok_def)
  have wd: "dense_ok mn' mx' arr'" "mn' \<le> c" "c \<le> mx'"
      "\<And>x. kid (Dense mn' mx' nbr arr') x = kid (Dense mn mx nbr arr) x"
      "length (filter (\<lambda>n. n \<noteq> None) arr') = length (filter (\<lambda>n. n \<noteq> None) arr)"
    using widen_ok [OF d(1) w, of nbr] by blast+
  have none: "arr' ! unat (c - mn') = None" using wd(2,3) wd(4) [of c] free by simp
  note put = dense_put [where n = "new_nodes data", OF wd(1-3) none]
  let ?arr = "arr'[unat (c - mn') := Some (new_nodes data)]"
  let ?k = "Dense mn' mx' (nbr + 1) ?arr"
  have "length ?arr \<le> 256"
    using put(1) unsigned_less [of "mx' - mn'", where 'a = nat] by (simp add: dense_ok_def)
  then have "Suc (unat nbr) \<le> 256"
    using put(3) wd(5) d(2) length_filter_le [of "\<lambda>n. n \<noteq> None" ?arr] by linarith
  then have "unat (nbr + 1) = Suc (unat nbr)" by (simp add: unat_word_ariths)
  then have "kids_ok r ?k" using put(1,3) wd(5) d(2,3) by (simp add: kids_ok_def)
  moreover have "kid ?k x = (if x = c then Some (new_nodes data) else kid (Dense mn mx nbr arr) x)" for x
    unfolding put(2) [where nbr' = nbr] wd(4) ..
  moreover have "step3 (Node r p (Dense mn mx nbr arr)) (c # data) = Inr (1, Node r p ?k)"
    using none w by simp
  ultimately show ?thesis by (intro exI [of _ ?k]) simp
qed


section \<open>Subscribing\<close>

text \<open>
  The string whose subscriptions a new subscription loses: that of a node with a full sparse array
  that becomes dense, since its new node starts with the reference count 0.
\<close>

function lost :: "nn_trie \<Rightarrow> u8 list \<Rightarrow> u8 list option" where
  "lost None data = None"
| "lost (Some (Node r p k)) data =
     (if take (length p) data = p then
        (case drop (length p) data of
           [] \<Rightarrow> None
         | c # rest \<Rightarrow>
             if kid k c = None then (if full k then Some p else None)
             else map_option (\<lambda>s. p @ c # s) (lost (kid k c) rest))
      else None)"
  by pat_completeness auto
termination by (relation "measure (\<lambda>(n, s). length s)") (auto dest: drop_Cons_less [OF sym])

declare lost.simps(2) [simp del]

lemma lost_step [simp]:
  "lost (Some (Node r p k)) (p @ c # s) =
     (if kid k c = None then (if full k then Some p else None) else map_option (\<lambda>s. p @ c # s) (lost (kid k c) s))"
  by (simp add: lost.simps)

lemma lost_end [simp]: "lost (Some (Node r p k)) p = None"
  by (simp add: lost.simps)

lemma lost_off [simp]: "\<not> Sublist.prefix p s \<Longrightarrow> lost (Some (Node r p k)) s = None"
  by (subst lost.simps) (metis append_take_drop_id prefixI)

definition counts_after :: "nn_trie_node \<Rightarrow> u8 list \<Rightarrow> nn_trie_node \<Rightarrow> bool" where
  "counts_after n data n' \<longleftrightarrow> (\<forall>s. cnt (Some n') s =
     (if s = data then cnt (Some n) s + 1 else if lost (Some n) data = Some s then 0 else cnt (Some n) s))"

lemma step3_add:
  assumes "kids_ok r k" and "kid k c = None"
  shows "\<exists>k'. step3 (Node r p k) (c # data) = Inr (1, Node (if full k then 0 else r) p k')
     \<and> kids_ok (if full k then 0 else r) k'
     \<and> (\<forall>x. kid k' x = (if x = c then Some (new_nodes data) else kid k x))"
proof (cases k)
  case (Sparse cs)
  with assms have ok: "kids_ok r (Sparse cs)" and free: "map_of cs c = None" by simp_all
  show ?thesis unfolding Sparse kid_Sparse by (rule step3_add_sparse [OF ok free])
next
  case (Dense mn mx nbr arr)
  then have nf: "\<not> full k" by (simp add: full_def)
  show ?thesis unfolding if_not_P [OF nf] unfolding Dense by (rule step3_add_dense [OF assms [unfolded Dense]])
qed

lemma step3_node:
  assumes tw: "twf (Node r p k)" and free: "kid k c = None"
  shows "\<exists>n'. step3 (Node r p k) (c # data) = Inr (1, n') \<and> twf n' \<and> counts_after (Node r p k) (p @ c # data) n'"
proof -
  define r' where "r' = (if full k then 0 else r)"
  obtain k' where k': "step3 (Node r p k) (c # data) = Inr (1, Node r' p k')" "kids_ok r' k'"
      "\<And>x. kid k' x = (if x = c then Some (new_nodes data) else kid k x)"
    using step3_add [of r k c p data] tw free unfolding r'_def twf_Node by blast
  have "twf (Node r' p k')"
    using tw k'(2,3) new_nodes_twf by (auto simp: twf_Node split: if_splits)
  moreover have "counts_after (Node r p k) (p @ c # data) (Node r' p k')"
    unfolding counts_after_def
  proof
    fix s
    show "cnt (Some (Node r' p k')) s = (if s = p @ c # data then cnt (Some (Node r p k)) s + 1
        else if lost (Some (Node r p k)) (p @ c # data) = Some s then 0 else cnt (Some (Node r p k)) s)"
      by (rule prefix_cases [of p s]) (use k'(3) free in \<open>auto simp: new_nodes_cnt r'_def\<close>)
  qed
  ultimately show ?thesis using k'(1) by blast
qed


lemma step2_node:
  assumes tw: "twf (Node r p k)" and pos: "pos < length p"
  shows "twf (step2 (Node r p k) pos)" and "cnt (Some (step2 (Node r p k) pos)) s = cnt (Some (Node r p k)) s"
proof -
  let ?q = "drop (pos + 1) p"
  have p: "p = take pos p @ p ! pos # ?q" using pos by (simp add: id_take_nth_drop)
  have "twf (Node r ?q k)" using tw by (auto simp: twf_Node)
  then show "twf (step2 (Node r p k) pos)"
    using tw by (auto simp: twf_Node step2_def kids_ok_def trie_consts intro: twf_compact)
  have "cnt (Some (step2 (Node r p k) pos)) s = cnt (Some (Node 0 (take pos p) (Sparse [(p ! pos, Node r ?q k)]))) s"
    unfolding step2_def by (simp, rule cnt_cong) simp
  also have "\<dots> = cnt (Some (Node r (take pos p @ p ! pos # ?q) k)) s" by (rule cnt_merge)
  finally show "cnt (Some (step2 (Node r p k) pos)) s = cnt (Some (Node r p k)) s" using p by simp
qed

lemma split_subscribe:
  assumes tw: "twf (Node r p k)" and pos: "pos = nn_node_check_prefix p data" "pos < length p"
  shows "\<exists>n'. step3 (step2 (Node r p k) pos) (drop pos data) = Inr (1, n') \<and> twf n' \<and> counts_after (Node r p k) data n'
     \<and> cnt (Some (Node r p k)) data = 0"
proof -
  have off: "\<not> Sublist.prefix p data" using pos check_prefix_full [of p data] by auto
  have data: "data = take pos p @ drop pos data" "\<And>c s. drop pos data = c # s \<Longrightarrow> c \<noteq> p ! pos"
    using check_prefix_part [of p data] pos by auto
  note two = step2_node [OF tw pos(2)]
  obtain k2 where k2: "step2 (Node r p k) pos = Node 0 (take pos p) k2" "\<not> full k2"
      "\<And>c. c \<noteq> p ! pos \<Longrightarrow> kid k2 c = None"
    by (simp add: step2_def full_def trie_consts)
  have "\<exists>n'. step3 (Node 0 (take pos p) k2) (drop pos data) = Inr (1, n') \<and> twf n' \<and> counts_after (Node r p k) data n'"
  proof (cases "drop pos data")
    case Nil
    then have d: "data = take pos p" using data(1) by simp
    have "counts_after (Node r p k) data (Node 1 (take pos p) k2)"
      unfolding counts_after_def
    proof
      fix s
      show "cnt (Some (Node 1 (take pos p) k2)) s = (if s = data then cnt (Some (Node r p k)) s + 1
          else if lost (Some (Node r p k)) data = Some s then 0 else cnt (Some (Node r p k)) s)"
        by (rule prefix_cases [of "take pos p" s]) (use two(2) [of s, unfolded k2(1)] off d in auto)
    qed
    moreover have "twf (Node 1 (take pos p) k2)"
      using two(1) unfolding k2(1) by (auto simp: twf_Node kids_ok_def split: nn_trie_children.splits)
    ultimately show ?thesis using Nil by simp
  next
    case (Cons c rest)
    then have free: "kid k2 c = None" using data(2) k2(3) by blast
    obtain n' where n': "step3 (Node 0 (take pos p) k2) (c # rest) = Inr (1, n')" "twf n'"
        "counts_after (Node 0 (take pos p) k2) (take pos p @ c # rest) n'"
      using step3_node [OF two(1) [unfolded k2(1)] free] by blast
    have "counts_after (Node r p k) data n'"
      using n'(3) off free k2(2) data(1) two(2) unfolding counts_after_def k2(1) Cons by simp
    with n' Cons show ?thesis by auto
  qed
  with off k2(1) show ?thesis by simp
qed

lemma subscribe_child:
  assumes tw: "twf (Node r p k)" and i: "nn_node_next k c = Some i" "nn_node_child k i = Some n"
    and n': "node_subscribe n rest = Inr (rc, n')" "twf n'" "counts_after n rest n'"
  shows "\<exists>m. node_subscribe (Node r p k) (p @ c # rest) = Inr (rc, m) \<and> twf m \<and> counts_after (Node r p k) (p @ c # rest) m"
proof -
  have ok: "kids_ok r k" using tw by (simp add: twf_Node)
  have kid: "kid k c = Some n" using i by (simp add: kid_def)
  note put = kid_put_child [OF ok i, of n']
  have pos: "nn_node_check_prefix p (p @ c # rest) = length p" by (simp add: check_prefix_full)
  have "node_subscribe (Node r p k) (p @ c # rest) = Inr (rc, Node r p (put_child k i n'))"
    using pos i n'(1) by (subst node_subscribe.simps) (simp add: Let_def)
  moreover have "twf (Node r p (put_child k i n'))"
    using tw n'(2) kids_ok_put_child [OF ok i] by (auto simp: twf_Node put)
  moreover have "counts_after (Node r p k) (p @ c # rest) (Node r p (put_child k i n'))"
    unfolding counts_after_def
  proof
    fix s
    show "cnt (Some (Node r p (put_child k i n'))) s = (if s = p @ c # rest then cnt (Some (Node r p k)) s + 1
        else if lost (Some (Node r p k)) (p @ c # rest) = Some s then 0 else cnt (Some (Node r p k)) s)"
      by (rule prefix_cases [of p s]) (use n'(3) kid in \<open>auto simp: counts_after_def put\<close>)
  qed
  ultimately show ?thesis by blast
qed

lemma node_subscribe_counts:
  "twf n \<Longrightarrow> cnt (Some n) data + 1 \<noteq> 0 \<Longrightarrow>
     \<exists>n'. node_subscribe n data = Inr (if cnt (Some n) data + 1 = 1 then 1 else 0, n') \<and> twf n' \<and> counts_after n data n'"
proof (induction n data rule: node_subscribe.induct)
  case (1 r p k data)
  let ?pos = "nn_node_check_prefix p data"
  show ?case
  proof (cases "?pos < length p")
    case True
    then show ?thesis
      using split_subscribe [OF 1(2) refl True] by (subst node_subscribe.simps) (auto simp: Let_def)
  next
    case False
    then have pos: "?pos = length p" using check_prefix_le [of p data] by simp
    then have pre: "Sublist.prefix p data" using check_prefix_full by blast
    consider "data = p" | c rest where "data = p @ c # rest"
      by (rule prefix_cases [of p data]) (use pre in auto)
    then show ?thesis
    proof cases
      case d: 1
      have "counts_after (Node r p k) p (Node (r + 1) p k)"
        unfolding counts_after_def
      proof
        fix s
        show "cnt (Some (Node (r + 1) p k)) s = (if s = p then cnt (Some (Node r p k)) s + 1
            else if lost (Some (Node r p k)) p = Some s then 0 else cnt (Some (Node r p k)) s)"
          by (rule prefix_cases [of p s]) auto
      qed
      moreover have "twf (Node (r + 1) p k)"
        using 1(2,3) d by (auto simp: twf_Node kids_ok_def split: nn_trie_children.splits)
      ultimately show ?thesis using pos d by (subst node_subscribe.simps) (simp add: Let_def)
    next
      case d: 2
      show ?thesis
      proof (cases "kid k c")
        case None
        then have run: "node_subscribe (Node r p k) data = step3 (Node r p k) (c # rest)"
          using pos d by (subst node_subscribe.simps) (auto simp: Let_def kid_def split: option.splits)
        show ?thesis unfolding run using step3_node [OF 1(2) None, of rest] None d by auto
      next
        case (Some n)
        then obtain i where i: "nn_node_next k c = Some i" "nn_node_child k i = Some n"
          by (auto simp: kid_def split: option.splits)
        have n: "twf n" "cnt (Some n) rest + 1 \<noteq> 0" using twf_kid [OF 1(2) Some] 1(3) d Some by simp_all
        have "drop ?pos data = c # rest" using pos d by simp
        from 1(1) [OF refl this [symmetric] _ _ i n] False show ?thesis
          using subscribe_child [OF 1(2) i, of rest] d Some by auto
      qed
    qed
  qed
qed


section \<open>Matching\<close>

lemma dense_byte:
  assumes "dense_ok mn mx arr" and "i < length arr"
  shows "mn \<le> mn + of_nat i" and "mn + of_nat i \<le> mx" and "unat (mn + of_nat i - mn) = i"
    and "unat (mn + of_nat i) = unat mn + i"
proof -
  have len: "length arr = unat mx - unat mn + 1" "unat mn \<le> unat mx"
    using assms(1) by (simp_all add: dense_ok_def unat_sub word_le_nat_alt)
  have mx: "unat mx < 256" using unsigned_less [of mx, where 'a = nat] by simp
  then show c: "unat (mn + of_nat i) = unat mn + i"
    using assms(2) len by (simp add: unat_word_ariths unat_of_nat)
  show "mn \<le> mn + of_nat i" "mn + of_nat i \<le> mx" using c assms(2) len by (simp_all add: word_le_nat_alt)
  show "unat (mn + of_nat i - mn) = i" using mx assms(2) len by (simp add: unat_of_nat)
qed

lemma dense_has_child:
  assumes "dense_ok mn mx arr" and "0 < length (filter (\<lambda>n. n \<noteq> None) arr)"
  shows "\<exists>c n. kid (Dense mn mx nbr arr) c = Some n"
proof -
  have "filter (\<lambda>n. n \<noteq> None) arr \<noteq> []" using assms(2) by simp
  then obtain i n where i: "i < length arr" "arr ! i = Some n"
    by (auto simp: filter_empty_conv in_set_conv_nth)
  note c = dense_byte [OF assms(1) i(1)]
  have "kid (Dense mn mx nbr arr) (mn + of_nat i) = Some n"
    unfolding kid_Dense c(3) using c(1,2) i(2) by simp
  then show ?thesis by blast
qed

text \<open>Every node lies on the way to a subscription.\<close>

lemma twf_subscribed: "twf n \<Longrightarrow> \<exists>s. cnt (Some n) s \<noteq> 0"
proof (induction rule: twf.induct)
  case (twfI p r k)
  show ?case
  proof (cases "\<exists>c n. kid k c = Some n")
    case True
    then obtain c n where c: "kid k c = Some n" by blast
    then obtain s where "cnt (Some n) s \<noteq> 0" using twfI.IH by blast
    then have "cnt (Some (Node r p k)) (p @ c # s) \<noteq> 0" using c by simp
    then show ?thesis by blast
  next
    case False
    have "r \<noteq> 0"
    proof (cases k)
      case (Sparse cs)
      with False have "cs = []" by (cases cs) (auto split: if_splits)
      with Sparse twfI show ?thesis by (simp add: kids_ok_def)
    next
      case (Dense mn mx nbr arr)
      have d: "dense_ok mn mx arr" "unat nbr = length (filter (\<lambda>n. n \<noteq> None) arr)" "NN_TRIE_SPARSE_MAX < unat nbr"
        using twfI(2) Dense by (simp_all add: kids_ok_def)
      then have "0 < length (filter (\<lambda>n. n \<noteq> None) arr)" by linarith
      from dense_has_child [OF d(1) this, of nbr] False Dense show ?thesis by blast
    qed
    then have "cnt (Some (Node r p k)) p \<noteq> 0" by simp
    then show ?thesis by blast
  qed
qed

lemma match_step:
  "nn_trie_match (Some (Node r p k)) data =
     (if \<not> Sublist.prefix p data then Inr 0 else if r \<noteq> 0 then Inr 1
      else (case drop (length p) data of [] \<Rightarrow> Inl Out_Of_Bounds | c # rest \<Rightarrow> nn_trie_match (kid k c) rest))"
  by (subst nn_trie_match.simps)
    (simp add: check_prefix_full nn_node_has_subscribers_def kid_def split: list.splits option.splits)

text \<open>The subscriptions that are a prefix of the data, or extend it, lie below the child of the next byte.\<close>

lemma subscribed_below:
  shows "(\<exists>s. Sublist.prefix s rest \<and> cnt (kid k c) s \<noteq> 0) \<Longrightarrow>
     \<exists>s. Sublist.prefix s (p @ c # rest) \<and> cnt (Some (Node r p k)) s \<noteq> 0"
    and "r = 0 \<Longrightarrow> \<exists>s. Sublist.prefix s (p @ c # rest) \<and> cnt (Some (Node r p k)) s \<noteq> 0 \<Longrightarrow>
     \<exists>s. Sublist.prefix s rest \<and> cnt (kid k c) s \<noteq> 0"
    and "\<exists>s. strict_prefix rest s \<and> cnt (kid k c) s \<noteq> 0 \<Longrightarrow>
     \<exists>s. strict_prefix (p @ c # rest) s \<and> cnt (Some (Node r p k)) s \<noteq> 0"
proof -
  show "\<exists>s. Sublist.prefix s (p @ c # rest) \<and> cnt (Some (Node r p k)) s \<noteq> 0"
    if ex: "\<exists>s. Sublist.prefix s rest \<and> cnt (kid k c) s \<noteq> 0"
  proof -
    from ex obtain s where "Sublist.prefix s rest" "cnt (kid k c) s \<noteq> 0" by blast
    then show ?thesis by (intro exI [of _ "p @ c # s"]) simp
  qed
  show "\<exists>s. strict_prefix (p @ c # rest) s \<and> cnt (Some (Node r p k)) s \<noteq> 0"
    if ex: "\<exists>s. strict_prefix rest s \<and> cnt (kid k c) s \<noteq> 0"
  proof -
    from ex obtain s where "strict_prefix rest s" "cnt (kid k c) s \<noteq> 0" by blast
    then show ?thesis by (intro exI [of _ "p @ c # s"]) (simp add: strict_prefix_def)
  qed
  show "\<exists>s. Sublist.prefix s rest \<and> cnt (kid k c) s \<noteq> 0"
    if r: "r = 0" and ex: "\<exists>s. Sublist.prefix s (p @ c # rest) \<and> cnt (Some (Node r p k)) s \<noteq> 0"
  proof -
    from ex obtain s where s: "Sublist.prefix s (p @ c # rest)" "cnt (Some (Node r p k)) s \<noteq> 0" by blast
    show ?thesis by (rule prefix_cases [of p s]) (use s r in auto)
  qed
qed

lemma match_correct:
  fixes t :: nn_trie
  assumes "\<And>n. t = Some n \<Longrightarrow> twf n"
  shows "case nn_trie_match t data of
       Inr v \<Rightarrow> v = (if \<exists>s. Sublist.prefix s data \<and> cnt t s \<noteq> 0 then 1 else 0)
     | Inl e \<Rightarrow> e = Out_Of_Bounds \<and> (\<nexists>s. Sublist.prefix s data \<and> cnt t s \<noteq> 0)
         \<and> (\<exists>s. strict_prefix data s \<and> cnt t s \<noteq> 0)"
  using assms
proof (induction "length data" arbitrary: t data rule: less_induct)
  case less
  show ?case
  proof (cases t)
    case None
    then show ?thesis by (simp add: nn_trie_match.simps)
  next
    case (Some n)
    obtain r p k where n: "n = Node r p k" by (cases n)
    have tw: "twf (Node r p k)" using less.prems Some n by simp
    consider "\<not> Sublist.prefix p data" | "Sublist.prefix p data" "r \<noteq> 0" | "data = p" "r = 0"
      | c rest where "data = p @ c # rest" "r = 0"
      by (rule prefix_cases [of p data]) auto
    then show ?thesis
    proof cases
      case 1
      have "cnt t s = 0" if "Sublist.prefix s data" for s
      proof -
        have "\<not> Sublist.prefix p s" using 1 that by (meson prefix_order.trans)
        then show ?thesis using Some n by simp
      qed
      then show ?thesis using 1 Some n by (auto simp: match_step)
    next
      case 2
      then have "cnt t p \<noteq> 0" using Some n by simp
      with 2 show ?thesis using Some n by (auto simp: match_step)
    next
      case 3
      obtain s where s: "cnt t s \<noteq> 0" using twf_subscribed [OF tw] Some n by blast
      have pre: "Sublist.prefix p s" "s \<noteq> p" if "cnt t s \<noteq> 0" for s
        using that cnt_off [of p s r k] cnt_end [of r p k] unfolding Some n 3(2) by metis+
      have "\<nexists>s. Sublist.prefix s p \<and> cnt t s \<noteq> 0" using pre by (meson prefix_order.antisym)
      moreover have "strict_prefix p s" using pre [OF s] by (simp add: strict_prefix_def)
      ultimately show ?thesis using 3 s Some n by (auto simp: match_step)
    next
      case 4
      have step: "nn_trie_match t data = nn_trie_match (kid k c) rest" using 4 Some n by (simp add: match_step)
      note below = subscribed_below [where rest = rest and k = k and c = c and r = r and p = p, folded n Some 4(1)]
      have "length rest < length data" using 4 by simp
      from less.hyps [OF this twf_kid [OF tw]]
      have hyp: "case nn_trie_match (kid k c) rest of
           Inr v \<Rightarrow> v = (if \<exists>s. Sublist.prefix s rest \<and> cnt (kid k c) s \<noteq> 0 then 1 else 0)
         | Inl e \<Rightarrow> e = Out_Of_Bounds \<and> (\<nexists>s. Sublist.prefix s rest \<and> cnt (kid k c) s \<noteq> 0)
             \<and> (\<exists>s. strict_prefix rest s \<and> cnt (kid k c) s \<noteq> 0)" .
      have iff: "(\<exists>s. Sublist.prefix s data \<and> cnt t s \<noteq> 0) \<longleftrightarrow> (\<exists>s. Sublist.prefix s rest \<and> cnt (kid k c) s \<noteq> 0)"
        using below(1,2) 4(2) by blast
      show ?thesis unfolding step iff using hyp below(3) by (simp split: sum.splits)
    qed
  qed
qed

end
