(* ===== verification/Nn_Trie_Unsub.thy ===== *)
theory Nn_Trie_Unsub
  imports Nn_Trie_Props
begin

text \<open>
  Unsubscribing from the trie: pruning a child keeps the other subscriptions, and the count of the
  removed string goes down by one. The theory ends with the properties of the trie as a whole.
\<close>

section \<open>Dense arrays that lose a child\<close>

lemma first_child_bounds:
  "\<exists>n\<in>set arr. n \<noteq> None \<Longrightarrow> first_child arr < length arr" "\<forall>i<first_child arr. arr ! i = None"
proof -
  show "\<exists>n\<in>set arr. n \<noteq> None \<Longrightarrow> first_child arr < length arr"
    by (induction arr rule: first_child.induct) auto
  show "\<forall>i<first_child arr. arr ! i = None"
    by (induction arr rule: first_child.induct) (auto simp: nth_Cons split: nat.splits)
qed

lemma last_child_bounds:
  "last_child arr m \<le> m" "\<forall>i. last_child arr m < i \<and> i \<le> m \<longrightarrow> arr ! i = None"
proof -
  show "last_child arr m \<le> m" by (induction m) auto
  show "\<forall>i. last_child arr m < i \<and> i \<le> m \<longrightarrow> arr ! i = None"
    by (induction m) (auto simp: le_Suc_eq)
qed

lemma filter_drop_None: "\<forall>i<j. arr ! i = None \<Longrightarrow> j \<le> length arr \<Longrightarrow>
   length (filter (\<lambda>n. n \<noteq> None) (drop j arr)) = length (filter (\<lambda>n. n \<noteq> None) arr)"
proof -
  assume none: "\<forall>i<j. arr ! i = None" and j: "j \<le> length arr"
  have "filter (\<lambda>n. n \<noteq> None) (take j arr) = []"
    using none j by (auto simp: filter_empty_conv in_set_conv_nth)
  then show ?thesis by (metis append_Nil append_take_drop_id filter_append)
qed

lemma filter_take_None: "\<forall>i. j \<le> i \<and> i < length arr \<longrightarrow> arr ! i = None \<Longrightarrow>
   length (filter (\<lambda>n. n \<noteq> None) (take j arr)) = length (filter (\<lambda>n. n \<noteq> None) arr)"
proof -
  assume none: "\<forall>i. j \<le> i \<and> i < length arr \<longrightarrow> arr ! i = None"
  have "filter (\<lambda>n. n \<noteq> None) (drop j arr) = []"
    using none by (auto simp: filter_empty_conv in_set_conv_nth)
  then show ?thesis by (metis append_Nil2 append_take_drop_id filter_append)
qed

lemma dense_clear:
  assumes ok: "dense_ok mn mx arr" and c: "mn \<le> c" "c \<le> mx" and there: "arr ! unat (c - mn) \<noteq> None"
  shows "dense_ok mn mx (arr[unat (c - mn) := None])"
    and "kid (Dense mn mx nbr (arr[unat (c - mn) := None])) x = (if x = c then None else kid (Dense mn mx nbr' arr) x)"
    and "Suc (length (filter (\<lambda>n. n \<noteq> None) (arr[unat (c - mn) := None]))) = length (filter (\<lambda>n. n \<noteq> None) arr)"
proof -
  note i = dense_index [OF ok c]
  show "dense_ok mn mx (arr[unat (c - mn) := None])" using ok by (simp add: dense_ok_def)
  show "kid (Dense mn mx nbr (arr[unat (c - mn) := None])) x = (if x = c then None else kid (Dense mn mx nbr' arr) x)"
    using i c by (simp add: nth_list_update unat_minus_inj)
  show "Suc (length (filter (\<lambda>n. n \<noteq> None) (arr[unat (c - mn) := None]))) = length (filter (\<lambda>n. n \<noteq> None) arr)"
    using length_filter_update [OF i, of "\<lambda>n. n \<noteq> None" None] there by simp
qed

lemma trim_left:
  assumes ok: "dense_ok mn mx arr" and j: "j < length arr" "\<forall>i<j. arr ! i = None"
  shows "dense_ok (of_nat j + mn) mx (drop j arr)"
    and "kid (Dense (of_nat j + mn) mx nbr (drop j arr)) x = kid (Dense mn mx nbr' arr) x"
proof -
  note b = dense_byte [OF ok j(1), unfolded add.commute [of mn]]
  have len: "length arr = unat mx - unat mn + 1" "unat mn \<le> unat mx"
    using ok by (simp_all add: dense_ok_def unat_sub word_le_nat_alt)
  show ok': "dense_ok (of_nat j + mn) mx (drop j arr)"
    using b len j(1) unfolding dense_ok_def by (simp add: unat_sub b(4))
  show "kid (Dense (of_nat j + mn) mx nbr (drop j arr)) x = kid (Dense mn mx nbr' arr) x"
  proof (cases "of_nat j + mn \<le> x")
    case True
    then have x: "mn \<le> x" using b(1) by (rule order_trans [rotated])
    have "unat (x - mn) = j + unat (x - (of_nat j + mn))"
      using True x b(4) by (simp add: unat_sub word_le_nat_alt)
    moreover have "j \<le> length arr" using j(1) by simp
    ultimately show ?thesis using True x by simp
  next
    case False
    have "mn \<le> x \<Longrightarrow> unat (x - mn) < j" using False b(4) by (simp add: unat_sub word_le_nat_alt)
    with False j(2) show ?thesis by auto
  qed
qed

lemma trim_right:
  assumes ok: "dense_ok mn mx arr" and j: "j < length arr" "\<forall>i. j < i \<and> i < length arr \<longrightarrow> arr ! i = None"
  shows "dense_ok mn (of_nat j + mn) (take (j + 1) arr)"
    and "kid (Dense mn (of_nat j + mn) nbr (take (j + 1) arr)) x = kid (Dense mn mx nbr' arr) x"
proof -
  note b = dense_byte [OF ok j(1), unfolded add.commute [of mn]]
  show ok': "dense_ok mn (of_nat j + mn) (take (j + 1) arr)"
    using b j(1) unfolding dense_ok_def by (simp add: b(3))
  show "kid (Dense mn (of_nat j + mn) nbr (take (j + 1) arr)) x = kid (Dense mn mx nbr' arr) x"
  proof (cases "mn \<le> x")
    case x: True
    show ?thesis
    proof (cases "x \<le> of_nat j + mn")
      case True
      then have "unat (x - mn) \<le> j" using x b(4) by (simp add: unat_sub word_le_nat_alt)
      moreover have "x \<le> mx" using True b(2) by (rule order_trans)
      ultimately show ?thesis using True x by simp
    next
      case False
      then have "j < unat (x - mn)" using x b(4) by (simp add: unat_sub word_le_nat_alt)
      with False x j(2) dense_index [OF ok x] show ?thesis by auto
    qed
  qed simp
qed

lemma map_of_present:
  "b + length arr \<le> 256 \<Longrightarrow>
     map_of (present (of_nat b) arr) x = (if b \<le> unat x \<and> unat x < b + length arr then arr ! (unat x - b) else None)
     \<and> distinct (map fst (present (of_nat b) arr)) \<and> (\<forall>c\<in>fst ` set (present (of_nat b) arr). b \<le> unat c)
     \<and> length (present (of_nat b) arr) = length (filter (\<lambda>n. n \<noteq> None) arr)"
proof (induction arr arbitrary: b)
  case (Cons a arr)
  have b: "unat (of_nat b :: u8) = b" using Cons.prems by (simp add: unat_of_nat)
  have suc: "of_nat b + 1 = (of_nat (Suc b) :: u8)" by simp
  have x: "x = of_nat b \<longleftrightarrow> unat x = b" using b by (metis of_nat_unat ucast_id)
  note IH = Cons.IH [of "Suc b"]
  show ?case
  proof (cases a)
    case None
    with IH Cons.prems show ?thesis by (auto simp: suc nth_Cons' simp del: of_nat_Suc)
  next
    case (Some n)
    have "of_nat b \<notin> fst ` set (present (of_nat (Suc b)) arr)"
      using IH Cons.prems b by fastforce
    with Some IH Cons.prems b x show ?thesis by (auto simp: suc nth_Cons' simp del: of_nat_Suc)
  qed
qed auto

section \<open>Pruning\<close>

text \<open>A dense array with nine children becomes sparse when it loses one of them.\<close>

definition shrinks :: "nn_trie_children \<Rightarrow> bool" where
  "shrinks k \<longleftrightarrow> (case k of Sparse _ \<Rightarrow> False | Dense _ _ nbr _ \<Rightarrow> unat nbr = NN_TRIE_SPARSE_MAX + 1)"

text \<open>What pruning gives: the node without the child, or nothing.\<close>

definition pruned :: "u32 \<Rightarrow> nn_trie_children \<Rightarrow> u8 \<Rightarrow> u32 \<Rightarrow> nn_trie_children \<Rightarrow> bool" where
  "pruned r k c r' k' \<longleftrightarrow> r' = (if shrinks k then 0 else r) \<and> kids_ok r' k'
     \<and> (\<forall>x. kid k' x = (if x = c then None else kid k x))"

lemma map_of_remove_index:
  "distinct (map fst cs) \<Longrightarrow> sparse_index cs c = Some i \<Longrightarrow>
     map_of (take i cs @ drop (i + 1) cs) = (map_of cs)(c := None)"
proof (induction cs arbitrary: i)
  case (Cons a cs)
  obtain b n where a: "a = (b, n)" by fastforce
  show ?case
  proof (cases "b = c")
    case True
    then have "map_of cs c = None" using Cons.prems(1) a by (simp add: map_of_eq_None_iff)
    then show ?thesis using True Cons.prems a by auto
  next
    case False
    then obtain j where "i = Suc j" "sparse_index cs c = Some j" using Cons.prems(2) a by auto
    with Cons a False show ?thesis by (auto simp: fun_upd_twist)
  qed
qed simp

lemma prune_sparse:
  assumes ok: "kids_ok r (Sparse cs)" and there: "sparse_index cs c = Some i"
  shows "(\<exists>k'. prune (Node r p (Sparse cs)) c i = Inr (1, Some (nn_node_compact (Node r p k'))) \<and> pruned r (Sparse cs) c r k')
     \<or> (prune (Node r p (Sparse cs)) c i = Inr (1, None) \<and> r = 0 \<and> (\<forall>x. x \<noteq> c \<longrightarrow> map_of cs x = None))"
proof -
  let ?cs = "take i cs @ drop (i + 1) cs"
  have dist: "distinct (map fst cs)" "length cs \<le> NN_TRIE_SPARSE_MAX" using ok by (simp_all add: kids_ok_def)
  note rest = map_of_remove_index [OF dist(1) there]
  have i: "i < length cs" using sparse_index_Some [OF there] by simp
  have "distinct (map fst (take i cs @ cs ! i # drop (i + 1) cs))"
    using dist(1) id_take_nth_drop [OF i] by simp
  then have dist': "distinct (map fst ?cs)" by auto
  show ?thesis
  proof (cases "?cs = [] \<and> r = 0")
    case True
    then have e: "?cs = []" by blast
    from rest [unfolded e] have "(map_of cs)(c := None) = Map.empty" by simp
    then have "map_of cs x = None" if "x \<noteq> c" for x using that by (metis fun_upd_other)
    with True there show ?thesis
      by (auto simp: prune_def nn_node_has_subscribers_def Let_def)
  next
    case False
    have "kids_ok r (Sparse ?cs)" using False dist' dist(2) by (auto simp: kids_ok_def)
    then have "pruned r (Sparse cs) c r (Sparse ?cs)"
      unfolding pruned_def kid_Sparse rest by (simp add: shrinks_def)
    moreover have "prune (Node r p (Sparse cs)) c i = Inr (1, Some (nn_node_compact (Node r p (Sparse ?cs))))"
      using False there by (auto simp: prune_def nn_node_has_subscribers_def Let_def)
    ultimately show ?thesis by blast
  qed
qed


lemma prune_dense:
  assumes ok: "kids_ok r (Dense mn mx nbr arr)" and c: "mn \<le> c" "c \<le> mx" and there: "arr ! unat (c - mn) \<noteq> None"
  shows "\<exists>r' k'. prune (Node r p (Dense mn mx nbr arr)) c (unat (c - mn)) = Inr (1, Some (Node r' p k'))
     \<and> pruned r (Dense mn mx nbr arr) c r' k'"
proof -
  let ?k = "Dense mn mx nbr arr"
  define arr' where "arr' = arr[unat (c - mn) := None]"
  have d: "dense_ok mn mx arr" "unat nbr = length (filter (\<lambda>n. n \<noteq> None) arr)" "8 < unat nbr"
    using ok by (simp_all add: kids_ok_def NN_TRIE_SPARSE_MAX_def)
  note clr = dense_clear [OF d(1) c there, folded arr'_def]
  have nbr: "unat (nbr - 1) = length (filter (\<lambda>n. n \<noteq> None) arr')"
    using d(2,3) clr(3) by (simp add: unat_sub word_le_nat_alt)
  then have pos: "8 \<le> length (filter (\<lambda>n. n \<noteq> None) arr')" using d(2,3) clr(3) by linarith
  have some: "\<exists>n\<in>set arr'. n \<noteq> None"
  proof (rule ccontr)
    assume "\<not> (\<exists>n\<in>set arr'. n \<noteq> None)"
    then have "filter (\<lambda>n. n \<noteq> None) arr' = []" by (simp add: filter_empty_conv)
    with pos show False by simp
  qed
  note run = prune_def Let_def arr'_def [symmetric] nn_trie_node.sel nn_trie_children.case NN_TRIE_SPARSE_MAX_def
  consider "unat nbr = 9" | "9 < unat nbr" "c = mn" | "9 < unat nbr" "c \<noteq> mn" "c = mx"
    | "9 < unat nbr" "c \<noteq> mn" "c \<noteq> mx" using d(3) by linarith
  then show ?thesis
  proof cases
    case 1
    have len: "length arr' = unat mx - unat mn + 1" "unat mn \<le> unat mx" "unat mx < 256"
      using clr(1) unsigned_less [of mx, where 'a = nat] by (simp_all add: dense_ok_def unat_sub word_le_nat_alt)
    then have "unat mn + length arr' \<le> 256" by simp
    from map_of_present [OF this] have pr: "\<And>x. map_of (present mn arr') x =
          (if unat mn \<le> unat x \<and> unat x < unat mn + length arr' then arr' ! (unat x - unat mn) else None)"
        "distinct (map fst (present mn arr'))" "length (present mn arr') = length (filter (\<lambda>n. n \<noteq> None) arr')"
      by simp_all
    have m: "map_of (present mn arr') x = kid (Dense mn mx nbr arr') x" for x
      unfolding pr(1) kid_Dense using len by (auto simp: word_le_nat_alt unat_sub)
    have eight: "length (present mn arr') = 8" using pr(3) clr(3) d(2) 1 by linarith
    have "kids_ok 0 (Sparse (present mn arr'))"
      using pr(2) eight by (auto simp: kids_ok_def NN_TRIE_SPARSE_MAX_def)
    then have "pruned r ?k c 0 (Sparse (present mn arr'))"
      unfolding pruned_def kid_Sparse m clr(2) [where nbr' = nbr] using 1 by (simp add: shrinks_def NN_TRIE_SPARSE_MAX_def)
    moreover have "prune (Node r p ?k) c (unat (c - mn)) = Inr (1, Some (Node 0 p (Sparse (present mn arr'))))"
      unfolding run using eight 1 by simp
    ultimately show ?thesis by blast
  next
    case 2
    let ?j = "first_child arr'"
    note j = first_child_bounds(1) [OF some] first_child_bounds(2) [of arr']
    note tr = trim_left [OF clr(1) j]
    let ?k' = "Dense (of_nat ?j + mn) mx (nbr - 1) (drop ?j arr')"
    have "kids_ok r ?k'"
      using tr(1) nbr pos filter_drop_None [OF j(2)] j(1) 2(1) d(3) clr(3) d(2)
      by (simp add: kids_ok_def NN_TRIE_SPARSE_MAX_def)
    then have "pruned r ?k c r ?k'"
      unfolding pruned_def tr(2) [where nbr' = nbr] clr(2) [where nbr' = nbr] using 2
      by (simp add: shrinks_def NN_TRIE_SPARSE_MAX_def)
    moreover have "prune (Node r p ?k) c (unat (c - mn)) = Inr (1, Some (Node r p ?k'))"
      unfolding run using 2 by simp
    ultimately show ?thesis by blast
  next
    case 3
    let ?j = "last_child arr' (unat (mx - mn))"
    have len: "length arr' = unat (mx - mn) + 1" using clr(1) by (simp add: dense_ok_def)
    have j: "?j < length arr'" "\<forall>i. ?j < i \<and> i < length arr' \<longrightarrow> arr' ! i = None"
      using last_child_bounds [of arr' "unat (mx - mn)"] len by auto
    note tr = trim_right [OF clr(1) j]
    let ?k' = "Dense mn (of_nat ?j + mn) (nbr - 1) (take (?j + 1) arr')"
    have "\<forall>i. ?j + 1 \<le> i \<and> i < length arr' \<longrightarrow> arr' ! i = None" using j(2) by auto
    from filter_take_None [OF this] have "kids_ok r ?k'"
      using tr(1) nbr pos 3(1) d(2,3) clr(3) by (simp add: kids_ok_def NN_TRIE_SPARSE_MAX_def)
    then have "pruned r ?k c r ?k'"
      unfolding pruned_def tr(2) [where nbr' = nbr] clr(2) [where nbr' = nbr] using 3
      by (simp add: shrinks_def NN_TRIE_SPARSE_MAX_def)
    moreover have "prune (Node r p ?k) c (unat (c - mn)) = Inr (1, Some (Node r p ?k'))"
      unfolding run using 3 by simp
    ultimately show ?thesis by blast
  next
    case 4
    let ?k' = "Dense mn mx (nbr - 1) arr'"
    have "kids_ok r ?k'" using clr(1,3) nbr d(2) 4(1) by (simp add: kids_ok_def NN_TRIE_SPARSE_MAX_def)
    then have "pruned r ?k c r ?k'"
      unfolding pruned_def clr(2) [where nbr' = nbr] using 4 by (simp add: shrinks_def NN_TRIE_SPARSE_MAX_def)
    moreover have "prune (Node r p ?k) c (unat (c - mn)) = Inr (1, Some (Node r p ?k'))"
      unfolding run using 4 by simp
    ultimately show ?thesis by blast
  qed
qed


lemma pruned_node:
  assumes tw: "twf (Node r p k)" and pr: "pruned r k c r' k'"
  shows "twf (Node r' p k')"
    and "cnt (Some (Node r' p k')) s = (if \<exists>s'. s = p @ c # s' then 0 else if s = p \<and> shrinks k then 0 else cnt (Some (Node r p k)) s)"
proof -
  have k': "\<And>x. kid k' x = (if x = c then None else kid k x)" "kids_ok r' k'" "r' = (if shrinks k then 0 else r)"
    using pr by (auto simp: pruned_def)
  show "twf (Node r' p k')" using tw k'(1,2) by (auto simp: twf_Node split: if_splits)
  show "cnt (Some (Node r' p k')) s = (if \<exists>s'. s = p @ c # s' then 0 else if s = p \<and> shrinks k then 0 else cnt (Some (Node r p k)) s)"
    by (rule prefix_cases [of p s]) (use k' in auto)
qed

lemma prune_node:
  assumes tw: "twf (Node r p k)" and i: "nn_node_next k c = Some i" "nn_node_child k i = Some n"
  shows "\<exists>t'. prune (Node r p k) c i = Inr (1, t') \<and> (\<forall>m. t' = Some m \<longrightarrow> twf m)
     \<and> (t' = None \<longrightarrow> \<not> shrinks k)
     \<and> (\<forall>s. cnt t' s = (if \<exists>s'. s = p @ c # s' then 0 else if s = p \<and> shrinks k then 0 else cnt (Some (Node r p k)) s))"
proof (cases k)
  case (Sparse cs)
  have ok: "kids_ok r (Sparse cs)" using tw Sparse by (simp add: twf_Node)
  have ix: "sparse_index cs c = Some i" using i(1) Sparse by simp
  from prune_sparse [OF ok ix, of p] show ?thesis
  proof
    assume "\<exists>k'. prune (Node r p (Sparse cs)) c i = Inr (1, Some (nn_node_compact (Node r p k'))) \<and> pruned r (Sparse cs) c r k'"
    then obtain k' where k': "prune (Node r p k) c i = Inr (1, Some (nn_node_compact (Node r p k')))" "pruned r k c r k'"
      using Sparse by blast
    note node = pruned_node [OF tw k'(2)]
    show ?thesis
      by (rule exI [of _ "Some (nn_node_compact (Node r p k'))"]) (use k'(1) node twf_compact in auto)
  next
    assume e: "prune (Node r p (Sparse cs)) c i = Inr (1, None) \<and> r = 0 \<and> (\<forall>x. x \<noteq> c \<longrightarrow> map_of cs x = None)"
    have "cnt (Some (Node r p k)) s = 0" if "\<nexists>s'. s = p @ c # s'" for s
      by (rule prefix_cases [of p s]) (use e that Sparse in auto)
    moreover have "prune (Node r p k) c i = Inr (1, None)" using e Sparse by blast
    ultimately show ?thesis using Sparse by (intro exI [of _ None]) (simp add: shrinks_def)
  qed
next
  case (Dense mn mx nbr arr)
  have ok: "kids_ok r (Dense mn mx nbr arr)" using tw Dense by (simp add: twf_Node)
  have c: "mn \<le> c" "c \<le> mx" "i = unat (c - mn)" using i(1) Dense by (auto split: if_splits)
  have "arr ! unat (c - mn) \<noteq> None" using i(2) Dense c(3) by simp
  from prune_dense [OF ok c(1,2) this, of p] obtain r' k' where
    k': "prune (Node r p k) c i = Inr (1, Some (Node r' p k'))" "pruned r k c r' k'"
    unfolding Dense c(3) by blast
  show ?thesis
    by (rule exI [of _ "Some (Node r' p k')"]) (use k'(1) pruned_node [OF tw k'(2)] in auto)
qed

section \<open>Unsubscribing\<close>

text \<open>
  The string whose subscriptions are lost on the way: that of a node that goes back from a dense to a
  sparse array, which happens when it loses its ninth child.
\<close>

function lost_unsub :: "nn_trie \<Rightarrow> u8 list \<Rightarrow> u8 list option" where
  "lost_unsub None data = None"
| "lost_unsub (Some (Node r p k)) data =
     (if take (length p) data = p then
        (case drop (length p) data of
           [] \<Rightarrow> None
         | c # rest \<Rightarrow>
             (case nn_node_unsubscribe (kid k c) rest of
                Inr (_, None) \<Rightarrow> if shrinks k then Some p else None
              | _ \<Rightarrow> map_option (\<lambda>s. p @ c # s) (lost_unsub (kid k c) rest)))
      else None)"
  by pat_completeness auto
termination by (relation "measure (\<lambda>(n, s). length s)") (auto dest: drop_Cons_less [OF sym])

declare lost_unsub.simps(2) [simp del]

lemma lost_unsub_end [simp]: "lost_unsub (Some (Node r p k)) p = None"
  by (simp add: lost_unsub.simps)

lemma lost_unsub_step:
  "lost_unsub (Some (Node r p k)) (p @ c # rest) =
     (case nn_node_unsubscribe (kid k c) rest of
        Inr (_, None) \<Rightarrow> if shrinks k then Some p else None
      | _ \<Rightarrow> map_option (\<lambda>s. p @ c # s) (lost_unsub (kid k c) rest))"
  by (simp add: lost_unsub.simps)

definition counts_without :: "nn_trie_node \<Rightarrow> u8 list \<Rightarrow> nn_trie \<Rightarrow> bool" where
  "counts_without n data t \<longleftrightarrow> (\<forall>s. cnt t s =
     (if s = data then cnt (Some n) s - 1 else if lost_unsub (Some n) data = Some s then 0 else cnt (Some n) s))"

lemma unsub_end:
  assumes tw: "twf (Node r p k)" and r: "r \<noteq> 0"
  shows "\<exists>t. nn_node_unsubscribe (Some (Node r p k)) p = Inr (if r = 1 then 1 else 0, t)
     \<and> (\<forall>m. t = Some m \<longrightarrow> twf m) \<and> counts_without (Node r p k) p t"
proof -
  have found: "nn_node_unsubscribe (Some (Node r p k)) p = Inr (unsub_found (Some (Node r p k)))"
    by (subst nn_node_unsubscribe.simps) (simp add: check_prefix_full)
  have less: "cnt (Some (Node (r - 1) p k)) s = (if s = p then r - 1 else cnt (Some (Node r p k)) s)" for s
    by (rule prefix_cases [of p s]) auto
  consider "r = 1" "node_type k = 0" | "r = 1" "node_type k \<noteq> 0" | "r \<noteq> 1" by blast
  then show ?thesis
  proof cases
    case 1
    then have "k = Sparse []" by (cases k) (auto simp: trie_consts)
    then have "cnt (Some (Node r p k)) s = 0" if "s \<noteq> p" for s
      by (rule_tac prefix_cases [of p s]) (use that in auto)
    with 1 show ?thesis
      unfolding found counts_without_def by (auto simp: unsub_found_def nn_node_has_subscribers_def Let_def)
  next
    case 2
    have "twf (Node 0 p k)" using tw 2(2) by (auto simp: twf_Node kids_ok_def split: nn_trie_children.splits)
    with 2 less show ?thesis
      unfolding found counts_without_def
      by (auto simp: unsub_found_def nn_node_has_subscribers_def Let_def intro: twf_compact)
  next
    case 3
    have "twf (Node (r - 1) p k)"
      using tw 3 by (auto simp: twf_Node kids_ok_def split: nn_trie_children.splits)
    with 3 r less show ?thesis
      unfolding found counts_without_def by (auto simp: unsub_found_def nn_node_has_subscribers_def Let_def)
  qed
qed


lemma unsub_step:
  assumes "nn_node_next k c = Some i" and "nn_node_child k i = Some n"
  shows "nn_node_unsubscribe (Some (Node r p k)) (p @ c # rest) =
     (case nn_node_unsubscribe (Some n) rest of
        Inl e \<Rightarrow> Inl e
      | Inr (rc, None) \<Rightarrow> if rc = 0 then Inr (0, Some (Node r p k)) else prune (Node r p k) c i
      | Inr (rc, Some ch) \<Rightarrow> Inr (if rc = 0 then 0 else 1, Some (Node r p (put_child k i ch))))"
  using assms by (subst nn_node_unsubscribe.simps) (simp add: check_prefix_full split: sum.split option.split)

lemma prune_None: "prune (Node r p k) c i = Inr (rc, None) \<Longrightarrow> \<not> shrinks k"
  by (cases k) (auto simp: prune_def shrinks_def Let_def split: if_splits)

lemma kid_index:
  assumes "kid k c = Some n"
  obtains i where "nn_node_next k c = Some i" "nn_node_child k i = Some n"
  using assms by (auto simp: kid_def split: option.splits)

text \<open>A node that disappears was no place of a conversion.\<close>

lemma vanish_lost:
  assumes "nn_node_unsubscribe (Some n) data = Inr (rc, None)" and "cnt (Some n) data \<noteq> 0"
  shows "lost_unsub (Some n) data = None"
proof -
  obtain r p k where n: "n = Node r p k" by (cases n)
  consider "data = p" | c rest where "data = p @ c # rest"
    by (rule prefix_cases [of p data]) (use assms(2) n in auto)
  then show ?thesis
  proof cases
    case 2
    then obtain m where m: "kid k c = Some m" using assms(2) n by (cases "kid k c") auto
    then obtain i where i: "nn_node_next k c = Some i" "nn_node_child k i = Some m" by (rule kid_index)
    obtain rc' where "nn_node_unsubscribe (Some m) rest = Inr (rc', None)" "prune (Node r p k) c i = Inr (rc, None)"
      using assms(1) unfolding n 2 unsub_step [OF i] by (auto split: sum.splits option.splits if_splits)
    then show ?thesis using n 2 m prune_None by (auto simp: lost_unsub_step)
  qed (use n in simp)
qed

lemma unsub_child_gone:
  assumes tw: "twf (Node r p k)" and i: "nn_node_next k c = Some i" "nn_node_child k i = Some n"
    and gone: "nn_node_unsubscribe (Some n) rest = Inr (1, None)" "cnt (Some n) rest = 1" "counts_without n rest None"
  shows "\<exists>t. nn_node_unsubscribe (Some (Node r p k)) (p @ c # rest) = Inr (1, t)
     \<and> (\<forall>m. t = Some m \<longrightarrow> twf m) \<and> counts_without (Node r p k) (p @ c # rest) t"
proof -
  have kid: "kid k c = Some n" using i by (simp add: kid_def)
  obtain t where t: "prune (Node r p k) c i = Inr (1, t)" "\<forall>m. t = Some m \<longrightarrow> twf m"
      "\<And>s. cnt t s = (if \<exists>s'. s = p @ c # s' then 0 else if s = p \<and> shrinks k then 0 else cnt (Some (Node r p k)) s)"
    using prune_node [OF tw i] by blast
  have "lost_unsub (Some n) rest = None" using vanish_lost [OF gone(1)] gone(2) by simp
  then have zero: "cnt (Some n) s = 0" if "s \<noteq> rest" for s
    using gone(3) [unfolded counts_without_def, rule_format, of s] that by simp
  have lost: "lost_unsub (Some (Node r p k)) (p @ c # rest) = (if shrinks k then Some p else None)"
    using kid gone(1) by (simp add: lost_unsub_step)
  have "counts_without (Node r p k) (p @ c # rest) t"
    unfolding counts_without_def lost t(3) using zero gone(2) kid by (auto intro: ccontr)
  then show ?thesis using t(1,2) gone(1) unfolding unsub_step [OF i] by simp
qed

lemma unsub_child_stays:
  assumes tw: "twf (Node r p k)" and i: "nn_node_next k c = Some i" "nn_node_child k i = Some n"
    and stays: "nn_node_unsubscribe (Some n) rest = Inr (rc, Some n')" "twf n'" "counts_without n rest (Some n')"
    and rc: "rc = 0 \<or> rc = 1"
  shows "\<exists>t. nn_node_unsubscribe (Some (Node r p k)) (p @ c # rest) = Inr (rc, t)
     \<and> (\<forall>m. t = Some m \<longrightarrow> twf m) \<and> counts_without (Node r p k) (p @ c # rest) t"
proof -
  have ok: "kids_ok r k" using tw by (simp add: twf_Node)
  have kid: "kid k c = Some n" using i by (simp add: kid_def)
  note put = kid_put_child [OF ok i, of n']
  have "twf (Node r p (put_child k i n'))"
    using tw stays(2) kids_ok_put_child [OF ok i, of n'] by (auto simp: twf_Node put)
  moreover have "counts_without (Node r p k) (p @ c # rest) (Some (Node r p (put_child k i n')))"
    unfolding counts_without_def
  proof
    fix s
    have lost: "lost_unsub (Some (Node r p k)) (p @ c # rest) = map_option (\<lambda>s. p @ c # s) (lost_unsub (Some n) rest)"
      using kid stays(1) by (simp add: lost_unsub_step)
    show "cnt (Some (Node r p (put_child k i n'))) s = (if s = p @ c # rest then cnt (Some (Node r p k)) s - 1
        else if lost_unsub (Some (Node r p k)) (p @ c # rest) = Some s then 0 else cnt (Some (Node r p k)) s)"
      unfolding lost
      by (rule prefix_cases [of p s]) (use stays(3) kid in \<open>auto simp: counts_without_def put\<close>)
  qed
  ultimately show ?thesis using stays(1) rc unfolding unsub_step [OF i] by auto
qed

lemma unsub_counts:
  assumes "twf n" and "cnt (Some n) data \<noteq> 0"
  shows "\<exists>t. nn_node_unsubscribe (Some n) data = Inr (if cnt (Some n) data = 1 then 1 else 0, t)
     \<and> (\<forall>m. t = Some m \<longrightarrow> twf m) \<and> counts_without n data t"
  using assms
proof (induction "length data" arbitrary: n data rule: less_induct)
  case less
  obtain r p k where n: "n = Node r p k" by (cases n)
  have tw: "twf (Node r p k)" using less.prems(1) n by simp
  consider "data = p" | c rest where "data = p @ c # rest"
    by (rule prefix_cases [of p data]) (use less.prems(2) n in auto)
  then show ?case
  proof cases
    case 1
    then show ?thesis using unsub_end [OF tw] less.prems(2) n by simp
  next
    case 2
    then obtain m where m: "kid k c = Some m" using less.prems(2) n by (cases "kid k c") auto
    then obtain i where i: "nn_node_next k c = Some i" "nn_node_child k i = Some m" by (rule kid_index)
    have cm: "cnt (Some n) data = cnt (Some m) rest" using n 2 m by simp
    have "length rest < length data" using 2 by simp
    from less.hyps [OF this twf_kid [OF tw m]] obtain t where
      t: "nn_node_unsubscribe (Some m) rest = Inr (if cnt (Some m) rest = 1 then 1 else 0, t)"
        "\<forall>m. t = Some m \<longrightarrow> twf m" "counts_without m rest t"
      using less.prems(2) cm by auto
    show ?thesis
    proof (cases t)
      case None
      have "cnt (Some m) rest - 1 = 0"
        using t(3) [unfolded counts_without_def None, rule_format, of rest] by simp
      then have one: "cnt (Some m) rest = 1" by simp
      then show ?thesis using unsub_child_gone [OF tw i _ one] t None n 2 cm by simp
    next
      case (Some m')
      then show ?thesis using unsub_child_stays [OF tw i, of rest _ m'] t n 2 cm by simp
    qed
  qed
qed


section \<open>The properties of the trie\<close>

definition trie_ok :: "nn_trie \<Rightarrow> bool" where
  "trie_ok t \<longleftrightarrow> (\<forall>n. t = Some n \<longrightarrow> twf n)"

text \<open>
  Property C12. Subscribing adds one to the count of the string and changes the count of no other string,
  but for one case: when a node with eight children gets a ninth one, the subscriptions to that
  node's own string (\<open>lost\<close>) are dropped. The code is 1 exactly for a string that was not subscribed.
  The trie stays well-formed, and no assertion fails, unless the count of the string overflows.
\<close>
theorem trie_subscribe_correct:
  assumes "trie_ok t" and "cnt t data + 1 \<noteq> 0"
  shows "\<exists>t'. nn_trie_subscribe t data = Inr (if cnt t data = 0 then 1 else 0, t') \<and> trie_ok t'
     \<and> (\<forall>s. cnt t' s = (if s = data then cnt t s + 1 else if lost t data = Some s then 0 else cnt t s))"
proof (cases t)
  case None
  then show ?thesis by (simp add: nn_trie_subscribe_def trie_ok_def new_nodes_twf new_nodes_cnt)
next
  case (Some n)
  have one: "x + 1 = 1 \<longleftrightarrow> x = 0" for x :: u32 by (metis add.commute add_cancel_right_right)
  have "twf n" using assms(1) Some by (simp add: trie_ok_def)
  from node_subscribe_counts [OF this] obtain n' where
    "node_subscribe n data = Inr (if cnt t data = 0 then 1 else 0, n')" "twf n'" "counts_after n data n'"
    using assms(2) Some one by auto
  then show ?thesis
    using Some by (intro exI [of _ "Some n'"]) (simp add: nn_trie_subscribe_def trie_ok_def counts_after_def)
qed

text \<open>Two subscriptions with a common prefix.\<close>

definition two_topics :: nn_trie where
  "two_topics = Some (Node 0 [97] (Sparse [(98, Node 1 [] (Sparse [])), (99, Node 2 [] (Sparse []))]))"

lemma two_topics_ok: "trie_ok two_topics" "cnt two_topics [97, 98] = 1" "cnt two_topics [97, 99] = 2"
  by (auto simp: two_topics_def trie_ok_def cnt.simps(2) twf_Node kids_ok_def trie_consts split: if_splits)

theorem trie_subscribe_correct_witness:
  "\<exists>t. nn_trie_subscribe two_topics [97, 99] = Inr (0, t) \<and> cnt t [97, 99] = 3 \<and> cnt t [97, 98] = 1"
  using trie_subscribe_correct [of two_topics "[97, 99]"] two_topics_ok
  by (auto simp: two_topics_def lost.simps(2))

text \<open>
  Property C11. Unsubscribing a string that is subscribed takes one from its count and changes the count of
  no other string, but for one case: when a node with nine children loses one, the subscriptions to
  that node's own string (\<open>lost_unsub\<close>) are dropped. The code is 1 exactly when the last subscription
  to the string goes away. The trie stays well-formed and no assertion fails.
\<close>
theorem trie_unsubscribe_correct:
  assumes "trie_ok t" and "cnt t data \<noteq> 0"
  shows "\<exists>t'. nn_trie_unsubscribe t data = Inr (if cnt t data = 1 then 1 else 0, t') \<and> trie_ok t'
     \<and> (\<forall>s. cnt t' s = (if s = data then cnt t s - 1 else if lost_unsub t data = Some s then 0 else cnt t s))"
proof (cases t)
  case None
  with assms show ?thesis by simp
next
  case (Some n)
  with assms have "twf n" "cnt (Some n) data \<noteq> 0" by (simp_all add: trie_ok_def)
  from unsub_counts [OF this] show ?thesis
    unfolding Some nn_trie_unsubscribe_def trie_ok_def counts_without_def .
qed

theorem trie_unsubscribe_correct_witness:
  "\<exists>t. nn_trie_unsubscribe two_topics [97, 98] = Inr (1, t) \<and> trie_ok t \<and> cnt t [97, 98] = 0"
  using trie_unsubscribe_correct [of two_topics "[97, 98]"] two_topics_ok by auto

text \<open>
  Property C10. Matching computes the specification: the result is 1 when some subscribed string is a prefix of
  the data and 0 otherwise. The one exception is data that is itself a proper prefix of a
  subscription and has no subscribed prefix: then the function may read the byte behind the end.
\<close>
theorem trie_match_correct:
  assumes "trie_ok t"
  shows "case nn_trie_match t data of
       Inr v \<Rightarrow> v = (if \<exists>s. Sublist.prefix s data \<and> cnt t s \<noteq> 0 then 1 else 0)
     | Inl e \<Rightarrow> e = Out_Of_Bounds \<and> (\<nexists>s. Sublist.prefix s data \<and> cnt t s \<noteq> 0)
         \<and> (\<exists>s. strict_prefix data s \<and> cnt t s \<noteq> 0)"
  using match_correct [of t data] assms by (simp add: trie_ok_def)

theorem trie_match_correct_witness:
  "trie_ok two_topics \<and> nn_trie_match two_topics [97, 99, 100] = Inr 1 \<and> nn_trie_match two_topics [97, 100] = Inr 0"
proof -
  have "nn_trie_match two_topics [97, 99, 100] \<noteq> Inl Out_Of_Bounds" "nn_trie_match two_topics [97, 99, 100] \<noteq> Inr 0"
    and "nn_trie_match two_topics [97, 100] = Inr 0"
    by (simp_all add: two_topics_def nn_trie_match.simps nn_node_has_subscribers_def)
  with two_topics_ok(1) trie_match_correct [OF two_topics_ok(1), of "[97, 99, 100]"] show ?thesis
    by (auto split: sum.splits if_splits)
qed

text \<open>The trie after a list of subscriptions.\<close>

fun subscribe_all :: "nn_trie \<Rightarrow> u8 list list \<Rightarrow> nn_trie c_result" where
  "subscribe_all t [] = Inr t"
| "subscribe_all t (d # ds) = (case nn_trie_subscribe t d of Inl e \<Rightarrow> Inl e | Inr (_, t) \<Rightarrow> subscribe_all t ds)"

text \<open>
  Three deviations of the trie on concrete inputs. A subscription to everything is lost as soon as
  nine subscriptions with different first bytes follow, and messages no longer match. Unsubscribing
  the empty string, which nobody subscribed, removes the subscription to \<open>[1, 2, 3]\<close> and reports
  success. Matching the message \<open>[1]\<close> against subscriptions to \<open>[1, 2]\<close> and \<open>[1, 3]\<close> reads behind its end.
\<close>
lemma trie_deviations:
  "(case subscribe_all nn_trie_init [[], [1], [2], [3], [4], [5], [6], [7], [8], [9]] of
      Inr t \<Rightarrow> nn_trie_match t [77] = Inr 0 | Inl _ \<Rightarrow> False)
   \<and> (case subscribe_all nn_trie_init [[1, 2, 3]] of
        Inr t \<Rightarrow> nn_trie_unsubscribe t [] = Inr (1, None) | Inl _ \<Rightarrow> False)
   \<and> (case subscribe_all nn_trie_init [[1, 2], [1, 3]] of
        Inr t \<Rightarrow> nn_trie_match t [1] = Inl Out_Of_Bounds | Inl _ \<Rightarrow> False)"
  by (intro conjI; code_simp)

end
