(* ===== verification/Nn_Protocols.thy ===== *)
theory Nn_Protocols
  imports Nn_Prio Nn_Dist Nn_Trie_Unsub
begin

text \<open>
  The raw protocols of \<open>nanomsg/src/protocols/\<close> that are built from the pipe schedulers: \<open>xpush.c\<close> and
  \<open>xpull.c\<close> (load balancer, fair queue), \<open>xpub.c\<close> (distributor), \<open>xsub.c\<close> (fair queue and subscription
  trie) and \<open>xbus.c\<close> (distributor and fair queue). The data that \<open>nn_pipe_setdata\<close> attaches to a pipe
  is a map from pipes to addresses; the address of new data and the priority that \<open>nn_pipe_getopt\<close>
  gives are arguments.
\<close>

section \<open>Receiving a message from the fair queue\<close>

text \<open>
  What a pipe answers when it is asked for a message in a given heap: the code of the transport, the
  message, and the heap with the message in it.
\<close>

type_synonym turn = "addr \<Rightarrow> heap \<Rightarrow> (int \<times> bool) \<times> nn_msg \<times> heap"

text \<open>\<open>nn_fq_recv\<close> with the message it fills in.\<close>

definition fq_recv_msg ::
  "turn \<Rightarrow> prio_mem \<Rightarrow> pipes \<Rightarrow> heap \<Rightarrow> nn_fq \<Rightarrow> (int \<times> (addr \<times> nn_msg) option \<times> heap \<times> pipes \<times> nn_fq) c_result" where
  "fq_recv_msg t mem ps H fq =
     (case nn_fq_recv (\<lambda>p. fst (t p H)) mem ps fq of
        Inl e \<Rightarrow> Inl e
      | Inr (rc, None, ps, fq) \<Rightarrow> Inr (rc, None, H, ps, fq)
      | Inr (rc, Some p, ps, fq) \<Rightarrow> Inr (rc, Some (p, fst (snd (t p H))), snd (snd (t p H)), ps, fq))"

section \<open>PUSH and PULL\<close>

record nn_xpush =
  xh_lb :: nn_lb
  xh_mem :: prio_mem
  xh_data :: "addr \<rightharpoonup> addr"

definition nn_xpush_init :: nn_xpush where
  "nn_xpush_init = \<lparr>xh_lb = nn_lb_init, xh_mem = (\<lambda>_. \<lparr>dpipe = 0, dprio = 0\<rparr>), xh_data = Map.empty\<rparr>"

definition nn_xpush_term :: "nn_xpush \<Rightarrow> unit c_result" where
  "nn_xpush_term self = nn_lb_term (xh_lb self)"

definition nn_xpush_add :: "int \<Rightarrow> addr \<Rightarrow> nn_xpush \<Rightarrow> addr \<Rightarrow> (int \<times> nn_xpush) c_result" where
  "nn_xpush_add sndprio data self pipe =
     (if \<not> (sndprio \<ge> 1 \<and> sndprio \<le> 16) then Inl Assertion
      else Inr (0, self\<lparr>xh_data := (xh_data self)(pipe \<mapsto> data), xh_mem := nn_lb_add (xh_mem self) data pipe sndprio\<rparr>))"

text \<open>The second result is the change of the statistic \<open>NN_STAT_CURRENT_SND_PRIORITY\<close>.\<close>

definition nn_xpush_rm :: "nn_xpush \<Rightarrow> addr \<Rightarrow> (nn_xpush \<times> int) c_result" where
  "nn_xpush_rm self pipe =
     (case xh_data self pipe of
        None \<Rightarrow> Inl Null_Pointer
      | Some data \<Rightarrow>
          let lb = nn_lb_rm (xh_mem self) (xh_lb self) data
          in Inr (self\<lparr>xh_lb := lb\<rparr>, nn_lb_get_priority lb))"

definition nn_xpush_out :: "nn_xpush \<Rightarrow> addr \<Rightarrow> (nn_xpush \<times> int) c_result" where
  "nn_xpush_out self pipe =
     (case xh_data self pipe of
        None \<Rightarrow> Inl Null_Pointer
      | Some data \<Rightarrow>
          (case nn_lb_out (xh_mem self) (xh_lb self) data of
             Inl e \<Rightarrow> Inl e
           | Inr lb \<Rightarrow> Inr (self\<lparr>xh_lb := lb\<rparr>, nn_lb_get_priority lb)))"

definition nn_xpush_events :: "nn_xpush \<Rightarrow> int" where
  "nn_xpush_events self = (if nn_lb_can_send (xh_lb self) then NN_SOCKBASE_EVENT_OUT else 0)"

definition nn_xpush_send ::
  "(addr \<Rightarrow> int \<times> bool) \<Rightarrow> pipes \<Rightarrow> nn_xpush \<Rightarrow> (int \<times> addr option \<times> pipes \<times> nn_xpush) c_result" where
  "nn_xpush_send tsend ps self =
     (case nn_lb_send tsend (xh_mem self) ps (xh_lb self) of
        Inl e \<Rightarrow> Inl e | Inr (rc, to, ps, lb) \<Rightarrow> Inr (rc, to, ps, self\<lparr>xh_lb := lb\<rparr>))"

definition nn_xpush_ispeer :: "int \<Rightarrow> int" where
  "nn_xpush_ispeer socktype = (if socktype = 5 * 16 + 1 then 1 else 0)"

record nn_xpull =
  xl_fq :: nn_fq
  xl_mem :: prio_mem
  xl_data :: "addr \<rightharpoonup> addr"

definition nn_xpull_init :: nn_xpull where
  "nn_xpull_init = \<lparr>xl_fq = nn_fq_init, xl_mem = (\<lambda>_. \<lparr>dpipe = 0, dprio = 0\<rparr>), xl_data = Map.empty\<rparr>"

definition nn_xpull_term :: "nn_xpull \<Rightarrow> unit c_result" where
  "nn_xpull_term self = nn_fq_term (xl_fq self)"

definition nn_xpull_add :: "int \<Rightarrow> addr \<Rightarrow> nn_xpull \<Rightarrow> addr \<Rightarrow> (int \<times> nn_xpull) c_result" where
  "nn_xpull_add rcvprio data self pipe =
     (if \<not> (rcvprio \<ge> 1 \<and> rcvprio \<le> 16) then Inl Assertion
      else Inr (0, self\<lparr>xl_data := (xl_data self)(pipe \<mapsto> data), xl_mem := nn_fq_add (xl_mem self) data pipe rcvprio\<rparr>))"

definition nn_xpull_rm :: "nn_xpull \<Rightarrow> addr \<Rightarrow> nn_xpull c_result" where
  "nn_xpull_rm self pipe =
     (case xl_data self pipe of
        None \<Rightarrow> Inl Null_Pointer
      | Some data \<Rightarrow> Inr (self\<lparr>xl_fq := nn_fq_rm (xl_mem self) (xl_fq self) data\<rparr>))"

definition nn_xpull_in :: "nn_xpull \<Rightarrow> addr \<Rightarrow> nn_xpull c_result" where
  "nn_xpull_in self pipe =
     (case xl_data self pipe of
        None \<Rightarrow> Inl Null_Pointer
      | Some data \<Rightarrow>
          (case nn_fq_in (xl_mem self) (xl_fq self) data of Inl e \<Rightarrow> Inl e | Inr fq \<Rightarrow> Inr (self\<lparr>xl_fq := fq\<rparr>)))"

definition nn_xpull_events :: "nn_xpull \<Rightarrow> int" where
  "nn_xpull_events self = (if nn_fq_can_recv (xl_fq self) then NN_SOCKBASE_EVENT_IN else 0)"

definition nn_xpull_recv ::
  "turn \<Rightarrow> pipes \<Rightarrow> heap \<Rightarrow> nn_xpull \<Rightarrow> (int \<times> nn_msg option \<times> heap \<times> pipes \<times> nn_xpull) c_result" where
  "nn_xpull_recv t ps H self =
     (case fq_recv_msg t (xl_mem self) ps H (xl_fq self) of
        Inl e \<Rightarrow> Inl e
      | Inr (rc, msg, H, ps, fq) \<Rightarrow> Inr (if rc < 0 then rc else 0, map_option snd msg, H, ps, self\<lparr>xl_fq := fq\<rparr>))"

definition nn_xpull_ispeer :: "int \<Rightarrow> int" where
  "nn_xpull_ispeer socktype = (if socktype = 5 * 16 then 1 else 0)"

section \<open>PUB\<close>

record nn_xpub =
  xp_outpipes :: nn_dist
  xp_mem :: dist_mem
  xp_data :: "addr \<rightharpoonup> addr"

definition nn_xpub_init :: nn_xpub where
  "nn_xpub_init = \<lparr>xp_outpipes = nn_dist_init, xp_mem = (\<lambda>_. 0), xp_data = Map.empty\<rparr>"

definition nn_xpub_term :: "nn_xpub \<Rightarrow> unit c_result" where
  "nn_xpub_term self = nn_dist_term (xp_outpipes self)"

definition nn_xpub_add :: "addr \<Rightarrow> nn_xpub \<Rightarrow> addr \<Rightarrow> int \<times> nn_xpub" where
  "nn_xpub_add data self pipe =
     (0, self\<lparr>xp_mem := nn_dist_add (xp_mem self) data pipe, xp_data := (xp_data self)(pipe \<mapsto> data)\<rparr>)"

definition nn_xpub_rm :: "nn_xpub \<Rightarrow> addr \<Rightarrow> nn_xpub c_result" where
  "nn_xpub_rm self pipe =
     (case xp_data self pipe of
        None \<Rightarrow> Inl Null_Pointer
      | Some data \<Rightarrow> Inr (self\<lparr>xp_outpipes := nn_dist_rm (xp_outpipes self) data\<rparr>))"

definition nn_xpub_in :: "nn_xpub \<Rightarrow> addr \<Rightarrow> nn_xpub c_result" where
  "nn_xpub_in self pipe = Inl Assertion"

definition nn_xpub_out :: "nn_xpub \<Rightarrow> addr \<Rightarrow> nn_xpub c_result" where
  "nn_xpub_out self pipe =
     (case xp_data self pipe of
        None \<Rightarrow> Inl Null_Pointer
      | Some data \<Rightarrow>
          (case nn_dist_out (xp_outpipes self) data of Inl e \<Rightarrow> Inl e | Inr d \<Rightarrow> Inr (self\<lparr>xp_outpipes := d\<rparr>)))"

definition nn_xpub_events :: "nn_xpub \<Rightarrow> int" where
  "nn_xpub_events self = NN_SOCKBASE_EVENT_OUT"

definition nn_xpub_send ::
  "(addr \<Rightarrow> int \<times> bool) \<Rightarrow> pipes \<Rightarrow> heap \<Rightarrow> nn_xpub \<Rightarrow> nn_msg
   \<Rightarrow> (int \<times> addr list \<times> pipes \<times> heap \<times> nn_xpub) c_result" where
  "nn_xpub_send tsend ps H self msg =
     (case nn_dist_send tsend (xp_mem self) ps H (xp_outpipes self) msg None of
        Inl e \<Rightarrow> Inl e | Inr (rc, sent, ps, H, d) \<Rightarrow> Inr (rc, sent, ps, H, self\<lparr>xp_outpipes := d\<rparr>))"

definition nn_xpub_ispeer :: "int \<Rightarrow> int" where
  "nn_xpub_ispeer socktype = (if socktype = 2 * 16 + 1 then 1 else 0)"


section \<open>SUB\<close>

record nn_xsub =
  xs_fq :: nn_fq
  xs_trie :: nn_trie
  xs_mem :: prio_mem
  xs_data :: "addr \<rightharpoonup> addr"

definition nn_xsub_init :: nn_xsub where
  "nn_xsub_init = \<lparr>xs_fq = nn_fq_init, xs_trie = nn_trie_init, xs_mem = (\<lambda>_. \<lparr>dpipe = 0, dprio = 0\<rparr>), xs_data = Map.empty\<rparr>"

definition nn_xsub_term :: "nn_xsub \<Rightarrow> unit c_result" where
  "nn_xsub_term self = nn_fq_term (xs_fq self)"

definition nn_xsub_add :: "int \<Rightarrow> addr \<Rightarrow> nn_xsub \<Rightarrow> addr \<Rightarrow> (int \<times> nn_xsub) c_result" where
  "nn_xsub_add rcvprio data self pipe =
     (if \<not> (rcvprio \<ge> 1 \<and> rcvprio \<le> 16) then Inl Assertion
      else Inr (0, self\<lparr>xs_data := (xs_data self)(pipe \<mapsto> data), xs_mem := nn_fq_add (xs_mem self) data pipe rcvprio\<rparr>))"

definition nn_xsub_rm :: "nn_xsub \<Rightarrow> addr \<Rightarrow> nn_xsub c_result" where
  "nn_xsub_rm self pipe =
     (case xs_data self pipe of
        None \<Rightarrow> Inl Null_Pointer
      | Some data \<Rightarrow> Inr (self\<lparr>xs_fq := nn_fq_rm (xs_mem self) (xs_fq self) data\<rparr>))"

definition nn_xsub_in :: "nn_xsub \<Rightarrow> addr \<Rightarrow> nn_xsub c_result" where
  "nn_xsub_in self pipe =
     (case xs_data self pipe of
        None \<Rightarrow> Inl Null_Pointer
      | Some data \<Rightarrow>
          (case nn_fq_in (xs_mem self) (xs_fq self) data of Inl e \<Rightarrow> Inl e | Inr fq \<Rightarrow> Inr (self\<lparr>xs_fq := fq\<rparr>)))"

definition nn_xsub_events :: "nn_xsub \<Rightarrow> int" where
  "nn_xsub_events self = (if nn_fq_can_recv (xs_fq self) then NN_SOCKBASE_EVENT_IN else 0)"

text \<open>Matching the body of a message.\<close>

definition match_body :: "heap \<Rightarrow> nn_trie \<Rightarrow> nn_msg \<Rightarrow> int c_result" where
  "match_body H trie msg =
     (case nn_chunkref_data H (body msg) of
        Inl e \<Rightarrow> Inl e
      | Inr bs \<Rightarrow>
          (case nn_chunkref_size H (body msg) of
             Inl e \<Rightarrow> Inl e
           | Inr n \<Rightarrow> nn_trie_match trie (take (unat n) bs)))"

text \<open>
  One pass of the loop of \<open>nn_xsub_recv\<close> takes one turn; when the turns are used up the call is still
  looping (\<open>None\<close>). The result has the message, if any, and the messages that were
  dropped, each with the heap it was in.
\<close>

fun nn_xsub_recv ::
  "turn list \<Rightarrow> pipes \<Rightarrow> heap \<Rightarrow> nn_xsub \<Rightarrow> (int \<times> nn_msg option \<times> (heap \<times> nn_msg) list \<times> pipes \<times> heap \<times> nn_xsub) c_result option" where
  "nn_xsub_recv [] ps H self = None"
| "nn_xsub_recv (t # ts) ps H self =
     (case fq_recv_msg t (xs_mem self) ps H (xs_fq self) of
        Inl e \<Rightarrow> Some (Inl e)
      | Inr (rc, msg, H, ps, fq) \<Rightarrow>
          let self = self\<lparr>xs_fq := fq\<rparr> in
          if rc = - EAGAIN then Some (Inr (- EAGAIN, None, [], ps, H, self))
          else if rc < 0 then Some (Inl Assertion)
          else
            (case msg of
               None \<Rightarrow> Some (Inl Uninitialised)
             | Some (_, msg) \<Rightarrow>
                 (case match_body H (xs_trie self) msg of
                    Inl e \<Rightarrow> Some (Inl e)
                  | Inr rc \<Rightarrow>
                      if rc = 0 then
                        (case nn_msg_term H msg of
                           Inl e \<Rightarrow> Some (Inl e)
                         | Inr H' \<Rightarrow>
                             (case nn_xsub_recv ts ps H' self of
                                None \<Rightarrow> None
                              | Some (Inl e) \<Rightarrow> Some (Inl e)
                              | Some (Inr (rc, next_msg, dropped, r)) \<Rightarrow>
                                  Some (Inr (rc, next_msg, (H, msg) # dropped, r))))
                      else if rc = 1 then Some (Inr (0, Some msg, [], ps, H, self))
                      else Some (Inl Assertion))))"

definition NN_SUB :: int where "NN_SUB = 2 * 16 + 1"
definition NN_SUB_SUBSCRIBE :: int where "NN_SUB_SUBSCRIBE = 1"
definition NN_SUB_UNSUBSCRIBE :: int where "NN_SUB_UNSUBSCRIBE = 2"

definition nn_xsub_setopt :: "nn_xsub \<Rightarrow> int \<Rightarrow> int \<Rightarrow> u8 list \<Rightarrow> (int \<times> nn_xsub) c_result" where
  "nn_xsub_setopt self level opt optval =
     (if level \<noteq> NN_SUB then Inr (- ENOPROTOOPT, self)
      else if opt = NN_SUB_SUBSCRIBE then
        (case nn_trie_subscribe (xs_trie self) optval of
           Inl e \<Rightarrow> Inl e
         | Inr (rc, t) \<Rightarrow> Inr (if rc \<ge> 0 then 0 else rc, self\<lparr>xs_trie := t\<rparr>))
      else if opt = NN_SUB_UNSUBSCRIBE then
        (case nn_trie_unsubscribe (xs_trie self) optval of
           Inl e \<Rightarrow> Inl e
         | Inr (rc, t) \<Rightarrow> Inr (if rc \<ge> 0 then 0 else rc, self\<lparr>xs_trie := t\<rparr>))
      else Inr (- ENOPROTOOPT, self))"

definition nn_xsub_ispeer :: "int \<Rightarrow> int" where
  "nn_xsub_ispeer socktype = (if socktype = 2 * 16 then 1 else 0)"

section \<open>BUS\<close>

record nn_xbus =
  xb_outpipes :: nn_dist
  xb_inpipes :: nn_fq
  xb_omem :: dist_mem
  xb_imem :: prio_mem
  xb_data :: "addr \<rightharpoonup> addr"

definition nn_xbus_init :: nn_xbus where
  "nn_xbus_init = \<lparr>xb_outpipes = nn_dist_init, xb_inpipes = nn_fq_init, xb_omem = (\<lambda>_. 0),
     xb_imem = (\<lambda>_. \<lparr>dpipe = 0, dprio = 0\<rparr>), xb_data = Map.empty\<rparr>"

definition nn_xbus_term :: "nn_xbus \<Rightarrow> unit c_result" where
  "nn_xbus_term self =
     (case nn_fq_term (xb_inpipes self) of Inl e \<Rightarrow> Inl e | Inr _ \<Rightarrow> nn_dist_term (xb_outpipes self))"

definition nn_xbus_add :: "int \<Rightarrow> addr \<Rightarrow> nn_xbus \<Rightarrow> addr \<Rightarrow> (int \<times> nn_xbus) c_result" where
  "nn_xbus_add rcvprio data self pipe =
     (if \<not> (rcvprio \<ge> 1 \<and> rcvprio \<le> 16) then Inl Assertion
      else Inr (0, self\<lparr>xb_imem := nn_fq_add (xb_imem self) data pipe rcvprio,
                        xb_omem := nn_dist_add (xb_omem self) data pipe,
                        xb_data := (xb_data self)(pipe \<mapsto> data)\<rparr>))"

definition nn_xbus_rm :: "nn_xbus \<Rightarrow> addr \<Rightarrow> nn_xbus c_result" where
  "nn_xbus_rm self pipe =
     (case xb_data self pipe of
        None \<Rightarrow> Inl Null_Pointer
      | Some data \<Rightarrow>
          Inr (self\<lparr>xb_inpipes := nn_fq_rm (xb_imem self) (xb_inpipes self) data,
                    xb_outpipes := nn_dist_rm (xb_outpipes self) data\<rparr>))"

definition nn_xbus_in :: "nn_xbus \<Rightarrow> addr \<Rightarrow> nn_xbus c_result" where
  "nn_xbus_in self pipe =
     (case xb_data self pipe of
        None \<Rightarrow> Inl Null_Pointer
      | Some data \<Rightarrow>
          (case nn_fq_in (xb_imem self) (xb_inpipes self) data of
             Inl e \<Rightarrow> Inl e | Inr fq \<Rightarrow> Inr (self\<lparr>xb_inpipes := fq\<rparr>)))"

definition nn_xbus_out :: "nn_xbus \<Rightarrow> addr \<Rightarrow> nn_xbus c_result" where
  "nn_xbus_out self pipe =
     (case xb_data self pipe of
        None \<Rightarrow> Inl Null_Pointer
      | Some data \<Rightarrow>
          (case nn_dist_out (xb_outpipes self) data of
             Inl e \<Rightarrow> Inl e | Inr d \<Rightarrow> Inr (self\<lparr>xb_outpipes := d\<rparr>)))"

definition nn_xbus_events :: "nn_xbus \<Rightarrow> int" where
  "nn_xbus_events self =
     (if nn_fq_can_recv (xb_inpipes self) then NN_SOCKBASE_EVENT_IN else 0) OR NN_SOCKBASE_EVENT_OUT"

text \<open>The bytes of a pointer in memory, lowest first, and back. The NULL pointer is no pipe.\<close>

fun ptr_bytes :: "nat \<Rightarrow> addr \<Rightarrow> u8 list" where
  "ptr_bytes 0 p = []"
| "ptr_bytes (Suc n) p = of_nat (p mod 256) # ptr_bytes n (p div 256)"

fun ptr_value :: "u8 list \<Rightarrow> addr" where
  "ptr_value [] = 0"
| "ptr_value (b # bs) = unat b + 256 * ptr_value bs"

definition nn_xbus_send ::
  "malloc \<Rightarrow> (addr \<Rightarrow> int \<times> bool) \<Rightarrow> pipes \<Rightarrow> heap \<Rightarrow> nn_xbus \<Rightarrow> nn_msg
   \<Rightarrow> (int \<times> addr list \<times> pipes \<times> heap \<times> nn_xbus) c_result" where
  "nn_xbus_send mal tsend ps H self msg =
     (let send = (\<lambda>H msg exclude. case nn_dist_send tsend (xb_omem self) ps H (xb_outpipes self) msg exclude of
          Inl e \<Rightarrow> Inl e | Inr (rc, sent, ps, H, d) \<Rightarrow> Inr (rc, sent, ps, H, self\<lparr>xb_outpipes := d\<rparr>))
      in case nn_chunkref_size H (sphdr msg) of
           Inl e \<Rightarrow> Inl e
         | Inr hdrsz \<Rightarrow>
             if hdrsz = 0 then send H msg None
             else if hdrsz = 8 then
               (case nn_chunkref_data H (sphdr msg) of
                  Inl e \<Rightarrow> Inl e
                | Inr bs \<Rightarrow>
                    let p = ptr_value (take 8 bs) in
                    (case nn_chunkref_term H (sphdr msg) of
                       Inl e \<Rightarrow> Inl e
                     | Inr H \<Rightarrow>
                         (case nn_chunkref_init mal H (sphdr msg) 0 of
                            Inl e \<Rightarrow> Inl e
                          | Inr (r, H) \<Rightarrow> send H (msg\<lparr>sphdr := r\<rparr>) (if p = 0 then None else Some p))))
             else Inr (- EINVAL, [], ps, H, self))"

text \<open>The header with the pipe that a received message came from.\<close>

definition add_pipe_header :: "malloc \<Rightarrow> heap \<Rightarrow> nn_msg \<Rightarrow> addr \<Rightarrow> (nn_msg \<times> heap) c_result" where
  "add_pipe_header mal H msg pipe =
     (case nn_chunkref_term H (sphdr msg) of
        Inl e \<Rightarrow> Inl e
      | Inr H \<Rightarrow>
          (case nn_chunkref_init mal H (sphdr msg) 8 of
             Inl e \<Rightarrow> Inl e
           | Inr (r, H) \<Rightarrow>
               Inr (msg\<lparr>sphdr := r\<lparr>rdata := write_bytes (write_bytes (rdata r) 0 (replicate 8 0)) 0 (ptr_bytes 8 pipe)\<rparr>\<rparr>, H)))"

text \<open>As for \<open>nn_xsub_recv\<close>, a pass of the loop takes a turn. The pipe is part of the result.\<close>

fun nn_xbus_recv ::
  "malloc \<Rightarrow> turn list \<Rightarrow> pipes \<Rightarrow> heap \<Rightarrow> nn_xbus
   \<Rightarrow> (int \<times> (addr \<times> nn_msg) option \<times> pipes \<times> heap \<times> nn_xbus) c_result option" where
  "nn_xbus_recv mal [] ps H self = None"
| "nn_xbus_recv mal (t # ts) ps H self =
     (case fq_recv_msg t (xb_imem self) ps H (xb_inpipes self) of
        Inl e \<Rightarrow> Some (Inl e)
      | Inr (rc, msg, H, ps, fq) \<Rightarrow>
          let self = self\<lparr>xb_inpipes := fq\<rparr> in
          if rc < 0 then Some (Inr (rc, None, ps, H, self))
          else
            (case msg of
               None \<Rightarrow> Some (Inl Uninitialised)
             | Some (pipe, msg) \<Rightarrow>
                 (case nn_chunkref_size H (sphdr msg) of
                    Inl e \<Rightarrow> Some (Inl e)
                  | Inr n \<Rightarrow>
                      if n = 0 then
                        (case add_pipe_header mal H msg pipe of
                           Inl e \<Rightarrow> Some (Inl e)
                         | Inr (msg, H) \<Rightarrow> Some (Inr (0, Some (pipe, msg), ps, H, self)))
                      else
                        (case nn_msg_term H msg of
                           Inl e \<Rightarrow> Some (Inl e)
                         | Inr H \<Rightarrow> nn_xbus_recv mal ts ps H self))))"

definition nn_xbus_ispeer :: "int \<Rightarrow> int" where
  "nn_xbus_ispeer socktype = (if socktype = 7 * 16 then 1 else 0)"


section \<open>Messages that arrive\<close>

lemma chunkref_term_ok:
  assumes "counted P H r"
  shows "\<exists>H'. nn_chunkref_term H r = Inr H' \<and> (\<forall>b. rtag r = 0xff \<and> b = fst (rchunk r) \<or> H' b = H b)"
proof (cases "rtag r = 0xff")
  case True
  then obtain k data where "chunk_ref H (rchunk r) k data" using assms unfolding counted_def by blast
  then obtain c where "nn_chunk_getptr H (rchunk r) = Inr (fst (rchunk r), c)" by (rule chunk_ref_getptr)
  with True show ?thesis by (auto simp: nn_chunkref_term_def nn_chunk_free_def)
qed (auto simp: nn_chunkref_term_def)

lemma counted_frame:
  assumes "counted P H r" and "apart r s" and "\<forall>b. rtag s = 0xff \<and> b = fst (rchunk s) \<or> H' b = H b"
  shows "counted P H' r"
proof (cases "rtag r = 0xff")
  case True
  have "H' (fst (rchunk r)) = H (fst (rchunk r))" using assms(2,3) True by (auto simp: apart_def)
  with assms(1) show ?thesis unfolding counted_def using chunk_ref_frame by blast
qed (simp add: counted_def)

lemma msg_term_ok:
  assumes "msg_counted P H m"
  shows "\<exists>H'. nn_msg_term H m = Inr H'"
proof -
  have c: "counted P H (sphdr m)" "counted P H (hdrs m)" "counted P H (body m)"
      "apart (hdrs m) (sphdr m)" "apart (body m) (sphdr m)" "apart (body m) (hdrs m)"
    using assms apart_sym unfolding msg_counted_def by blast+
  obtain H1 where H1: "nn_chunkref_term H (sphdr m) = Inr H1"
      "\<forall>b. rtag (sphdr m) = 0xff \<and> b = fst (rchunk (sphdr m)) \<or> H1 b = H b"
    using chunkref_term_ok [OF c(1)] by blast
  note c1 = counted_frame [OF c(2,4) H1(2)] counted_frame [OF c(3,5) H1(2)]
  obtain H2 where H2: "nn_chunkref_term H1 (hdrs m) = Inr H2"
      "\<forall>b. rtag (hdrs m) = 0xff \<and> b = fst (rchunk (hdrs m)) \<or> H2 b = H1 b"
    using chunkref_term_ok [OF c1(1)] by blast
  obtain H3 where "nn_chunkref_term H2 (body m) = Inr H3"
    using chunkref_term_ok [OF counted_frame [OF c1(2) c(6) H2(2)]] by blast
  with H1(1) H2(1) show ?thesis by (simp add: nn_msg_term_def)
qed

lemma match_body_cref:
  assumes "cref H (body m) data"
  shows "match_body H trie m = nn_trie_match trie data"
proof (cases "rtag (body m) = 0xff")
  case True
  then obtain k where "chunk_ref H (rchunk (body m)) k data" using assms by (auto simp: cref_def)
  then show ?thesis using True
    by (elim chunk_ref_getptr)
      (simp add: match_body_def nn_chunkref_data_def nn_chunkref_size_def nn_chunk_size_def chunk_sizes)
next
  case False
  then show ?thesis using assms
    by (simp add: match_body_def nn_chunkref_data_def nn_chunkref_size_def cref_def)
qed

definition subscribed :: "nn_trie \<Rightarrow> u8 list \<Rightarrow> bool" where
  "subscribed trie data \<longleftrightarrow> (\<exists>s. Sublist.prefix s data \<and> cnt trie s \<noteq> 0)"

text \<open>
  The transports answer with an error, a negative code, or with a well-formed message.
\<close>

definition arrives :: "turn \<Rightarrow> addr \<Rightarrow> heap \<Rightarrow> u8 list \<Rightarrow> bool" where
  "arrives t p H data \<longleftrightarrow> cref (snd (snd (t p H))) (body (fst (snd (t p H)))) data
     \<and> msg_counted (\<lambda>_. True) (snd (snd (t p H))) (fst (snd (t p H)))"

definition fails :: "turn \<Rightarrow> addr \<Rightarrow> heap \<Rightarrow> bool" where
  "fails t p H \<longleftrightarrow> fst (fst (t p H)) < 0"

definition turn_ok :: "turn \<Rightarrow> bool" where
  "turn_ok t \<longleftrightarrow> (\<forall>p H. fails t p H \<or> (\<exists>data. arrives t p H data))"

abbreviation in_idle :: "nn_pipebase \<Rightarrow> bool" where
  "in_idle pb \<equiv> instate pb = In_Idle"

lemma and_not_nonneg: "0 \<le> (rc :: int) \<Longrightarrow> 0 \<le> rc AND NOT NN_PIPE_RELEASE"
  by simp

lemma fq_recv_msg_cases:
  assumes ok: "dispatch_ok in_idle mem ps fq"
  shows "(active_pipes fq = {} \<and> fq_recv_msg t mem ps H fq = Inr (- EAGAIN, None, H, ps, fq))
     \<or> (\<exists>p. fails t p H \<and> fq_recv_msg t mem ps H fq = Inl Assertion)
     \<or> (\<exists>p rc ps' fq'. fq_recv_msg t mem ps H fq
           = Inr (rc, Some (p, fst (snd (t p H))), snd (snd (t p H)), ps', fq') \<and> 0 \<le> rc \<and> \<not> fails t p H
         \<and> p \<in> (\<lambda>d. dpipe (mem d)) ` active_pipes fq
         \<and> dispatch_ok in_idle mem ps' fq')"
proof (cases "active_pipes fq = {}")
  case True
  then show ?thesis using fq.run_cases [OF ok] by (simp add: fq_recv_msg_def)
next
  case False
  from fq.run_cases [OF ok, of "\<lambda>p. fst (t p H)"] obtain d where d: "d \<in> active_pipes fq"
      "case fst (t (dpipe (mem d)) H) of (rc, now) \<Rightarrow>
         if rc < 0 then nn_fq_recv (\<lambda>p. fst (t p H)) mem ps fq = Inl Assertion
         else \<exists>ps' fq'. nn_fq_recv (\<lambda>p. fst (t p H)) mem ps fq
               = Inr (rc AND NOT NN_PIPE_RELEASE, Some (dpipe (mem d)), ps', fq')
           \<and> dispatch_ok in_idle mem ps' fq'
           \<and> active_pipes fq' = (if now \<and> rc AND NN_PIPE_RELEASE = 0 then active_pipes fq else active_pipes fq - {d})"
    unfolding if_not_P [OF False] by (elim bexE conjE) (rule that)
  obtain rc now where t: "fst (t (dpipe (mem d)) H) = (rc, now)" by fastforce
  show ?thesis
  proof (cases "rc < 0")
    case True
    then have "fails t (dpipe (mem d)) H" using t by (simp add: fails_def)
    moreover have "fq_recv_msg t mem ps H fq = Inl Assertion" using d(2) t True by (simp add: fq_recv_msg_def)
    ultimately show ?thesis by blast
  next
    case rc: False
    then obtain ps' fq' where "nn_fq_recv (\<lambda>p. fst (t p H)) mem ps fq
        = Inr (rc AND NOT NN_PIPE_RELEASE, Some (dpipe (mem d)), ps', fq')" "dispatch_ok in_idle mem ps' fq'"
      using d(2) t by auto
    moreover have "\<not> fails t (dpipe (mem d)) H" using t rc by (simp add: fails_def)
    moreover have "0 \<le> rc AND NOT NN_PIPE_RELEASE" using rc by (intro and_not_nonneg) simp
    moreover have "dpipe (mem d) \<in> (\<lambda>d. dpipe (mem d)) ` active_pipes fq" using d(1) by blast
    ultimately show ?thesis by (simp add: fq_recv_msg_def)
  qed
qed


section \<open>The SUB protocol delivers what is subscribed\<close>

text \<open>
  The call is still looping, or it returns: every dropped message has no subscribed prefix, and the
  result is a message that has one, or \<open>EAGAIN\<close> when no pipe has a message left. It stops with an
  assertion only at an error of a transport, and with a read out of bounds only at a message that is
  a proper prefix of a subscription.
\<close>

definition filtered ::
  "turn list \<Rightarrow> nn_trie \<Rightarrow> (int \<times> nn_msg option \<times> (heap \<times> nn_msg) list \<times> pipes \<times> heap \<times> nn_xsub) c_result option \<Rightarrow> bool" where
  "filtered ts trie r \<longleftrightarrow>
     (case r of
        None \<Rightarrow> True
      | Some (Inl e) \<Rightarrow>
          e = Assertion \<and> (\<exists>t\<in>set ts. \<exists>p H. fails t p H)
          \<or> e = Out_Of_Bounds
            \<and> (\<exists>t\<in>set ts. \<exists>p H data s. arrives t p H data \<and> strict_prefix data s \<and> cnt trie s \<noteq> 0)
      | Some (Inr (rc, msg, dropped, ps, H, self)) \<Rightarrow>
          (\<forall>(H0, m)\<in>set dropped. \<exists>data. cref H0 (body m) data \<and> \<not> subscribed trie data)
          \<and> xs_trie self = trie \<and> dispatch_ok in_idle (xs_mem self) ps (xs_fq self)
          \<and> (case msg of
               None \<Rightarrow> rc = - EAGAIN \<and> active_pipes (xs_fq self) = {}
             | Some m \<Rightarrow> rc = 0 \<and> (\<exists>data. cref H (body m) data \<and> subscribed trie data)))"

lemma match_subscribed:
  assumes "trie_ok trie"
  shows "nn_trie_match trie data = Inr (if subscribed trie data then 1 else 0)
    \<or> nn_trie_match trie data = Inl Out_Of_Bounds \<and> \<not> subscribed trie data
      \<and> (\<exists>s. strict_prefix data s \<and> cnt trie s \<noteq> 0)"
  using match_correct [of trie data] assms unfolding subscribed_def trie_ok_def by (auto split: sum.splits)

lemma match_subscribed_1:
  assumes "trie_ok trie" and "subscribed trie data"
  shows "nn_trie_match trie data = Inr 1"
  using match_subscribed [OF assms(1), of data] assms(2) by simp

lemma filtered_later: "filtered ts trie r \<Longrightarrow> filtered (t # ts) trie r"
  by (auto simp: filtered_def split: option.splits sum.splits)

text \<open>One round with a message: it is returned, dropped, or too short for the trie.\<close>

lemma xsub_recv_message:
  assumes r: "fq_recv_msg t (xs_mem self) ps H (xs_fq self) = Inr (rc, Some (p, m), H1, ps', fq')" "0 \<le> rc"
    and ok: "dispatch_ok in_idle (xs_mem self) ps' fq'" and trie: "trie_ok (xs_trie self)"
    and m: "m = fst (snd (t p H))" "H1 = snd (snd (t p H))" and data: "arrives t p H data"
    and IH: "\<And>H2. filtered ts (xs_trie self) (nn_xsub_recv ts ps' H2 (self\<lparr>xs_fq := fq'\<rparr>))"
  shows "filtered (t # ts) (xs_trie self) (nn_xsub_recv (t # ts) ps H self)"
proof -
  have body: "cref H1 (body m) data" "msg_counted (\<lambda>_. True) H1 m" using data m by (simp_all add: arrives_def)
  have rc: "rc \<noteq> - EAGAIN" using r(2) by (simp add: EAGAIN_def)
  from match_subscribed [OF trie, of data] show ?thesis
  proof (elim disjE conjE exE)
    fix s
    assume s: "nn_trie_match (xs_trie self) data = Inl Out_Of_Bounds" "strict_prefix data s" "cnt (xs_trie self) s \<noteq> 0"
    then have "nn_xsub_recv (t # ts) ps H self = Some (Inl Out_Of_Bounds)"
      using r rc match_body_cref [OF body(1), of "xs_trie self"] by simp
    with s(2,3) data show ?thesis by (auto simp: filtered_def)
  next
    assume match: "nn_trie_match (xs_trie self) data = Inr (if subscribed (xs_trie self) data then 1 else 0)"
    note run = r rc match_body_cref [OF body(1), of "xs_trie self", unfolded match]
    show ?thesis
    proof (cases "subscribed (xs_trie self) data")
      case True
      then have "nn_xsub_recv (t # ts) ps H self = Some (Inr (0, Some m, [], ps', H1, self\<lparr>xs_fq := fq'\<rparr>))"
        using run by simp
      then show ?thesis using True body(1) ok by (auto simp: filtered_def)
    next
      case False
      obtain H2 where H2: "nn_msg_term H1 m = Inr H2" using msg_term_ok [OF body(2)] by blast
      note later = filtered_later [OF IH, of t H2]
      show ?thesis
        using later run H2 False body(1) by (auto simp: filtered_def split: option.splits sum.splits)
    qed
  qed
qed

lemma xsub_recv_filtered:
  assumes "dispatch_ok in_idle (xs_mem self) ps (xs_fq self)" and "trie_ok (xs_trie self)"
    and "\<forall>t\<in>set ts. turn_ok t"
  shows "filtered ts (xs_trie self) (nn_xsub_recv ts ps H self)"
  using assms
proof (induction ts arbitrary: ps H self)
  case Nil
  then show ?case by (simp add: filtered_def)
next
  case (Cons t ts)
  from fq_recv_msg_cases [where t = t and H = H, OF Cons.prems(1)] show ?case
  proof (elim disjE conjE exE)
    assume "active_pipes (xs_fq self) = {}"
      "fq_recv_msg t (xs_mem self) ps H (xs_fq self) = Inr (- EAGAIN, None, H, ps, xs_fq self)"
    with Cons.prems(1) show ?thesis by (simp add: filtered_def)
  next
    fix p
    assume "fails t p H" "fq_recv_msg t (xs_mem self) ps H (xs_fq self) = Inl Assertion"
    then show ?thesis by (auto simp: filtered_def)
  next
    fix p rc ps' fq'
    assume r: "fq_recv_msg t (xs_mem self) ps H (xs_fq self) =
        Inr (rc, Some (p, fst (snd (t p H))), snd (snd (t p H)), ps', fq')" "0 \<le> rc" "\<not> fails t p H"
      "dispatch_ok in_idle (xs_mem self) ps' fq'"
    obtain data where data: "arrives t p H data" using Cons.prems(3) r(3) unfolding turn_ok_def set_simps by blast
    have "filtered ts (xs_trie self) (nn_xsub_recv ts ps' H2 (self\<lparr>xs_fq := fq'\<rparr>))" for H2
      using Cons.IH [of "self\<lparr>xs_fq := fq'\<rparr>" ps' H2] Cons.prems(2,3) r(4) by simp
    from xsub_recv_message [OF r(1,2,4) Cons.prems(2) refl refl data this] show ?thesis .
  qed
qed

text \<open>A turn in which every transport has a message with a subscribed prefix ends the call.\<close>

definition all_match :: "nn_trie \<Rightarrow> turn \<Rightarrow> bool" where
  "all_match trie t \<longleftrightarrow> (\<forall>p H. fails t p H \<or> (\<exists>data. arrives t p H data \<and> subscribed trie data))"

lemma xsub_recv_returns:
  assumes "dispatch_ok in_idle (xs_mem self) ps (xs_fq self)" and "trie_ok (xs_trie self)"
    and "\<forall>t\<in>set ts. turn_ok t" and "\<exists>t\<in>set ts. all_match (xs_trie self) t"
  shows "nn_xsub_recv ts ps H self \<noteq> None"
  using assms
proof (induction ts arbitrary: ps H self)
  case Nil
  then show ?case by simp
next
  case (Cons t ts)
  from fq_recv_msg_cases [where t = t and H = H, OF Cons.prems(1)] show ?case
  proof (elim disjE conjE exE)
    fix p rc ps' fq'
    assume r: "fq_recv_msg t (xs_mem self) ps H (xs_fq self) =
        Inr (rc, Some (p, fst (snd (t p H))), snd (snd (t p H)), ps', fq')" "0 \<le> rc" "\<not> fails t p H"
      "dispatch_ok in_idle (xs_mem self) ps' fq'"
    have rc: "rc \<noteq> - EAGAIN" using r(2) by (simp add: EAGAIN_def)
    show ?thesis
    proof (cases "all_match (xs_trie self) t")
      case True
      then obtain data where "cref (snd (snd (t p H))) (body (fst (snd (t p H)))) data" "subscribed (xs_trie self) data"
        using r(3) unfolding all_match_def arrives_def by blast
      with match_body_cref [OF this(1)] match_subscribed_1 [OF Cons.prems(2) this(2)] r rc show ?thesis by simp
    next
      case False
      then have "\<exists>t\<in>set ts. all_match (xs_trie self) t" using Cons.prems(4) unfolding set_simps by blast
      then have more: "nn_xsub_recv ts ps' H' (self\<lparr>xs_fq := fq'\<rparr>) \<noteq> None" for H'
        using Cons.IH [of "self\<lparr>xs_fq := fq'\<rparr>" ps' H'] Cons.prems(2,3) r(4) by simp
      show ?thesis
        using r rc by (auto simp: Let_def more split: sum.splits option.splits simp del: not_None_eq)
    qed
  qed simp_all
qed

text \<open>
  Property C7. A SUB socket delivers exactly what is subscribed. The pipes of its fair queue are
  distinct and idle, its trie is well formed, and the transports answer with an error, a negative
  code, or with a well-formed message. Each message that \<open>nn_xsub_recv\<close> drops has no subscribed
  prefix, the message it returns has one, and it gives \<open>EAGAIN\<close> only when no pipe has a message left;
  the subscriptions and the condition on the fair queue are kept. An assertion fails only if a
  transport answers with an error, and the only other fault is a read past the end of a message that
  is a proper prefix of a subscription. It returns at the latest in a turn in which every message
  matches.
\<close>
theorem xsub_recv_correct:
  assumes "dispatch_ok in_idle (xs_mem self) ps (xs_fq self)" and "trie_ok (xs_trie self)"
    and "\<forall>t\<in>set ts. turn_ok t"
  shows "filtered ts (xs_trie self) (nn_xsub_recv ts ps H self)
     \<and> ((\<exists>t\<in>set ts. all_match (xs_trie self) t) \<longrightarrow> nn_xsub_recv ts ps H self \<noteq> None)"
  using xsub_recv_filtered [OF assms] xsub_recv_returns [OF assms] by blast


text \<open>A subscription to \<open>[97]\<close>, one pipe, and a message that starts with this byte.\<close>

definition one_sub :: nn_xsub where
  "one_sub = \<lparr>xs_fq = three_pipes, xs_trie = Some (Node 1 [97] (Sparse [])), xs_mem = three_data, xs_data = Map.empty\<rparr>"

definition hello :: turn where
  "hello p H = ((0, True), \<lparr>sphdr = \<lparr>rtag = 0, rdata = replicate 31 0, rchunk = (0, 0)\<rparr>,
     hdrs = \<lparr>rtag = 0, rdata = replicate 31 0, rchunk = (0, 0)\<rparr>,
     body = \<lparr>rtag = 2, rdata = 97 # 98 # replicate 29 0, rchunk = (0, 0)\<rparr>\<rparr>, H)"

lemma hello_arrives: "arrives hello p H [97, 98]"
  by (simp add: arrives_def hello_def cref_def msg_counted_def counted_def apart_def NN_CHUNKREF_MAX_def)

lemma one_sub_trie: "trie_ok (xs_trie one_sub)" "cnt (xs_trie one_sub) s \<noteq> 0 \<longleftrightarrow> s = [97]"
proof -
  show "trie_ok (xs_trie one_sub)"
    by (simp add: one_sub_def trie_ok_def twf_Node kids_ok_def trie_consts)
  show "cnt (xs_trie one_sub) s \<noteq> 0 \<longleftrightarrow> s = [97]"
    by (cases s) (auto simp: one_sub_def cnt.simps(2) split: list.splits)
qed

theorem xsub_recv_correct_witness:
  "nn_xsub_recv [hello] (\<lambda>_. idle_pipe) Map.empty one_sub \<noteq> None
   \<and> filtered [hello] (xs_trie one_sub) (nn_xsub_recv [hello] (\<lambda>_. idle_pipe) Map.empty one_sub)"
proof -
  have 1: "dispatch_ok in_idle (xs_mem one_sub) (\<lambda>_. idle_pipe) (xs_fq one_sub)"
    unfolding one_sub_def by (simp, rule three_pipes_dispatch) simp
  have sub: "subscribed (xs_trie one_sub) [97, 98]"
    unfolding subscribed_def one_sub_trie(2) by simp
  have 3: "\<forall>t\<in>set [hello]. turn_ok t" using hello_arrives by (auto simp: turn_ok_def)
  have "\<exists>t\<in>set [hello]. all_match (xs_trie one_sub) t"
    using hello_arrives sub by (auto simp: all_match_def)
  with xsub_recv_correct [OF 1 one_sub_trie(1) 3, of Map.empty] show ?thesis by blast
qed

section \<open>The BUS protocol sends no message back\<close>

lemma length_ptr_bytes [simp]: "length (ptr_bytes n p) = n"
  by (induction n arbitrary: p) auto

lemma ptr_roundtrip: "p < 256 ^ n \<Longrightarrow> ptr_value (ptr_bytes n p) = p"
proof (induction n arbitrary: p)
  case (Suc n)
  have "p div 256 < 256 ^ n" using Suc.prems by (simp add: less_mult_imp_div_less mult.commute)
  then show ?case using Suc.IH by (simp add: unat_of_nat)
qed simp

lemma xbus_recv_header:
  "nn_xbus_recv mal ts ps H self = Some (Inr (0, Some (p, m), ps', H', self')) \<Longrightarrow>
     rtag (sphdr m) = 8 \<and> take 8 (rdata (sphdr m)) = ptr_bytes 8 p"
proof (induction ts arbitrary: ps H self)
  case (Cons t ts)
  then show ?case
    by (auto simp: Let_def add_pipe_header_def nn_chunkref_init_def NN_CHUNKREF_MAX_def write_bytes_def
        split: sum.splits option.splits if_splits)
qed simp

lemma dist_send_sent:
  assumes "dist_ok mem ps d" and "codes_ok tsend"
    and "msg_counted (\<lambda>k. k \<noteq> 0 \<and> unat k + length (dpipes d) < 2 ^ 32) H m"
  shows "\<exists>ps' H' d'. nn_dist_send tsend mem ps H d m exclude =
     Inr (0, filter (\<lambda>p. Some p \<noteq> exclude) (map mem (dpipes d)), ps', H', d')"
proof (cases "dpipes d = []")
  case True
  then have "dcount d = 0" using assms(1) by (simp add: dist_ok_def)
  with True msg_term_ok [OF assms(3)] show ?thesis by (auto simp: nn_dist_send_def)
next
  case False
  obtain ps' d' where run: "nn_dist_send tsend mem ps H d m exclude =
       (case nn_msg_term (mbump (of_nat (length (filter (\<lambda>p. Some p \<noteq> exclude) (map mem (dpipes d))))) m H) m of
          Inl e \<Rightarrow> Inl e
        | Inr H' \<Rightarrow> Inr (0, filter (\<lambda>p. Some p \<noteq> exclude) (map mem (dpipes d)), ps', H', d'))"
    using nn_dist_send_ok [OF assms False] by blast
  obtain H' where "nn_msg_term (mbump (of_nat (length (filter (\<lambda>p. Some p \<noteq> exclude) (map mem (dpipes d))))) m H) m = Inr H'"
    using msg_term_ok [OF msg_counted_mbump [OF assms(3)]] by blast
  then show ?thesis unfolding run by simp
qed

text \<open>
  Property C14. A BUS socket does not echo. A message that \<open>nn_xbus_recv\<close> took from pipe \<open>p\<close> carries the
  address of \<open>p\<close> in its header; when the same message is given to \<open>nn_xbus_send\<close>, at any later time,
  it goes to every ready pipe except \<open>p\<close>, once each.
\<close>
theorem xbus_no_echo:
  assumes recv: "nn_xbus_recv mal ts ps H self = Some (Inr (0, Some (p, m), ps1, H1, self1))"
    and p: "0 < p" "p < 2 ^ 64"
    and ok: "dist_ok (xb_omem self2) ps2 (xb_outpipes self2)" and codes: "codes_ok tsend"
    and cnt: "msg_counted (\<lambda>k. k \<noteq> 0 \<and> unat k + length (dpipes (xb_outpipes self2)) < 2 ^ 32) H2 m"
  shows "\<exists>ps' H' self'. nn_xbus_send mal tsend ps2 H2 self2 m =
     Inr (0, filter (\<lambda>q. q \<noteq> p) (map (xb_omem self2) (dpipes (xb_outpipes self2))), ps', H', self')"
proof -
  have hdr: "rtag (sphdr m) = 8" "take 8 (rdata (sphdr m)) = ptr_bytes 8 p"
    using xbus_recv_header [OF recv] by simp_all
  have "ptr_value (ptr_bytes 8 p) = p" using p(2) by (intro ptr_roundtrip) simp
  moreover let ?m = "m\<lparr>sphdr := (sphdr m)\<lparr>rtag := 0\<rparr>\<rparr>"
  have "msg_counted (\<lambda>k. k \<noteq> 0 \<and> unat k + length (dpipes (xb_outpipes self2)) < 2 ^ 32) H2 ?m"
    using cnt hdr(1) by (simp add: msg_counted_def counted_def apart_def)
  from dist_send_sent [OF ok codes this, of "Some p"] obtain ps' H' d' where
    "nn_dist_send tsend (xb_omem self2) ps2 H2 (xb_outpipes self2) ?m (Some p) =
       Inr (0, filter (\<lambda>q. q \<noteq> p) (map (xb_omem self2) (dpipes (xb_outpipes self2))), ps', H', d')"
    by auto
  ultimately show ?thesis
    using hdr p(1) by (simp add: nn_xbus_send_def nn_chunkref_size_def nn_chunkref_data_def nn_chunkref_term_def
        nn_chunkref_init_def NN_CHUNKREF_MAX_def)
qed


text \<open>A bus with three pipes, all of them ready to send.\<close>

definition three_bus :: nn_xbus where
  "three_bus = \<lparr>xb_outpipes = \<lparr>dcount = 3, dpipes = [1, 2, 3]\<rparr>, xb_inpipes = three_pipes, xb_omem = (\<lambda>d. 100 + d),
     xb_imem = three_data, xb_data = Map.empty\<rparr>"

theorem xbus_no_echo_witness:
  "\<exists>p m ps' H' self'. p \<in> {101, 102, 103} \<and>
     nn_xbus_send (\<lambda>_ _. None) (\<lambda>_. (0, True)) (\<lambda>_. \<lparr>pstate = State_Active, instate = In_Idle, outstate = Out_Idle\<rparr>)
       Map.empty three_bus m = Inr (0, filter (\<lambda>q. q \<noteq> p) [101, 102, 103], ps', H', self')"
proof -
  let ?ps = "\<lambda>_::addr. \<lparr>pstate = State_Active, instate = In_Idle, outstate = Out_Idle\<rparr>"
  let ?mal = "\<lambda>_ _. None"
  have 1: "dispatch_ok in_idle three_data ?ps three_pipes" by (rule three_pipes_dispatch) simp
  have 2: "\<not> fails hello p Map.empty" for p by (simp add: fails_def hello_def)
  have im: "(\<lambda>d. dpipe (three_data d)) ` active_pipes three_pipes = {101, 102, 103}"
    unfolding three_pipes_ok(2) by (simp add: three_data_def nn_priolist_add_def)
  have ne: "active_pipes three_pipes \<noteq> {}" by (simp add: three_pipes_ok(2))
  have H: "snd (snd (hello p H)) = H" for p H by (simp add: hello_def)
  from fq_recv_msg_cases [where t = hello and H = Map.empty, OF 1] obtain p rc ps' fq' where
    r: "fq_recv_msg hello three_data ?ps Map.empty three_pipes =
        Inr (rc, Some (p, fst (snd (hello p Map.empty))), Map.empty, ps', fq')" "0 \<le> rc" "p \<in> {101, 102, 103}"
    using ne 2 unfolding im H by blast
  have "\<exists>m. nn_xbus_recv ?mal [hello] ?ps Map.empty three_bus =
      Some (Inr (0, Some (p, m), ps', Map.empty, three_bus\<lparr>xb_inpipes := fq'\<rparr>))
      \<and> rtag (hdrs m) = 0 \<and> rtag (body m) = 2 \<and> rtag (sphdr m) = 8"
    using r by (simp add: three_bus_def hello_def nn_chunkref_size_def add_pipe_header_def nn_chunkref_term_def
        nn_chunkref_init_def NN_CHUNKREF_MAX_def)
  then obtain m where m: "nn_xbus_recv ?mal [hello] ?ps Map.empty three_bus =
      Some (Inr (0, Some (p, m), ps', Map.empty, three_bus\<lparr>xb_inpipes := fq'\<rparr>))"
      "rtag (hdrs m) = 0" "rtag (body m) = 2" "rtag (sphdr m) = 8" by blast
  have p: "0 < p" "p < 2 ^ 64" using r(3) by auto
  have ok: "dist_ok (xb_omem three_bus) ?ps (xb_outpipes three_bus)" by (simp add: three_bus_def dist_ok_def)
  have codes: "codes_ok (\<lambda>_. (0, True))" by (simp add: codes_ok_def)
  have cnt: "msg_counted (\<lambda>k. k \<noteq> 0 \<and> unat k + length (dpipes (xb_outpipes three_bus)) < 2 ^ 32) Map.empty m"
    using m by (simp add: msg_counted_def counted_def apart_def)
  have "map (xb_omem three_bus) (dpipes (xb_outpipes three_bus)) = [101, 102, 103]" by (simp add: three_bus_def)
  with xbus_no_echo [OF m(1) p ok codes cnt] r(3) show ?thesis by metis
qed

end
