(* ===== verification/Nn_Msgqueue.thy ===== *)
theory Nn_Msgqueue
  imports Nn_Msg
begin

text \<open>
  The message queue of the in-process transport, \<open>nanomsg/src/transports/inproc/msgqueue.c\<close>: messages in
  a chain of blocks of 126 slots, with one spare block, refined to a first-in first-out list. The
  blocks live in a store of their own (\<open>mq_store\<close>); the address and the contents of a new block are
  what the argument \<open>mal\<close> gives.
\<close>

section \<open>The queue\<close>

definition NN_MSGQUEUE_GRANULARITY :: nat where "NN_MSGQUEUE_GRANULARITY = 126"

record nn_msgqueue_chunk =
  msgs :: "nn_msg list"
  chunk_next :: "addr option"

record nn_msgqueue =
  out_chunk :: addr
  out_pos :: nat
  in_chunk :: "addr option"
  in_pos :: nat
  mq_count :: u64
  mq_mem :: u64
  mq_maxmem :: u64
  mq_cache :: "addr option"

type_synonym mq_store = "addr \<rightharpoonup> nn_msgqueue_chunk"
type_synonym mq_malloc = "mq_store \<Rightarrow> (addr \<times> nn_msgqueue_chunk) option"

definition new_block :: "mq_malloc \<Rightarrow> mq_store \<Rightarrow> (addr \<times> mq_store) c_result" where
  "new_block mal Q =
     (case mal Q of None \<Rightarrow> Inl Assertion | Some (a, c) \<Rightarrow> Inr (a, Q(a \<mapsto> c\<lparr>chunk_next := None\<rparr>)))"

definition nn_msgqueue_init :: "mq_malloc \<Rightarrow> mq_store \<Rightarrow> u64 \<Rightarrow> (mq_store \<times> nn_msgqueue) c_result" where
  "nn_msgqueue_init mal Q maxmem =
     (case new_block mal Q of
        Inl e \<Rightarrow> Inl e
      | Inr (a, Q) \<Rightarrow>
          Inr (Q, \<lparr>out_chunk = a, out_pos = 0, in_chunk = Some a, in_pos = 0, mq_count = 0, mq_mem = 0,
                   mq_maxmem = maxmem, mq_cache = None\<rparr>))"

definition nn_msgqueue_empty :: "nn_msgqueue \<Rightarrow> bool" where
  "nn_msgqueue_empty self \<longleftrightarrow> mq_count self = 0"

text \<open>The size a message counts with.\<close>

definition msg_size :: "heap \<Rightarrow> nn_msg \<Rightarrow> u64 c_result" where
  "msg_size H msg =
     (case nn_chunkref_size H (sphdr msg) of
        Inl e \<Rightarrow> Inl e
      | Inr a \<Rightarrow> (case nn_chunkref_size H (body msg) of Inl e \<Rightarrow> Inl e | Inr b \<Rightarrow> Inr (a + b)))"

text \<open>The end of \<open>nn_msgqueue_send\<close>: a full block gets a successor, the spare one or a new one.\<close>

definition link_block :: "addr \<Rightarrow> mq_store \<Rightarrow> addr \<Rightarrow> mq_store" where
  "link_block a Q n = Q(a := map_option (\<lambda>c. c\<lparr>chunk_next := Some n\<rparr>) (Q a))"

definition next_block :: "mq_malloc \<Rightarrow> mq_store \<Rightarrow> nn_msgqueue \<Rightarrow> (mq_store \<times> nn_msgqueue) c_result" where
  "next_block mal Q self =
     (if out_pos self \<noteq> NN_MSGQUEUE_GRANULARITY then Inr (Q, self)
      else
        (case (case mq_cache self of Some a \<Rightarrow> Inr (a, Q) | None \<Rightarrow> new_block mal Q) of
           Inl e \<Rightarrow> Inl e
         | Inr (a, Q) \<Rightarrow>
             Inr (link_block (out_chunk self) Q a, self\<lparr>out_chunk := a, mq_cache := None, out_pos := 0\<rparr>)))"

definition nn_msgqueue_send ::
  "mq_malloc \<Rightarrow> heap \<Rightarrow> mq_store \<Rightarrow> nn_msgqueue \<Rightarrow> nn_msg \<Rightarrow> (int \<times> mq_store \<times> nn_msgqueue) c_result" where
  "nn_msgqueue_send mal H Q self msg =
     (case msg_size H msg of
        Inl e \<Rightarrow> Inl e
      | Inr msgsz \<Rightarrow>
          if mq_count self > 0 \<and> mq_mem self + msgsz \<ge> mq_maxmem self then Inr (- EAGAIN, Q, self)
          else
            (case Q (out_chunk self) of
               None \<Rightarrow> Inl Out_Of_Bounds
             | Some c \<Rightarrow>
                 let pos = out_pos self in
                 if length (msgs c) \<le> pos then Inl Out_Of_Bounds
                 else
                   (case next_block mal
                           (Q(out_chunk self \<mapsto> c\<lparr>msgs := (msgs c)[pos := nn_msg_mv (msgs c ! pos) msg]\<rparr>))
                           (self\<lparr>mq_count := mq_count self + 1, mq_mem := mq_mem self + msgsz, out_pos := pos + 1\<rparr>) of
                      Inl e \<Rightarrow> Inl e
                    | Inr (Q, self) \<Rightarrow> Inr (0, Q, self))))"

text \<open>The block that has been read to its end becomes the spare block or is freed.\<close>

definition leave_block :: "mq_store \<Rightarrow> nn_msgqueue \<Rightarrow> nn_msgqueue_chunk \<Rightarrow> addr \<Rightarrow> mq_store \<times> nn_msgqueue" where
  "leave_block Q self c a =
     (if in_pos self \<noteq> NN_MSGQUEUE_GRANULARITY then (Q, self)
      else
        let self = self\<lparr>in_chunk := chunk_next c, in_pos := 0\<rparr>
        in if mq_cache self = None then (Q, self\<lparr>mq_cache := Some a\<rparr>) else (Q(a := None), self))"

definition nn_msgqueue_recv ::
  "heap \<Rightarrow> mq_store \<Rightarrow> nn_msgqueue \<Rightarrow> nn_msg \<Rightarrow> (int \<times> nn_msg \<times> mq_store \<times> nn_msgqueue) c_result" where
  "nn_msgqueue_recv H Q self msg =
     (if mq_count self = 0 then Inr (- EAGAIN, msg, Q, self)
      else
        (case in_chunk self of
           None \<Rightarrow> Inl Null_Pointer
         | Some a \<Rightarrow>
             (case Q a of
                None \<Rightarrow> Inl Out_Of_Bounds
              | Some c \<Rightarrow>
                  if length (msgs c) \<le> in_pos self then Inl Out_Of_Bounds
                  else
                  let msg = nn_msg_mv msg (msgs c ! in_pos self);
                      (Q, self) = leave_block Q (self\<lparr>in_pos := in_pos self + 1\<rparr>) c a
                  in case msg_size H msg of
                       Inl e \<Rightarrow> Inl e
                     | Inr n \<Rightarrow> Inr (0, msg, Q, self\<lparr>mq_count := mq_count self - 1, mq_mem := mq_mem self - n\<rparr>))))"

text \<open>The loop of \<open>nn_msgqueue_term\<close>, with at most \<open>fuel\<close> passes, and the release of the blocks.\<close>

fun drain :: "nat \<Rightarrow> heap \<Rightarrow> mq_store \<Rightarrow> nn_msgqueue \<Rightarrow> nn_msg \<Rightarrow> (heap \<times> mq_store \<times> nn_msgqueue) c_result option" where
  "drain 0 H Q self msg = None"
| "drain (Suc fuel) H Q self msg =
     (case nn_msgqueue_recv H Q self msg of
        Inl e \<Rightarrow> Some (Inl e)
      | Inr (rc, msg, Q, self) \<Rightarrow>
          if rc = - EAGAIN then Some (Inr (H, Q, self))
          else if rc < 0 then Some (Inl Assertion)
          else (case nn_msg_term H msg of Inl e \<Rightarrow> Some (Inl e) | Inr H \<Rightarrow> drain fuel H Q self msg))"

definition nn_msgqueue_term ::
  "nat \<Rightarrow> heap \<Rightarrow> mq_store \<Rightarrow> nn_msgqueue \<Rightarrow> nn_msg \<Rightarrow> (heap \<times> mq_store) c_result option" where
  "nn_msgqueue_term fuel H Q self msg =
     (case drain fuel H Q self msg of
        None \<Rightarrow> None
      | Some (Inl e) \<Rightarrow> Some (Inl e)
      | Some (Inr (H, Q, self)) \<Rightarrow>
          if in_chunk self \<noteq> Some (out_chunk self) then Some (Inl Assertion)
          else
            let Q = Q(out_chunk self := None)
            in Some (Inr (H, case mq_cache self of None \<Rightarrow> Q | Some a \<Rightarrow> Q(a := None))))"

section \<open>The messages in the chain\<close>

text \<open>Blocks have 126 slots, and every slot is a message structure.\<close>

definition msg_shape :: "nn_msg \<Rightarrow> bool" where
  "msg_shape m \<longleftrightarrow> length (rdata (sphdr m)) = 31 \<and> length (rdata (hdrs m)) = 31 \<and> length (rdata (body m)) = 31"

definition block_ok :: "nn_msgqueue_chunk \<Rightarrow> bool" where
  "block_ok c \<longleftrightarrow> length (msgs c) = 126 \<and> (\<forall>m\<in>set (msgs c). msg_shape m)"

fun links :: "mq_store \<Rightarrow> addr list \<Rightarrow> bool" where
  "links Q (a # b # as) \<longleftrightarrow> chunk_next (the (Q a)) = Some b \<and> links Q (b # as)"
| "links Q as \<longleftrightarrow> True"

abbreviation slots :: "mq_store \<Rightarrow> addr \<Rightarrow> nn_msg list" where
  "slots Q a \<equiv> msgs (the (Q a))"

text \<open>The messages from position \<open>i\<close> of the first block up to position \<open>j\<close> of the last one.\<close>

definition stored :: "mq_store \<Rightarrow> addr list \<Rightarrow> nat \<Rightarrow> nat \<Rightarrow> nn_msg list" where
  "stored Q as i j = drop i (concat (map (slots Q) (butlast as)) @ take j (slots Q (last as)))"

text \<open>
  The blocks of the chain and the spare block are all there is in the store, so that no operation
  loses a block.
\<close>

definition mq_chain :: "addr list \<Rightarrow> mq_store \<Rightarrow> nn_msgqueue \<Rightarrow> nn_msg list \<Rightarrow> bool" where
  "mq_chain as Q self ms \<longleftrightarrow>
     as \<noteq> [] \<and> distinct as \<and> links Q as \<and> in_chunk self = Some (hd as) \<and> out_chunk self = last as
     \<and> dom Q = set as \<union> set_option (mq_cache self) \<and> set as \<inter> set_option (mq_cache self) = {}
     \<and> (\<forall>c\<in>ran Q. block_ok c) \<and> in_pos self \<le> 126 \<and> out_pos self \<le> 126
     \<and> (tl as = [] \<longrightarrow> in_pos self \<le> out_pos self) \<and> stored Q as (in_pos self) (out_pos self) = ms"

definition mq_list :: "mq_store \<Rightarrow> nn_msgqueue \<Rightarrow> nn_msg list \<Rightarrow> bool" where
  "mq_list Q self ms \<longleftrightarrow> (\<exists>as. mq_chain as Q self ms) \<and> in_pos self < 126 \<and> out_pos self < 126
     \<and> length ms < 2 ^ 64 \<and> mq_count self = of_nat (length ms)"

type_synonym msg_bytes = "u8 list \<times> u8 list \<times> u8 list"

definition msg_holds :: "heap \<Rightarrow> nn_msg \<Rightarrow> msg_bytes \<Rightarrow> bool" where
  "msg_holds H m x \<longleftrightarrow> cref H (sphdr m) (fst x) \<and> cref H (hdrs m) (fst (snd x)) \<and> cref H (body m) (snd (snd x))"

definition bytes_size :: "msg_bytes \<Rightarrow> nat" where
  "bytes_size x = length (fst x) + length (snd (snd x))"

definition mq_rep :: "heap \<Rightarrow> mq_store \<Rightarrow> nn_msgqueue \<Rightarrow> msg_bytes list \<Rightarrow> bool" where
  "mq_rep H Q self xs \<longleftrightarrow>
     (\<exists>ms. mq_list Q self ms \<and> list_all2 (msg_holds H) ms xs) \<and> mq_mem self = of_nat (sum_list (map bytes_size xs))"

text \<open>An allocator that always answers, with a block that is not in use.\<close>

definition mq_fresh :: "mq_malloc \<Rightarrow> bool" where
  "mq_fresh mal \<longleftrightarrow> (\<forall>Q. finite (dom Q) \<longrightarrow> (\<exists>a c. mal Q = Some (a, c) \<and> Q a = None \<and> block_ok c))"

section \<open>Messages\<close>

lemma msg_size_holds:
  assumes "msg_holds H m x"
  shows "msg_size H m = Inr (of_nat (bytes_size x))"
proof -
  have size: "nn_chunkref_size H r = Inr (of_nat (length data))" if ref: "cref H r data" for r data
  proof (cases "rtag r = 0xff")
    case True
    then obtain k where "chunk_ref H (rchunk r) k data" using ref by (auto simp: cref_def)
    from nn_chunk_size_ref [OF this] obtain n where
      n: "nn_chunk_size H (rchunk r) = Inr n" "unat n = length data" by blast
    have "n = of_nat (length data)" using n(2) [symmetric] by simp
    with True n(1) show ?thesis by (simp add: nn_chunkref_size_def)
  next
    case False
    then have "length data = unat (rtag r)" using ref by (auto simp: cref_def NN_CHUNKREF_MAX_def)
    with False show ?thesis by (simp add: nn_chunkref_size_def)
  qed
  have "nn_chunkref_size H (sphdr m) = Inr (of_nat (length (fst x)))"
    "nn_chunkref_size H (body m) = Inr (of_nat (length (snd (snd x))))"
    using assms size unfolding msg_holds_def by blast+
  then show ?thesis by (simp add: msg_size_def bytes_size_def)
qed

lemma msg_mv_holds:
  assumes "msg_holds H m x" and "msg_shape m" and "msg_shape dst"
  shows "msg_holds H (nn_msg_mv dst m) x"
proof -
  have mv: "cref H (nn_chunkref_mv d r) data"
    if "cref H r data" "length (rdata r) = 31" "length (rdata d) = 31" for d r data
    using that by (auto simp: nn_chunkref_mv_def cref_def NN_CHUNKREF_MAX_def)
  show ?thesis using assms mv by (auto simp: msg_holds_def msg_shape_def nn_msg_mv_def)
qed

lemma msg_mv_shape: "msg_shape m \<Longrightarrow> msg_shape dst \<Longrightarrow> msg_shape (nn_msg_mv dst m)"
  by (auto simp: msg_shape_def nn_msg_mv_def nn_chunkref_mv_def)

lemma chunkref_mv_same [simp]:
  "nn_chunkref_size H (nn_chunkref_mv d r) = nn_chunkref_size H r"
  "nn_chunkref_term H (nn_chunkref_mv d r) = nn_chunkref_term H r"
  by (simp_all add: nn_chunkref_mv_def nn_chunkref_size_def nn_chunkref_term_def)

lemma msg_mv_same [simp]:
  "msg_size H (nn_msg_mv dst m) = msg_size H m"
  "nn_msg_term H (nn_msg_mv dst m) = nn_msg_term H m"
  by (simp_all add: msg_size_def nn_msg_mv_def nn_msg_term_def split: sum.split)

section \<open>Writing into the chain\<close>

lemma links_snoc: "links Q (bs @ [a, b]) \<longleftrightarrow> links Q (bs @ [a]) \<and> chunk_next (the (Q a)) = Some b"
  by (induction Q bs rule: links.induct) auto

lemma links_keep: "\<forall>x\<in>set bs. Q' x = Q x \<Longrightarrow> links Q' (bs @ [a]) = links Q (bs @ [a])"
  by (induction Q bs rule: links.induct) auto

lemma stored_snoc: "stored Q (bs @ [a]) i j = drop i (concat (map (slots Q) bs) @ take j (slots Q a))"
  by (simp add: stored_def)

lemma links_frame: "\<forall>x\<in>set as. Q' x = Q x \<Longrightarrow> links Q' as = links Q as"
  by (induction Q as rule: links.induct) auto

lemma stored_frame: "as \<noteq> [] \<Longrightarrow> \<forall>x\<in>set as. Q' x = Q x \<Longrightarrow> stored Q' as i j = stored Q as i j"
  unfolding stored_def by (metis (no_types, lifting) in_set_butlastD last_in_set map_eq_conv)

lemma chain_block: "mq_chain as Q self ms \<Longrightarrow> a \<in> set as \<Longrightarrow> \<exists>c. Q a = Some c \<and> block_ok c"
  unfolding mq_chain_def by (metis UnCI domD ranI)

lemma first_block_length:
  assumes "mq_chain as Q self ms" and "tl as \<noteq> []"
  shows "126 \<le> length (concat (map (slots Q) (butlast as)))"
proof -
  from assms(2) obtain a b cs where as: "as = a # b # cs" by (metis list.exhaust_sel list.sel(2))
  then obtain c where "Q a = Some c" "block_ok c" using chain_block [OF assms(1), of a] by auto
  with as show ?thesis by (simp add: block_ok_def)
qed

text \<open>A message written behind the last one is the last one of the longer list.\<close>

lemma chain_write:
  assumes ch: "mq_chain as Q self ms" and pos: "out_pos self < 126" and c: "Q (out_chunk self) = Some c"
    and m: "msg_shape m"
  shows "mq_chain as (Q(out_chunk self \<mapsto> c\<lparr>msgs := (msgs c)[out_pos self := m]\<rparr>)) (self\<lparr>out_pos := Suc (out_pos self)\<rparr>)
           (ms @ [m])"
proof -
  let ?a = "out_chunk self" and ?j = "out_pos self" and ?c = "c\<lparr>msgs := (msgs c)[out_pos self := m]\<rparr>"
  let ?Q = "Q(?a \<mapsto> ?c)"
  obtain bs where as: "as = bs @ [?a]" using ch unfolding mq_chain_def by (metis append_butlast_last_id)
  have fresh: "?a \<notin> set bs" using ch as by (simp add: mq_chain_def)
  have ok: "block_ok c" using ch c by (auto simp: mq_chain_def ran_def)
  have set: "set ((msgs c)[?j := m]) \<subseteq> insert m (set (msgs c))" by (rule set_update_subset_insert)
  have ok': "block_ok ?c" using ok m set by (auto simp: block_ok_def)
  have blocks: "\<forall>c\<in>ran ?Q. block_ok c" using ch ok' by (auto simp: mq_chain_def ran_def)
  have "links ?Q (bs @ [?a]) = links Q (bs @ [?a])" using fresh by (intro links_keep) auto
  then have links: "links ?Q as" using ch as by (simp add: mq_chain_def)
  have dom: "dom ?Q = dom Q" using c by auto
  have written: "take (Suc ?j) ((msgs c)[?j := m]) = take ?j (msgs c) @ [m]"
    using pos ok by (simp add: block_ok_def take_Suc_conv_app_nth)
  have bound: "in_pos self \<le> length (concat (map (slots Q) bs) @ take ?j (msgs c))"
  proof (cases "bs = []")
    case True then show ?thesis using ch as pos ok by (simp add: mq_chain_def block_ok_def)
  next
    case False
    then have "tl as \<noteq> []" using as by (cases bs) auto
    from first_block_length [OF ch this] as ch show ?thesis by (simp add: mq_chain_def)
  qed
  have same: "map (slots ?Q) bs = map (slots Q) bs" using fresh by auto
  have "stored ?Q as (in_pos self) (Suc ?j) = drop (in_pos self) ((concat (map (slots Q) bs) @ take ?j (msgs c)) @ [m])"
    unfolding as stored_snoc same using written by simp
  also have "\<dots> = stored Q as (in_pos self) ?j @ [m]" unfolding as stored_snoc using bound c by simp
  finally have st: "stored ?Q as (in_pos self) (Suc ?j) = ms @ [m]" using ch by (simp add: mq_chain_def)
  have le: "tl as = [] \<longrightarrow> in_pos self \<le> Suc ?j" using ch by (auto simp: mq_chain_def)
  show ?thesis using ch blocks links dom st pos le by (simp add: mq_chain_def)
qed

lemma chain_finite: "mq_chain as Q self ms \<Longrightarrow> finite (dom Q)"
  by (auto simp: mq_chain_def)

text \<open>Appending a block to the full chain changes none of the messages.\<close>

lemma chain_extend:
  assumes ch: "mq_chain as Q self ms" and pos: "out_pos self = 126" and ipos: "in_pos self < 126"
    and a: "a \<notin> set as" "dom Q' = set as \<union> {a}" "\<forall>x\<in>set as. Q' x = Q x" "\<forall>c\<in>ran Q'. block_ok c"
  shows "mq_chain (as @ [a]) (link_block (out_chunk self) Q' a) (self\<lparr>out_chunk := a, mq_cache := None, out_pos := 0\<rparr>) ms"
proof -
  let ?o = "out_chunk self"
  let ?Q = "link_block ?o Q' a"
  obtain bs where as: "as = bs @ [?o]" using ch unfolding mq_chain_def by (metis append_butlast_last_id)
  obtain c where c: "Q ?o = Some c" "block_ok c" using chain_block [OF ch, of ?o] as by auto
  have o: "Q' ?o = Some c" using a(3) as c(1) by simp
  have fresh: "?o \<notin> set bs" using ch as by (simp add: mq_chain_def)
  have dom: "dom ?Q = set as \<union> {a}" using a(2) o by (auto simp: link_block_def)
  have blocks: "\<forall>c\<in>ran ?Q. block_ok c" using a(4) o c(2) by (auto simp: link_block_def ran_def block_ok_def)
  have keep: "\<forall>x\<in>set bs. ?Q x = Q x" using fresh a(3) as by (auto simp: link_block_def)
  have "links ?Q (bs @ [?o])"
    using ch as links_keep [of bs ?Q Q ?o] keep by (simp add: mq_chain_def)
  then have links: "links ?Q (as @ [a])" using as o links_snoc [of ?Q bs ?o a] by (simp add: link_block_def)
  have same: "map (slots ?Q) bs = map (slots Q) bs" using keep by simp
  have last: "slots ?Q ?o = msgs c" using o by (simp add: link_block_def)
  have "stored ?Q (as @ [a]) (in_pos self) 0 = drop (in_pos self) (concat (map (slots Q) bs) @ msgs c)"
    unfolding as stored_snoc map_append concat_append same using last by simp
  also have "\<dots> = stored Q as (in_pos self) 126" using as c by (simp add: stored_def block_ok_def)
  finally have st: "stored ?Q (as @ [a]) (in_pos self) 0 = ms" using ch pos by (simp add: mq_chain_def)
  have ends: "hd (as @ [a]) = hd as" "tl (as @ [a]) \<noteq> []" using as by (simp_all add: hd_append tl_append split: list.split)
  have base: "distinct as" "in_chunk self = Some (hd as)" "in_pos self \<le> 126" using ch by (simp_all add: mq_chain_def)
  show ?thesis unfolding mq_chain_def using base a(1) dom blocks links st ends by simp
qed

lemma next_block_chain:
  assumes ch: "mq_chain as Q self ms" and pos: "in_pos self < 126" and mal: "mq_fresh mal"
  shows "\<exists>Q' self' as'. next_block mal Q self = Inr (Q', self') \<and> mq_chain as' Q' self' ms \<and> out_pos self' < 126
           \<and> in_pos self' = in_pos self \<and> mq_count self' = mq_count self \<and> mq_mem self' = mq_mem self
           \<and> mq_maxmem self' = mq_maxmem self"
proof (cases "out_pos self = 126")
  case False
  with ch have "out_pos self < 126" by (simp add: mq_chain_def)
  with ch show ?thesis by (auto simp: next_block_def NN_MSGQUEUE_GRANULARITY_def)
next
  case True
  have base: "dom Q = set as \<union> set_option (mq_cache self)" "set as \<inter> set_option (mq_cache self) = {}" "\<forall>c\<in>ran Q. block_ok c"
    using ch by (simp_all add: mq_chain_def)
  show ?thesis
  proof (cases "mq_cache self")
    case (Some a)
    with base have "mq_chain (as @ [a]) (link_block (out_chunk self) Q a)
        (self\<lparr>out_chunk := a, mq_cache := None, out_pos := 0\<rparr>) ms"
      by (intro chain_extend [OF ch True pos]) auto
    with Some True show ?thesis by (auto simp: next_block_def NN_MSGQUEUE_GRANULARITY_def)
  next
    case None
    obtain a c where a: "mal Q = Some (a, c)" "Q a = None" "block_ok c"
      using mal chain_finite [OF ch] unfolding mq_fresh_def by blast
    let ?Q = "Q(a \<mapsto> c\<lparr>chunk_next := None\<rparr>)"
    have out: "a \<notin> set as" using a(2) base(1) by blast
    have "block_ok (c\<lparr>chunk_next := None\<rparr>)" using a(3) by (simp add: block_ok_def)
    then have "\<forall>c\<in>ran ?Q. block_ok c" using base(3) by (auto simp: ran_def)
    moreover have "dom ?Q = set as \<union> {a}" using base(1) None by auto
    moreover have "\<forall>x\<in>set as. ?Q x = Q x" using out by auto
    ultimately have "mq_chain (as @ [a]) (link_block (out_chunk self) ?Q a)
        (self\<lparr>out_chunk := a, mq_cache := None, out_pos := 0\<rparr>) ms"
      using chain_extend [OF ch True pos out] by blast
    with None True a(1) show ?thesis by (auto simp: next_block_def new_block_def NN_MSGQUEUE_GRANULARITY_def)
  qed
qed

section \<open>Reading from the chain\<close>

text \<open>Reading moves the position on; the head of the list is the slot read.\<close>

lemma chain_read:
  assumes ch: "mq_chain as Q self (m # ms)" and pos: "in_pos self < 126" "out_pos self < 126"
    and c: "Q (hd as) = Some c"
  shows "msgs c ! in_pos self = m" and "msg_shape m"
    and "mq_chain as Q (self\<lparr>in_pos := Suc (in_pos self)\<rparr>) ms"
proof -
  let ?i = "in_pos self" and ?j = "out_pos self"
  let ?L = "concat (map (slots Q) (butlast as)) @ take ?j (slots Q (last as))"
  have st: "drop ?i ?L = m # ms" using ch by (simp add: mq_chain_def stored_def)
  then have i: "?i < length ?L" by (metis drop_all list.distinct(1) not_le)
  have "?L ! ?i # drop (Suc ?i) ?L = m # ms" unfolding Cons_nth_drop_Suc [OF i] by (rule st)
  then have L: "?L ! ?i = m" "drop (Suc ?i) ?L = ms" by (simp_all only: list.inject)
  have ok: "length (msgs c) = 126" "\<forall>m\<in>set (msgs c). msg_shape m"
    using ch c by (auto simp: mq_chain_def ran_def block_ok_def)
  have slot: "msgs c ! ?i = ?L ! ?i \<and> (tl as = [] \<longrightarrow> Suc ?i \<le> ?j)"
  proof (cases "tl as = []")
    case True
    then have "as = [hd as]" using ch by (simp add: mq_chain_def) (metis hd_Cons_tl)
    then have "?L = take ?j (msgs c)" using c by (metis append_Nil butlast.simps(2) concat.simps(1) last.simps list.simps(8) option.sel)
    with i show ?thesis by simp
  next
    case False
    then obtain a b cs where as: "as = a # b # cs" by (metis list.exhaust_sel list.sel(2))
    with c ok pos show ?thesis by (simp add: nth_append)
  qed
  with L show m: "msgs c ! ?i = m" by simp
  show "msg_shape m" using m ok pos(1) by (metis nth_mem)
  have "stored Q as (Suc ?i) ?j = ms" unfolding stored_def by (rule L(2))
  then show "mq_chain as Q (self\<lparr>in_pos := Suc ?i\<rparr>) ms" using ch slot pos by (simp add: mq_chain_def)
qed

text \<open>A block read to its end leaves the chain; it is the spare block or is freed.\<close>

lemma leave_block_chain:
  assumes ch: "mq_chain as Q self ms" and pos: "out_pos self < 126" and c: "Q (hd as) = Some c"
  shows "\<exists>Q' self' as'. leave_block Q self c (hd as) = (Q', self') \<and> mq_chain as' Q' self' ms \<and> in_pos self' < 126
           \<and> out_pos self' = out_pos self \<and> mq_count self' = mq_count self \<and> mq_mem self' = mq_mem self
           \<and> mq_maxmem self' = mq_maxmem self"
proof (cases "in_pos self = 126")
  case False
  with ch have "in_pos self < 126" by (simp add: mq_chain_def)
  with ch show ?thesis by (auto simp: leave_block_def NN_MSGQUEUE_GRANULARITY_def)
next
  case True
  have base: "distinct as" "links Q as" "out_chunk self = last as" "dom Q = set as \<union> set_option (mq_cache self)"
    "set as \<inter> set_option (mq_cache self) = {}" "\<forall>c\<in>ran Q. block_ok c" "stored Q as 126 (out_pos self) = ms"
    "tl as \<noteq> []" using ch True pos by (auto simp: mq_chain_def)
  then obtain a b cs where as: "as = a # b # cs" by (metis list.exhaust_sel list.sel(2))
  have nx: "chunk_next c = Some b" "links Q (b # cs)" using base(2) as c by auto
  have len: "length (slots Q a) = 126" using base(6) c as by (auto simp: ran_def block_ok_def)
  have ms: "stored Q (b # cs) 0 (out_pos self) = ms" using base(7) as len by (simp add: stored_def)
  let ?s = "self\<lparr>in_chunk := Some b, in_pos := 0\<rparr>"
  have a: "a \<notin> set (b # cs)" using base(1) as by simp
  have free: "mq_chain (b # cs) (Q(a := None)) ?s ms" if some: "mq_cache self = Some s" for s
  proof -
    have same: "\<forall>x\<in>set (b # cs). (Q(a := None)) x = Q x" using a by auto
    have "stored (Q(a := None)) (b # cs) 0 (out_pos self) = ms" "links (Q(a := None)) (b # cs)"
      unfolding stored_frame [OF list.distinct(2) same] links_frame [OF same] by (rule ms nx(2))+
    moreover have "\<forall>c\<in>ran (Q(a := None)). block_ok c" using base(6) by (auto simp: ran_def)
    moreover have "dom (Q(a := None)) = set (b # cs) \<union> {s}" "s \<notin> set (b # cs)" using base(4,5) as a some by auto
    ultimately show ?thesis using base(1,3) as pos some by (simp add: mq_chain_def)
  qed
  have keep: "mq_chain (b # cs) Q (?s\<lparr>mq_cache := Some a\<rparr>) ms" if none: "mq_cache self = None"
  proof -
    have "dom Q = set (b # cs) \<union> {a}" using base(4) as none by auto
    then show ?thesis using base(1,3,6) as pos nx(2) a ms by (simp add: mq_chain_def)
  qed
  show ?thesis
  proof (cases "mq_cache self")
    case None then show ?thesis using keep True nx(1) as by (auto simp: leave_block_def NN_MSGQUEUE_GRANULARITY_def)
  next
    case (Some s) then show ?thesis using free True nx(1) as by (auto simp: leave_block_def NN_MSGQUEUE_GRANULARITY_def)
  qed
qed

section \<open>Sending and receiving\<close>

lemma chain_stats [simp]:
  "mq_chain as Q (self\<lparr>mq_count := n, mq_mem := k\<rparr>) ms = mq_chain as Q self ms"
  "mq_chain as Q (self\<lparr>mq_count := n, mq_mem := k, out_pos := p\<rparr>) ms = mq_chain as Q (self\<lparr>out_pos := p\<rparr>) ms"
  by (simp_all add: mq_chain_def)

lemma mq_list_count: "mq_list Q self ms \<Longrightarrow> mq_count self = 0 \<longleftrightarrow> ms = []"
  by (auto simp: mq_list_def word_of_nat_eq_0_iff dest: dvd_imp_le)

lemma mq_list_send:
  assumes q: "mq_list Q self ms" and size: "msg_size H msg = Inr n" and shape: "msg_shape msg" and mal: "mq_fresh mal"
    and room: "ms = [] \<or> \<not> mq_mem self + n \<ge> mq_maxmem self" and len: "Suc (length ms) < 2 ^ 64"
  shows "\<exists>Q' self' slot. nn_msgqueue_send mal H Q self msg = Inr (0, Q', self') \<and> msg_shape slot
           \<and> mq_list Q' self' (ms @ [nn_msg_mv slot msg]) \<and> mq_mem self' = mq_mem self + n
           \<and> mq_maxmem self' = mq_maxmem self"
proof -
  from q obtain as where ch: "mq_chain as Q self ms" and pos: "in_pos self < 126" "out_pos self < 126"
    and count: "mq_count self = of_nat (length ms)" by (auto simp: mq_list_def)
  have "out_chunk self \<in> set as" using ch by (simp add: mq_chain_def)
  with chain_block [OF ch] obtain c where c: "Q (out_chunk self) = Some c" "block_ok c" by blast
  define slot where "slot = msgs c ! out_pos self"
  have slot: "msg_shape slot" using c(2) pos(2) by (simp add: slot_def block_ok_def)
  let ?m = "nn_msg_mv slot msg"
  let ?Q = "Q(out_chunk self \<mapsto> c\<lparr>msgs := (msgs c)[out_pos self := ?m]\<rparr>)"
  let ?s = "self\<lparr>mq_count := mq_count self + 1, mq_mem := mq_mem self + n, out_pos := Suc (out_pos self)\<rparr>"
  have "mq_chain as ?Q ?s (ms @ [?m])"
    using chain_write [OF ch pos(2) c(1) msg_mv_shape [OF shape slot]] by (simp only: chain_stats)
  from next_block_chain [OF this _ mal] pos(1) obtain Q' self' as' where
    nxt: "next_block mal ?Q ?s = Inr (Q', self')" "mq_chain as' Q' self' (ms @ [?m])" "out_pos self' < 126"
      "in_pos self' = in_pos self" "mq_count self' = mq_count self + 1" "mq_mem self' = mq_mem self + n"
      "mq_maxmem self' = mq_maxmem self" by auto
  have "\<not> (mq_count self > 0 \<and> mq_mem self + n \<ge> mq_maxmem self)" using room mq_list_count [OF q] by auto
  then have "nn_msgqueue_send mal H Q self msg = Inr (0, Q', self')"
    using size c pos(2) nxt(1) by (auto simp: nn_msgqueue_send_def block_ok_def slot_def)
  moreover have "mq_list Q' self' (ms @ [?m])" unfolding mq_list_def using nxt pos(1) len count by auto
  ultimately show ?thesis using slot nxt(6,7) by blast
qed

lemma mq_list_recv:
  assumes q: "mq_list Q self (m # ms)" and size: "msg_size H m = Inr n"
  shows "msg_shape m" and "\<exists>Q' self'. nn_msgqueue_recv H Q self msg = Inr (0, nn_msg_mv msg m, Q', self')
           \<and> mq_list Q' self' ms \<and> mq_mem self' = mq_mem self - n \<and> mq_maxmem self' = mq_maxmem self"
proof -
  from q obtain as where ch: "mq_chain as Q self (m # ms)" and pos: "in_pos self < 126" "out_pos self < 126"
    and count: "mq_count self = of_nat (Suc (length ms))" and len: "Suc (length ms) < 2 ^ 64" by (auto simp: mq_list_def)
  have as: "as \<noteq> []" "in_chunk self = Some (hd as)" using ch by (simp_all add: mq_chain_def)
  with chain_block [OF ch, of "hd as"] obtain c where c: "Q (hd as) = Some c" "block_ok c" by auto
  note read = chain_read [OF ch pos c(1)]
  show "msg_shape m" by (rule read(2))
  let ?s = "self\<lparr>in_pos := Suc (in_pos self)\<rparr>"
  from leave_block_chain [OF read(3) _ c(1)] pos(2) obtain Q' self' as' where
    leave: "leave_block Q ?s c (hd as) = (Q', self')" "mq_chain as' Q' self' ms" "in_pos self' < 126"
      "out_pos self' = out_pos self" "mq_count self' = mq_count self" "mq_mem self' = mq_mem self"
      "mq_maxmem self' = mq_maxmem self" by auto
  let ?t = "self'\<lparr>mq_count := mq_count self' - 1, mq_mem := mq_mem self' - n\<rparr>"
  have "nn_msgqueue_recv H Q self msg = Inr (0, nn_msg_mv msg m, Q', ?t)"
    using mq_list_count [OF q] as c pos(1) read(1) leave(1) size by (simp add: nn_msgqueue_recv_def block_ok_def)
  moreover have "mq_list Q' ?t ms" unfolding mq_list_def using leave pos(2) len count by auto
  ultimately show "\<exists>Q' self'. nn_msgqueue_recv H Q self msg = Inr (0, nn_msg_mv msg m, Q', self')
      \<and> mq_list Q' self' ms \<and> mq_mem self' = mq_mem self - n \<and> mq_maxmem self' = mq_maxmem self"
    using leave(6,7) by auto
qed

lemma mq_init_list:
  assumes "mq_fresh mal"
  shows "\<exists>Q q. nn_msgqueue_init mal Map.empty maxmem = Inr (Q, q) \<and> mq_list Q q [] \<and> mq_mem q = 0 \<and> mq_maxmem q = maxmem"
proof -
  from assms [unfolded mq_fresh_def, rule_format, of Map.empty]
  obtain a c where "mal Map.empty = Some (a, c)" "block_ok c" by auto
  then show ?thesis
    by (auto simp: nn_msgqueue_init_def new_block_def mq_list_def mq_chain_def stored_def block_ok_def
      intro!: exI [of _ "[a]"])
qed

lemma mq_rep_send:
  assumes q: "mq_rep H Q self xs" and m: "msg_holds H msg x" "msg_shape msg" and mal: "mq_fresh mal"
    and len: "Suc (length xs) < 2 ^ 64"
  shows "if xs \<noteq> [] \<and> mq_mem self + of_nat (bytes_size x) \<ge> mq_maxmem self
         then nn_msgqueue_send mal H Q self msg = Inr (- EAGAIN, Q, self)
         else \<exists>Q' self'. nn_msgqueue_send mal H Q self msg = Inr (0, Q', self') \<and> mq_rep H Q' self' (xs @ [x])
                \<and> mq_maxmem self' = mq_maxmem self \<and> (xs \<noteq> [] \<longrightarrow> mq_mem self' < mq_maxmem self)"
proof -
  from q obtain ms where ms: "mq_list Q self ms" "list_all2 (msg_holds H) ms xs"
    and mem: "mq_mem self = of_nat (sum_list (map bytes_size xs))" by (auto simp: mq_rep_def)
  have lens: "length ms = length xs" "ms = [] \<longleftrightarrow> xs = []" using ms(2) by (auto dest: list_all2_lengthD)
  have size: "msg_size H msg = Inr (of_nat (bytes_size x))" using m(1) by (rule msg_size_holds)
  show ?thesis
  proof (cases "xs \<noteq> [] \<and> mq_mem self + of_nat (bytes_size x) \<ge> mq_maxmem self")
    case True
    then have "mq_count self > 0" using mq_list_count [OF ms(1)] lens(2) by (simp add: word_gt_0)
    with True size show ?thesis by (simp add: nn_msgqueue_send_def)
  next
    case False
    then have room: "ms = [] \<or> \<not> mq_mem self + of_nat (bytes_size x) \<ge> mq_maxmem self" using lens(2) by blast
    have "Suc (length ms) < 2 ^ 64" using lens(1) len by simp
    from mq_list_send [OF ms(1) size m(2) mal room this] obtain Q' self' slot where
      sent: "nn_msgqueue_send mal H Q self msg = Inr (0, Q', self')" "msg_shape slot"
        "mq_list Q' self' (ms @ [nn_msg_mv slot msg])" "mq_mem self' = mq_mem self + of_nat (bytes_size x)"
        "mq_maxmem self' = mq_maxmem self" by blast
    have "list_all2 (msg_holds H) (ms @ [nn_msg_mv slot msg]) (xs @ [x])"
      using ms(2) msg_mv_holds [OF m sent(2)] by (simp add: list_all2_appendI)
    then have "mq_rep H Q' self' (xs @ [x])" using sent(3,4) mem by (auto simp: mq_rep_def)
    with False sent(1,4,5) show ?thesis by auto
  qed
qed

lemma mq_rep_recv:
  assumes q: "mq_rep H Q self xs" and msg: "msg_shape msg"
  shows "case xs of
           [] \<Rightarrow> nn_msgqueue_recv H Q self msg = Inr (- EAGAIN, msg, Q, self)
         | x # ys \<Rightarrow> \<exists>m Q' self'. nn_msgqueue_recv H Q self msg = Inr (0, m, Q', self') \<and> msg_holds H m x \<and> msg_shape m
                      \<and> mq_rep H Q' self' ys \<and> mq_maxmem self' = mq_maxmem self"
proof -
  from q obtain ms where ms: "mq_list Q self ms" "list_all2 (msg_holds H) ms xs"
    and mem: "mq_mem self = of_nat (sum_list (map bytes_size xs))" by (auto simp: mq_rep_def)
  show ?thesis
  proof (cases xs)
    case Nil
    then have "mq_count self = 0" using ms mq_list_count by simp
    with Nil show ?thesis by (simp add: nn_msgqueue_recv_def)
  next
    case (Cons x ys)
    then obtain m ns where m: "ms = m # ns" "msg_holds H m x" "list_all2 (msg_holds H) ns ys"
      using ms(2) by (auto simp: list_all2_Cons2)
    have size: "msg_size H m = Inr (of_nat (bytes_size x))" using m(2) by (rule msg_size_holds)
    note recv = mq_list_recv [OF ms(1) [unfolded m(1)] size]
    from recv(2) obtain Q' self' where r: "nn_msgqueue_recv H Q self msg = Inr (0, nn_msg_mv msg m, Q', self')"
      "mq_list Q' self' ns" "mq_mem self' = mq_mem self - of_nat (bytes_size x)" "mq_maxmem self' = mq_maxmem self" by blast
    have "mq_rep H Q' self' ys" using r(2,3) m(3) mem Cons by (auto simp: mq_rep_def)
    then show ?thesis
      using Cons r(1,4) msg_mv_holds [OF m(2) recv(1) msg] msg_mv_shape [OF recv(1) msg] by auto
  qed
qed

text \<open>The release of the messages in the order of the queue, each of them valid when its turn comes.\<close>

fun released :: "heap \<Rightarrow> nn_msg list \<Rightarrow> heap \<Rightarrow> bool" where
  "released H [] H' \<longleftrightarrow> H' = H"
| "released H (m # ms) H' \<longleftrightarrow>
     (\<exists>x. msg_holds H m x) \<and> (case nn_msg_term H m of Inl e \<Rightarrow> False | Inr H1 \<Rightarrow> released H1 ms H')"

lemma drain_list:
  assumes "mq_list Q self ms" and "released H ms H'"
  shows "\<exists>Q' self'. drain (Suc (length ms)) H Q self msg = Some (Inr (H', Q', self')) \<and> mq_list Q' self' []"
  using assms
proof (induction ms arbitrary: H Q self msg)
  case Nil
  then show ?case using mq_list_count [OF Nil(1)] by (simp add: nn_msgqueue_recv_def)
next
  case (Cons m ms)
  then obtain x H1 where m: "msg_holds H m x" "nn_msg_term H m = Inr H1" "released H1 ms H'" by (auto split: sum.splits)
  from mq_list_recv(2) [OF Cons.prems(1) msg_size_holds [OF m(1)], of msg] obtain Q' self' where
    r: "nn_msgqueue_recv H Q self msg = Inr (0, nn_msg_mv msg m, Q', self')" "mq_list Q' self' ms" by blast
  from Cons.IH [OF r(2) m(3)] r(1) m(2) show ?case by (simp add: EAGAIN_def)
qed

lemma mq_list_empty:
  assumes "mq_list Q self []"
  shows "in_chunk self = Some (out_chunk self)" and "dom Q = {out_chunk self} \<union> set_option (mq_cache self)"
proof -
  from assms obtain as where ch: "mq_chain as Q self []" and pos: "in_pos self < 126" by (auto simp: mq_list_def)
  have "tl as = []"
  proof (rule ccontr)
    assume "tl as \<noteq> []"
    from first_block_length [OF ch this] pos ch show False by (simp add: mq_chain_def stored_def)
  qed
  then have "as = [hd as]" using ch by (simp add: mq_chain_def) (metis hd_Cons_tl)
  then obtain a where "as = [a]" by blast
  with ch show "in_chunk self = Some (out_chunk self)" "dom Q = {out_chunk self} \<union> set_option (mq_cache self)"
    by (simp_all add: mq_chain_def)
qed

section \<open>The queue refines a list\<close>

text \<open>
  Property C6. The in-process message queue is a bounded first-in first-out queue: it starts empty, a send to
  an empty queue or one with room appends the message, a send that would reach the memory limit
  of a non-empty queue changes nothing and answers \<open>-EAGAIN\<close>, and a receive takes the oldest message,
  whatever blocks the messages are in; no block is lost and none is used twice.
\<close>

theorem msgqueue_refines:
  assumes "mq_fresh mal"
  shows "(\<exists>Q q. nn_msgqueue_init mal Map.empty maxmem = Inr (Q, q) \<and> mq_rep H Q q [] \<and> mq_maxmem q = maxmem)
    \<and> (\<forall>Q q xs. mq_rep H Q q xs \<longrightarrow> nn_msgqueue_empty q = (xs = []))
    \<and> (\<forall>Q q xs m x. mq_rep H Q q xs \<and> msg_holds H m x \<and> msg_shape m \<and> Suc (length xs) < 2 ^ 64 \<longrightarrow>
         (if xs \<noteq> [] \<and> mq_mem q + of_nat (bytes_size x) \<ge> mq_maxmem q
          then nn_msgqueue_send mal H Q q m = Inr (- EAGAIN, Q, q)
          else \<exists>Q' q'. nn_msgqueue_send mal H Q q m = Inr (0, Q', q') \<and> mq_rep H Q' q' (xs @ [x])
                 \<and> mq_maxmem q' = mq_maxmem q \<and> (xs \<noteq> [] \<longrightarrow> mq_mem q' < mq_maxmem q)))
    \<and> (\<forall>Q q xs m. mq_rep H Q q xs \<and> msg_shape m \<longrightarrow>
         (case xs of
            [] \<Rightarrow> nn_msgqueue_recv H Q q m = Inr (- EAGAIN, m, Q, q)
          | x # ys \<Rightarrow> \<exists>m' Q' q'. nn_msgqueue_recv H Q q m = Inr (0, m', Q', q') \<and> msg_holds H m' x \<and> msg_shape m'
                       \<and> mq_rep H Q' q' ys \<and> mq_maxmem q' = mq_maxmem q))"
proof (intro conjI allI impI)
  show "\<exists>Q q. nn_msgqueue_init mal Map.empty maxmem = Inr (Q, q) \<and> mq_rep H Q q [] \<and> mq_maxmem q = maxmem"
    using mq_init_list [OF assms, of maxmem] unfolding mq_rep_def by fastforce
next
  fix Q q xs
  assume "mq_rep H Q q xs"
  then show "nn_msgqueue_empty q = (xs = [])"
    by (auto simp: mq_rep_def nn_msgqueue_empty_def mq_list_count)
next
  fix Q q xs m x
  assume "mq_rep H Q q xs \<and> msg_holds H m x \<and> msg_shape m \<and> Suc (length xs) < 2 ^ 64"
  then show "if xs \<noteq> [] \<and> mq_mem q + of_nat (bytes_size x) \<ge> mq_maxmem q
          then nn_msgqueue_send mal H Q q m = Inr (- EAGAIN, Q, q)
          else \<exists>Q' q'. nn_msgqueue_send mal H Q q m = Inr (0, Q', q') \<and> mq_rep H Q' q' (xs @ [x])
                 \<and> mq_maxmem q' = mq_maxmem q \<and> (xs \<noteq> [] \<longrightarrow> mq_mem q' < mq_maxmem q)"
    using mq_rep_send assms by blast
next
  fix Q q xs m
  assume "mq_rep H Q q xs \<and> msg_shape m"
  then show "case xs of
            [] \<Rightarrow> nn_msgqueue_recv H Q q m = Inr (- EAGAIN, m, Q, q)
          | x # ys \<Rightarrow> \<exists>m' Q' q'. nn_msgqueue_recv H Q q m = Inr (0, m', Q', q') \<and> msg_holds H m' x \<and> msg_shape m'
                       \<and> mq_rep H Q' q' ys \<and> mq_maxmem q' = mq_maxmem q"
    using mq_rep_recv by blast
qed

definition blank_ref :: nn_chunkref where
  "blank_ref = \<lparr>rtag = 0, rdata = replicate 31 0, rchunk = (0, 0)\<rparr>"

definition blank_msg :: nn_msg where
  "blank_msg = \<lparr>sphdr = blank_ref, hdrs = blank_ref, body = blank_ref\<rparr>"

definition next_free :: mq_malloc where
  "next_free Q = Some (Suc (Max (insert 0 (dom Q))), \<lparr>msgs = replicate 126 blank_msg, chunk_next = None\<rparr>)"

lemma blank_msg_ok: "msg_shape blank_msg" "msg_holds H blank_msg ([], [], [])"
  by (simp_all add: msg_shape_def msg_holds_def cref_def blank_msg_def blank_ref_def NN_CHUNKREF_MAX_def)

lemma next_free_fresh: "mq_fresh next_free"
proof -
  have "Q (Suc (Max (insert 0 (dom Q)))) = None" if fin: "finite (dom Q)" for Q :: mq_store
  proof (rule ccontr)
    assume "Q (Suc (Max (insert 0 (dom Q)))) \<noteq> None"
    then have "Suc (Max (insert 0 (dom Q))) \<le> Max (insert 0 (dom Q))" using fin by (intro Max_ge) auto
    then show False by simp
  qed
  then show ?thesis by (simp add: mq_fresh_def next_free_def block_ok_def blank_msg_ok)
qed

theorem msgqueue_refines_witness:
  "mq_fresh next_free \<and> (\<exists>Q q Q' q' m. nn_msgqueue_init next_free Map.empty 10 = Inr (Q, q)
     \<and> nn_msgqueue_send next_free Map.empty Q q blank_msg = Inr (0, Q', q')
     \<and> (\<exists>Q'' q''. nn_msgqueue_recv Map.empty Q' q' blank_msg = Inr (0, m, Q'', q'') \<and> nn_msgqueue_empty q''))"
proof -
  let ?H = "Map.empty :: heap"
  note laws = msgqueue_refines [OF next_free_fresh, of 10 ?H]
  obtain Q q where q: "nn_msgqueue_init next_free Map.empty 10 = Inr (Q, q)" "mq_rep ?H Q q []" using laws by blast
  have "mq_rep ?H Q q [] \<and> msg_holds ?H blank_msg ([], [], []) \<and> msg_shape blank_msg
      \<and> Suc (length ([] :: msg_bytes list)) < 2 ^ 64" using q(2) blank_msg_ok by simp
  from laws [THEN conjunct2, THEN conjunct2, THEN conjunct1, rule_format, OF this] obtain Q' q' where
    s: "nn_msgqueue_send next_free ?H Q q blank_msg = Inr (0, Q', q')" "mq_rep ?H Q' q' [([], [], [])]" by auto
  have "mq_rep ?H Q' q' [([], [], [])] \<and> msg_shape blank_msg" using s(2) blank_msg_ok by simp
  from laws [THEN conjunct2, THEN conjunct2, THEN conjunct2, rule_format, OF this] obtain m Q'' q'' where
    r: "nn_msgqueue_recv ?H Q' q' blank_msg = Inr (0, m, Q'', q'')" "mq_rep ?H Q'' q'' []" by auto
  have "nn_msgqueue_empty q''" using laws [THEN conjunct2, THEN conjunct1, rule_format, OF r(2)] by simp
  with q(1) s(1) r(1) next_free_fresh show ?thesis by blast
qed

text \<open>
  Property C18. Terminating the queue ends after one pass per message and one more, releases every message
  once, in the order they were sent, and gives every block back: the store of blocks is empty.
\<close>

theorem msgqueue_term_releases:
  assumes "mq_list Q self ms" and "released H ms H'"
  shows "nn_msgqueue_term (Suc (length ms)) H Q self msg = Some (Inr (H', Map.empty))"
proof -
  from drain_list [OF assms, of msg] obtain Q' self' where
    d: "drain (Suc (length ms)) H Q self msg = Some (Inr (H', Q', self'))" "mq_list Q' self' []" by blast
  have "Q'(out_chunk self' := None) = Map.empty" if "mq_cache self' = None"
    using mq_list_empty(2) [OF d(2)] that by (auto simp: fun_eq_iff dom_def)
  moreover have "Q'(out_chunk self' := None, a := None) = Map.empty" if "mq_cache self' = Some a" for a
    using mq_list_empty(2) [OF d(2)] that by (auto simp: fun_eq_iff dom_def)
  ultimately show ?thesis
    using d(1) mq_list_empty(1) [OF d(2)]
    by (cases "mq_cache self'") (simp_all add: nn_msgqueue_term_def Let_def del: drain.simps)
qed

theorem msgqueue_term_releases_witness:
  "\<exists>Q q Q' q'. nn_msgqueue_init next_free Map.empty 10 = Inr (Q, q)
     \<and> nn_msgqueue_send next_free Map.empty Q q blank_msg = Inr (0, Q', q')
     \<and> nn_msgqueue_term 2 Map.empty Q' q' blank_msg = Some (Inr (Map.empty, Map.empty))"
proof -
  let ?H = "Map.empty :: heap"
  obtain Q q where q: "nn_msgqueue_init next_free Map.empty 10 = Inr (Q, q)" "mq_list Q q []"
    using mq_init_list [OF next_free_fresh, of 10] by blast
  from mq_list_send [OF q(2) msg_size_holds [OF blank_msg_ok(2)] blank_msg_ok(1) next_free_fresh, of ?H]
  obtain Q' q' slot where s: "nn_msgqueue_send next_free ?H Q q blank_msg = Inr (0, Q', q')" "msg_shape slot"
    "mq_list Q' q' [nn_msg_mv slot blank_msg]" by auto
  have "nn_msg_term ?H blank_msg = Inr ?H"
    by (simp add: nn_msg_term_def nn_chunkref_term_def blank_msg_def blank_ref_def)
  then have "released ?H [nn_msg_mv slot blank_msg] ?H"
    using msg_mv_holds [OF blank_msg_ok(2,1) s(2)] by auto
  from msgqueue_term_releases [OF s(3) this, of blank_msg] q(1) s(1) show ?thesis by (auto simp: numeral_2_eq_2)
qed

end
