(* ===== verification/Nn_Sock.thy ===== *)
theory Nn_Sock
  imports Nn_Pipe Nn_Wire "HOL-Library.Multiset"
begin

text \<open>
  The socket core of \<open>nanomsg/src/core/sock.c\<close>: options, statistics, holds, the signalling of the
  file descriptors that applications poll, blocking send and receive, and the life cycle of a socket
  with its endpoints. Function pointers of the code (the protocol's and the transports' option
  handlers) are parameters. An event file descriptor is a flag: signalled or not. The bits
  \<open>NN_SOCK_FLAG_IN\<close> and \<open>NN_SOCK_FLAG_OUT\<close> of \<open>flags\<close> are a field each.
\<close>

section \<open>Data\<close>

datatype sock_state = Sock_Init | Sock_Active | Sock_Zombie | Sock_Stopping_Eps | Sock_Stopping | Sock_Fini

record nn_socktype =
  st_domain :: int
  st_protocol :: int
  st_norecv :: bool
  st_nosend :: bool

record nn_statistics =
  established_connections :: u64
  accepted_connections :: u64
  dropped_connections :: u64
  broken_connections :: u64
  connect_errors :: u64
  bind_errors :: u64
  accept_errors :: u64
  messages_sent :: u64
  messages_received :: u64
  bytes_sent :: u64
  bytes_received :: u64
  cur_connections :: int
  inprogress_connections :: int
  current_snd_priority :: int
  current_ep_errors :: int

record nn_sock_options =
  o_linger :: int
  o_sndbuf :: int
  o_rcvbuf :: int
  o_rcvmaxsize :: int
  o_sndtimeo :: int
  o_rcvtimeo :: int
  o_reconnect_ivl :: int
  o_reconnect_ivl_max :: int
  o_sndprio :: int
  o_rcvprio :: int
  o_ipv4only :: int
  o_socket_name :: "u8 list"

record nn_sock =
  socktype :: nn_socktype
  sstate :: sock_state
  flag_in :: bool
  flag_out :: bool
  rcv_signalled :: bool
  snd_signalled :: bool
  opts :: nn_sock_options
  statistics :: nn_statistics
  eps :: "addr list"
  sdeps :: "addr list"
  eid :: int
  holds :: int
  termsem :: nat
  relesem :: nat

section \<open>Creation\<close>

definition statistics_zero :: nn_statistics where
  "statistics_zero =
     \<lparr>established_connections = 0, accepted_connections = 0, dropped_connections = 0,
      broken_connections = 0, connect_errors = 0, bind_errors = 0, accept_errors = 0,
      messages_sent = 0, messages_received = 0, bytes_sent = 0, bytes_received = 0,
      cur_connections = 0, inprogress_connections = 0, current_snd_priority = 0, current_ep_errors = 0\<rparr>"

definition default_options :: "u8 list \<Rightarrow> nn_sock_options" where
  "default_options name =
     \<lparr>o_linger = 1000, o_sndbuf = 128 * 1024, o_rcvbuf = 128 * 1024, o_rcvmaxsize = 1024 * 1024,
      o_sndtimeo = -1, o_rcvtimeo = -1, o_reconnect_ivl = 100, o_reconnect_ivl_max = 0,
      o_sndprio = 8, o_rcvprio = 8, o_ipv4only = 1, o_socket_name = name\<rparr>"

text \<open>
  \<open>nn_sock_init\<close>: \<open>snd_rc\<close> and \<open>rcv_rc\<close> are what \<open>nn_efd_init\<close> returns, \<open>name\<close> the file descriptor in
  decimal. The last step starts the state machine, which leaves the socket active.
\<close>

definition nn_sock_init ::
  "nn_socktype \<Rightarrow> int \<Rightarrow> int \<Rightarrow> u8 list \<Rightarrow> (int \<times> nn_sock option) c_result" where
  "nn_sock_init type snd_rc rcv_rc name =
     (if st_nosend type \<and> st_norecv type then Inl Assertion
      else if \<not> st_nosend type \<and> snd_rc < 0 then Inr (snd_rc, None)
      else if \<not> st_norecv type \<and> rcv_rc < 0 then Inr (rcv_rc, None)
      else
        Inr (0, Some
          \<lparr>socktype = type, sstate = Sock_Active, flag_in = False, flag_out = False,
           rcv_signalled = False, snd_signalled = False, opts = default_options name,
           statistics = statistics_zero, eps = [], sdeps = [], eid = 1, holds = 1,
           termsem = 0, relesem = 0\<rparr>))"

definition nn_sock_hold :: "nn_sock \<Rightarrow> int \<times> nn_sock" where
  "nn_sock_hold self =
     (case sstate self of
        Sock_Active \<Rightarrow> (0, self\<lparr>holds := holds self + 1\<rparr>)
      | Sock_Init \<Rightarrow> (0, self\<lparr>holds := holds self + 1\<rparr>)
      | Sock_Zombie \<Rightarrow> (- ETERM, self)
      | _ \<Rightarrow> (- EBADF, self))"

definition nn_sock_rele :: "nn_sock \<Rightarrow> nn_sock" where
  "nn_sock_rele self =
     (let self = self\<lparr>holds := holds self - 1\<rparr>
      in if holds self = 0 then self\<lparr>relesem := relesem self + 1\<rparr> else self)"

definition nn_sock_ispeer :: "(int \<Rightarrow> int) \<Rightarrow> nn_sock \<Rightarrow> int \<Rightarrow> int" where
  "nn_sock_ispeer ispeer self type =
     (if st_protocol (socktype self) AND 0xfff0 \<noteq> type AND 0xfff0 then 0 else ispeer type)"

section \<open>Options\<close>

definition le_int :: "u8 list \<Rightarrow> int" where
  "le_int bs = sint (nn_getl (rev bs))"

definition le_bytes :: "int \<Rightarrow> u8 list" where
  "le_bytes v = rev (nn_putl (word_of_int v))"

text \<open>The switch of \<open>nn_sock_setopt_inner\<close> and of \<open>nn_sock_getopt_inner\<close> (\<open>None\<close>: no such integer option).\<close>

definition set_int_option :: "int \<Rightarrow> int \<Rightarrow> nn_sock_options \<Rightarrow> int \<times> nn_sock_options" where
  "set_int_option option val o' =
     (if option = 1 then (0, o'\<lparr>o_linger := val\<rparr>)
      else if option = 2 then (if val \<le> 0 then (- EINVAL, o') else (0, o'\<lparr>o_sndbuf := val\<rparr>))
      else if option = 3 then (if val \<le> 0 then (- EINVAL, o') else (0, o'\<lparr>o_rcvbuf := val\<rparr>))
      else if option = 16 then (if val < -1 then (- EINVAL, o') else (0, o'\<lparr>o_rcvmaxsize := val\<rparr>))
      else if option = 4 then (0, o'\<lparr>o_sndtimeo := val\<rparr>)
      else if option = 5 then (0, o'\<lparr>o_rcvtimeo := val\<rparr>)
      else if option = 6 then (if val < 0 then (- EINVAL, o') else (0, o'\<lparr>o_reconnect_ivl := val\<rparr>))
      else if option = 7 then (if val < 0 then (- EINVAL, o') else (0, o'\<lparr>o_reconnect_ivl_max := val\<rparr>))
      else if option = 8 then (if val < 1 \<or> val > 16 then (- EINVAL, o') else (0, o'\<lparr>o_sndprio := val\<rparr>))
      else if option = 9 then (if val < 1 \<or> val > 16 then (- EINVAL, o') else (0, o'\<lparr>o_rcvprio := val\<rparr>))
      else if option = 14 then (if val \<noteq> 0 \<and> val \<noteq> 1 then (- EINVAL, o') else (0, o'\<lparr>o_ipv4only := val\<rparr>))
      else (- ENOPROTOOPT, o'))"

definition get_int_option :: "nn_socktype \<Rightarrow> int \<Rightarrow> nn_sock_options \<Rightarrow> int option" where
  "get_int_option type option o' =
     (if option = 12 then Some (st_domain type)
      else if option = 13 then Some (st_protocol type)
      else if option = 1 then Some (o_linger o')
      else if option = 2 then Some (o_sndbuf o')
      else if option = 3 then Some (o_rcvbuf o')
      else if option = 16 then Some (o_rcvmaxsize o')
      else if option = 4 then Some (o_sndtimeo o')
      else if option = 5 then Some (o_rcvtimeo o')
      else if option = 6 then Some (o_reconnect_ivl o')
      else if option = 7 then Some (o_reconnect_ivl_max o')
      else if option = 8 then Some (o_sndprio o')
      else if option = 9 then Some (o_rcvprio o')
      else if option = 14 then Some (o_ipv4only o')
      else None)"

text \<open>
  \<open>proto\<close> handles the options of the protocol, \<open>tpt\<close> those of the transports (\<open>None\<close>: the transport has
  no option set); \<open>optval\<close> is the buffer.
\<close>

definition nn_sock_setopt_inner ::
  "(int \<Rightarrow> int \<Rightarrow> u8 list \<Rightarrow> int) \<Rightarrow> (int \<Rightarrow> (int \<Rightarrow> u8 list \<Rightarrow> int) option) \<Rightarrow>
     nn_sock_options \<Rightarrow> int \<Rightarrow> int \<Rightarrow> u8 list \<Rightarrow> int \<times> nn_sock_options" where
  "nn_sock_setopt_inner proto tpt o' level option optval =
     (if level > 0 then (proto level option optval, o')
      else if level < 0 then
        (case tpt level of None \<Rightarrow> (- ENOPROTOOPT, o') | Some f \<Rightarrow> (f option optval, o'))
      else if option = 15 then
        (if length optval > 63 then (- EINVAL, o') else (0, o'\<lparr>o_socket_name := optval\<rparr>))
      else if length optval \<noteq> 4 then (- EINVAL, o')
      else set_int_option option (le_int optval) o')"

text \<open>
  \<open>nn_sock_getopt_inner\<close> writes into a buffer of \<open>length buf\<close> bytes and returns the new length;
  \<open>sndfd\<close> and \<open>rcvfd\<close> are the file descriptors to poll.
\<close>

definition put_int :: "u8 list \<Rightarrow> int \<Rightarrow> u8 list" where
  "put_int buf v = take (length buf) (le_bytes v) @ drop 4 buf"

definition nn_sock_getopt_inner ::
  "(int \<Rightarrow> int \<Rightarrow> u8 list \<Rightarrow> int \<times> u8 list \<times> nat) \<Rightarrow> (int \<Rightarrow> (int \<Rightarrow> u8 list \<Rightarrow> int \<times> u8 list \<times> nat) option) \<Rightarrow>
     int \<Rightarrow> int \<Rightarrow> nn_sock \<Rightarrow> int \<Rightarrow> int \<Rightarrow> u8 list \<Rightarrow> int \<times> u8 list \<times> nat" where
  "nn_sock_getopt_inner proto tpt sndfd rcvfd self level option buf =
     (if level = 0 then
        (case get_int_option (socktype self) option (opts self) of
           Some v \<Rightarrow> (0, put_int buf v, 4)
         | None \<Rightarrow>
             if option = 10 then
               (if st_nosend (socktype self) then (- ENOPROTOOPT, buf, length buf) else (0, put_int buf sndfd, 4))
             else if option = 11 then
               (if st_norecv (socktype self) then (- ENOPROTOOPT, buf, length buf) else (0, put_int buf rcvfd, 4))
             else if option = 15 then
               (let name = takeWhile (\<lambda>b. b \<noteq> 0) (o_socket_name (opts self))
                in (0, take (length buf) (name @ replicate (length buf) 0), length name))
             else (- ENOPROTOOPT, buf, length buf))
      else if level > 0 then proto level option buf
      else (case tpt level of None \<Rightarrow> (- ENOPROTOOPT, buf, length buf) | Some f \<Rightarrow> f option buf))"

definition nn_sock_setopt ::
  "(int \<Rightarrow> int \<Rightarrow> u8 list \<Rightarrow> int) \<Rightarrow> (int \<Rightarrow> (int \<Rightarrow> u8 list \<Rightarrow> int) option) \<Rightarrow>
     nn_sock \<Rightarrow> int \<Rightarrow> int \<Rightarrow> u8 list \<Rightarrow> int \<times> nn_sock" where
  "nn_sock_setopt proto tpt self level option optval =
     (if sstate self = Sock_Zombie then (- ETERM, self)
      else let (rc, o') = nn_sock_setopt_inner proto tpt (opts self) level option optval
           in (rc, self\<lparr>opts := o'\<rparr>))"

definition nn_sock_getopt ::
  "(int \<Rightarrow> int \<Rightarrow> u8 list \<Rightarrow> int \<times> u8 list \<times> nat) \<Rightarrow> (int \<Rightarrow> (int \<Rightarrow> u8 list \<Rightarrow> int \<times> u8 list \<times> nat) option) \<Rightarrow>
     int \<Rightarrow> int \<Rightarrow> nn_sock \<Rightarrow> int \<Rightarrow> int \<Rightarrow> u8 list \<Rightarrow> int \<times> u8 list \<times> nat" where
  "nn_sock_getopt proto tpt sndfd rcvfd self level option buf =
     (if sstate self = Sock_Zombie then (- ETERM, buf, length buf)
      else nn_sock_getopt_inner proto tpt sndfd rcvfd self level option buf)"

section \<open>Statistics\<close>

datatype nn_stat =
    ESTABLISHED_CONNECTIONS | ACCEPTED_CONNECTIONS | DROPPED_CONNECTIONS | BROKEN_CONNECTIONS
  | CONNECT_ERRORS | BIND_ERRORS | ACCEPT_ERRORS | MESSAGES_SENT | MESSAGES_RECEIVED
  | BYTES_SENT | BYTES_RECEIVED | CURRENT_CONNECTIONS | INPROGRESS_CONNECTIONS
  | CURRENT_SND_PRIORITY | CURRENT_EP_ERRORS

definition INT_MAX :: int where "INT_MAX = 2 ^ 31 - 1"

definition counter_add :: "bool \<Rightarrow> int \<Rightarrow> u64 \<Rightarrow> u64 c_result" where
  "counter_add ok increment v = (if ok then Inr (v + word_of_int increment) else Inl Assertion)"

definition level_add :: "int \<Rightarrow> int \<Rightarrow> int c_result" where
  "level_add increment v =
     (if \<not> (increment > 0 \<or> v \<ge> - increment) then Inl Assertion
      else if \<not> (increment < INT_MAX \<and> increment > - INT_MAX) then Inl Assertion
      else Inr (v + increment))"

definition upd :: "'a c_result \<Rightarrow> ('a \<Rightarrow> nn_statistics) \<Rightarrow> nn_statistics c_result" where
  "upd r f = (case r of Inl e \<Rightarrow> Inl e | Inr v \<Rightarrow> Inr (f v))"

fun nn_sock_stat_increment :: "nn_statistics \<Rightarrow> nn_stat \<Rightarrow> int \<Rightarrow> nn_statistics c_result" where
  "nn_sock_stat_increment st ESTABLISHED_CONNECTIONS i =
     upd (counter_add (i > 0) i (established_connections st)) (\<lambda>v. st\<lparr>established_connections := v\<rparr>)"
| "nn_sock_stat_increment st ACCEPTED_CONNECTIONS i =
     upd (counter_add (i > 0) i (accepted_connections st)) (\<lambda>v. st\<lparr>accepted_connections := v\<rparr>)"
| "nn_sock_stat_increment st DROPPED_CONNECTIONS i =
     upd (counter_add (i > 0) i (dropped_connections st)) (\<lambda>v. st\<lparr>dropped_connections := v\<rparr>)"
| "nn_sock_stat_increment st BROKEN_CONNECTIONS i =
     upd (counter_add (i > 0) i (broken_connections st)) (\<lambda>v. st\<lparr>broken_connections := v\<rparr>)"
| "nn_sock_stat_increment st CONNECT_ERRORS i =
     upd (counter_add (i > 0) i (connect_errors st)) (\<lambda>v. st\<lparr>connect_errors := v\<rparr>)"
| "nn_sock_stat_increment st BIND_ERRORS i =
     upd (counter_add (i > 0) i (bind_errors st)) (\<lambda>v. st\<lparr>bind_errors := v\<rparr>)"
| "nn_sock_stat_increment st ACCEPT_ERRORS i =
     upd (counter_add (i > 0) i (accept_errors st)) (\<lambda>v. st\<lparr>accept_errors := v\<rparr>)"
| "nn_sock_stat_increment st MESSAGES_SENT i =
     upd (counter_add (i > 0) i (messages_sent st)) (\<lambda>v. st\<lparr>messages_sent := v\<rparr>)"
| "nn_sock_stat_increment st MESSAGES_RECEIVED i =
     upd (counter_add (i > 0) i (messages_received st)) (\<lambda>v. st\<lparr>messages_received := v\<rparr>)"
| "nn_sock_stat_increment st BYTES_SENT i =
     upd (counter_add (i \<ge> 0) i (bytes_sent st)) (\<lambda>v. st\<lparr>bytes_sent := v\<rparr>)"
| "nn_sock_stat_increment st BYTES_RECEIVED i =
     upd (counter_add (i \<ge> 0) i (bytes_received st)) (\<lambda>v. st\<lparr>bytes_received := v\<rparr>)"
| "nn_sock_stat_increment st CURRENT_CONNECTIONS i =
     upd (level_add i (cur_connections st)) (\<lambda>v. st\<lparr>cur_connections := v\<rparr>)"
| "nn_sock_stat_increment st INPROGRESS_CONNECTIONS i =
     upd (level_add i (inprogress_connections st)) (\<lambda>v. st\<lparr>inprogress_connections := v\<rparr>)"
| "nn_sock_stat_increment st CURRENT_SND_PRIORITY i =
     (if (i > 0 \<and> i \<le> 16) \<or> i = -1 then Inr (st\<lparr>current_snd_priority := i\<rparr>) else Inl Assertion)"
| "nn_sock_stat_increment st CURRENT_EP_ERRORS i =
     upd (level_add i (current_ep_errors st)) (\<lambda>v. st\<lparr>current_ep_errors := v\<rparr>)"

section \<open>Signalling\<close>

text \<open>\<open>nn_sock_onleave\<close>, with the events of the protocol, and \<open>nn_sock_action_zombify\<close>.\<close>

definition nn_sock_onleave :: "int \<Rightarrow> nn_sock \<Rightarrow> nn_sock c_result" where
  "nn_sock_onleave events sock =
     (if sstate sock \<noteq> Sock_Active then Inr sock
      else if events < 0 then Inl Assertion
      else
        let sock =
              (if st_norecv (socktype sock) then sock
               else if events AND NN_SOCKBASE_EVENT_IN \<noteq> 0 then
                 (if \<not> flag_in sock then sock\<lparr>flag_in := True, rcv_signalled := True\<rparr> else sock)
               else
                 (if flag_in sock then sock\<lparr>flag_in := False, rcv_signalled := False\<rparr> else sock));
            sock =
              (if st_nosend (socktype sock) then sock
               else if events AND NN_SOCKBASE_EVENT_OUT \<noteq> 0 then
                 (if \<not> flag_out sock then sock\<lparr>flag_out := True, snd_signalled := True\<rparr> else sock)
               else
                 (if flag_out sock then sock\<lparr>flag_out := False, snd_signalled := False\<rparr> else sock))
        in Inr sock)"

definition nn_sock_action_zombify :: "nn_sock \<Rightarrow> nn_sock" where
  "nn_sock_action_zombify self =
     (let self = self\<lparr>sstate := Sock_Zombie\<rparr>;
          self = (if \<not> flag_in self then
                    (if st_norecv (socktype self) then self\<lparr>flag_in := True\<rparr>
                     else self\<lparr>flag_in := True, rcv_signalled := True\<rparr>) else self)
      in if \<not> flag_out self then
           (if st_nosend (socktype self) then self\<lparr>flag_out := True\<rparr>
            else self\<lparr>flag_out := True, snd_signalled := True\<rparr>) else self)"

section \<open>Blocking send and receive\<close>

text \<open>
  One turn of the loop of \<open>nn_sock_send\<close> (\<open>nn_sock_recv\<close>) depends on what other threads and the system
  do: the state the socket is in, what the protocol's \<open>send\<close> returns, how the wait for the file
  descriptor ends and how long it took, whether the descriptor is still signalled afterwards, and the
  timeout option of the socket and the time in milliseconds then. A call consumes a list of such
  turns; \<open>None\<close> is a call that is still waiting after the last one. The second component of the result
  lists the timeouts it waited with, the third whether it set the flag of the direction.
\<close>

record turn =
  t_state :: sock_state
  t_rc :: int
  t_wait :: int
  t_spent :: nat
  t_ready :: int
  t_timeo :: int
  t_now :: u64

definition next_timeout :: "int \<Rightarrow> u64 \<Rightarrow> int \<Rightarrow> u64 \<Rightarrow> int" where
  "next_timeout timeo deadline timeout now =
     (if timeo \<ge> 0 then sint (ucast (if now > deadline then 0 else deadline - now) :: u32) else timeout)"

text \<open>How a turn ends: with a result, before or after the wait, or (\<open>None\<close>) with another turn.\<close>

definition one_turn :: "bool \<Rightarrow> turn \<Rightarrow> (bool \<times> int c_result) option" where
  "one_turn dontwait t =
     (if t_state t = Sock_Zombie then Some (False, Inr (- ETERM))
      else if t_state t \<noteq> Sock_Active \<and> t_state t \<noteq> Sock_Init then Some (False, Inr (- EBADF))
      else if t_rc t = 0 then Some (False, Inr 0)
      else if \<not> t_rc t < 0 then Some (False, Inl Assertion)
      else if t_rc t \<noteq> - EAGAIN then Some (False, Inr (t_rc t))
      else if dontwait then Some (False, Inr (- EAGAIN))
      else if t_wait t = - ETIMEDOUT then Some (True, Inr (- ETIMEDOUT))
      else if t_wait t = - EINTR then Some (True, Inr (- EINTR))
      else if t_wait t = - EBADF then Some (True, Inr (- EBADF))
      else if t_wait t \<noteq> 0 then Some (True, Inl Assertion)
      else None)"

fun nn_sock_loop :: "bool \<Rightarrow> u64 \<Rightarrow> int \<Rightarrow> turn list \<Rightarrow> int option c_result \<times> int list \<times> bool" where
  "nn_sock_loop dontwait deadline timeout [] = (Inr None, [], False)"
| "nn_sock_loop dontwait deadline timeout (t # ts) =
     (case one_turn dontwait t of
        Some (waited, r) \<Rightarrow> (map_sum (\<lambda>e. e) Some r, if waited then [timeout] else [], False)
      | None \<Rightarrow>
          let (r, ws, flag) = nn_sock_loop dontwait deadline (next_timeout (t_timeo t) deadline timeout (t_now t)) ts
          in (r, timeout # ws, flag \<or> t_ready t = 0))"

definition nn_sock_send :: "nn_sock \<Rightarrow> u64 \<Rightarrow> bool \<Rightarrow> turn list \<Rightarrow> int option c_result \<times> int list \<times> bool" where
  "nn_sock_send self now dontwait ts =
     (if st_nosend (socktype self) then (Inr (Some (- ENOTSUP)), [], False)
      else if o_sndtimeo (opts self) < 0 then nn_sock_loop dontwait (- 1) (- 1) ts
      else nn_sock_loop dontwait (now + word_of_int (o_sndtimeo (opts self))) (o_sndtimeo (opts self)) ts)"

definition nn_sock_recv :: "nn_sock \<Rightarrow> u64 \<Rightarrow> bool \<Rightarrow> turn list \<Rightarrow> int option c_result \<times> int list \<times> bool" where
  "nn_sock_recv self now dontwait ts =
     (if st_norecv (socktype self) then (Inr (Some (- ENOTSUP)), [], False)
      else if o_rcvtimeo (opts self) < 0 then nn_sock_loop dontwait (- 1) (- 1) ts
      else nn_sock_loop dontwait (now + word_of_int (o_rcvtimeo (opts self))) (o_rcvtimeo (opts self)) ts)"

section \<open>The life of a socket\<close>

text \<open>
  The socket's state machine while it runs (\<open>nn_sock_handler\<close>) and while it is being closed
  (\<open>nn_sock_shutdown\<close>). \<open>stop\<close> tells whether the protocol has a \<open>stop\<close> function, as those of REQ and
  SURVEYOR sockets; it answers later with \<open>nn_sock_stopped\<close>, the event \<open>Action_Stopped\<close>. Pipe events go
  to the protocol: \<open>pipe\<close> tells whether its handler returns.
\<close>

datatype sock_event = Action_Start | Action_Zombify | Action_Stop | Action_Stopped | Ep_Stopped addr | Pipe_Event

definition nn_sock_handler :: "bool \<Rightarrow> nn_sock \<Rightarrow> sock_event \<Rightarrow> nn_sock c_result" where
  "nn_sock_handler pipe sock ev =
     (case sstate sock of
        Sock_Init \<Rightarrow>
          (case ev of
             Action_Start \<Rightarrow> Inr (sock\<lparr>sstate := Sock_Active\<rparr>)
           | Action_Zombify \<Rightarrow> Inr (nn_sock_action_zombify sock)
           | _ \<Rightarrow> Inl Assertion)
      | Sock_Active \<Rightarrow>
          (case ev of
             Action_Zombify \<Rightarrow> Inr (nn_sock_action_zombify sock)
           | Ep_Stopped ep \<Rightarrow>
               if ep \<in> set (sdeps sock) then Inr (sock\<lparr>sdeps := remove1 ep (sdeps sock)\<rparr>) else Inl Assertion
           | Pipe_Event \<Rightarrow> if pipe then Inr sock else Inl Assertion
           | _ \<Rightarrow> Inl Assertion)
      | _ \<Rightarrow> Inl Assertion)"

definition shutdown_finish :: "bool \<Rightarrow> nn_sock \<Rightarrow> nn_sock c_result" where
  "shutdown_finish stop sock =
     (if sdeps sock \<noteq> [] then Inr sock
      else if eps sock \<noteq> [] then Inl Assertion
      else if stop then Inr (sock\<lparr>sstate := Sock_Stopping\<rparr>)
      else Inr (sock\<lparr>sstate := Sock_Fini, termsem := termsem sock + 1\<rparr>))"

definition nn_sock_shutdown :: "bool \<Rightarrow> nn_sock \<Rightarrow> sock_event \<Rightarrow> nn_sock c_result" where
  "nn_sock_shutdown stop sock ev =
     (if ev = Action_Stop then
        (if sstate sock \<noteq> Sock_Active \<and> sstate sock \<noteq> Sock_Zombie then Inl Assertion
         else shutdown_finish stop (sock\<lparr>sdeps := sdeps sock @ eps sock, eps := [], sstate := Sock_Stopping_Eps\<rparr>))
      else if sstate sock = Sock_Stopping_Eps then
        (case ev of
           Ep_Stopped ep \<Rightarrow>
             if ep \<in> set (sdeps sock) then shutdown_finish stop (sock\<lparr>sdeps := remove1 ep (sdeps sock)\<rparr>) else Inl Assertion
         | _ \<Rightarrow> Inr sock)
      else if sstate sock = Sock_Stopping then
        (if ev = Action_Stopped then Inr (sock\<lparr>sstate := Sock_Fini, termsem := termsem sock + 1\<rparr>) else Inl Assertion)
      else Inl Assertion)"

definition nn_sock_add_ep :: "nn_sock \<Rightarrow> addr \<Rightarrow> int \<Rightarrow> int \<times> nn_sock" where
  "nn_sock_add_ep self ep rc =
     (if rc < 0 then (rc, self)
      else (eid self, self\<lparr>eid := eid self + 1, eps := eps self @ [ep]\<rparr>))"

definition nn_sock_rm_ep :: "(addr \<Rightarrow> int) \<Rightarrow> nn_sock \<Rightarrow> int \<Rightarrow> int \<times> nn_sock" where
  "nn_sock_rm_ep eid_of self i =
     (case List.find (\<lambda>ep. eid_of ep = i) (eps self) of
        None \<Rightarrow> (- EINVAL, self)
      | Some ep \<Rightarrow> (0, self\<lparr>eps := remove1 ep (eps self), sdeps := sdeps self @ [ep]\<rparr>))"

section \<open>Lemmas\<close>

definition options_ok :: "nn_sock_options \<Rightarrow> bool" where
  "options_ok o' \<longleftrightarrow> o_sndbuf o' > 0 \<and> o_rcvbuf o' > 0 \<and> o_rcvmaxsize o' \<ge> -1 \<and> o_reconnect_ivl o' \<ge> 0
     \<and> o_reconnect_ivl_max o' \<ge> 0 \<and> o_sndprio o' \<in> {1..16} \<and> o_rcvprio o' \<in> {1..16} \<and> o_ipv4only o' \<in> {0, 1}
     \<and> length (o_socket_name o') \<le> 63"

lemma option_cases:
  fixes option :: int
  obtains "option = 1" | "option = 2" | "option = 3" | "option = 4" | "option = 5" | "option = 6" | "option = 7"
    | "option = 8" | "option = 9" | "option = 14" | "option = 16" | "option \<notin> {1, 2, 3, 4, 5, 6, 7, 8, 9, 14, 16}"
  by fast

lemma set_int_option_ok: "options_ok o' \<Longrightarrow> options_ok (snd (set_int_option option val o'))"
  by (cases option rule: option_cases) (simp_all add: set_int_option_def options_ok_def)

lemma set_int_option_fails: "fst (set_int_option option val o') \<noteq> 0 \<Longrightarrow> snd (set_int_option option val o') = o'"
  by (cases option rule: option_cases) (auto simp: set_int_option_def split: if_splits)

lemma set_get_int_option:
  "set_int_option option val o' = (0, o'') \<Longrightarrow> get_int_option type option o'' = Some val"
  by (cases option rule: option_cases)
     (auto simp: set_int_option_def get_int_option_def errno_defs split: if_splits)

lemma le_bytes_int: "length bs = 4 \<Longrightarrow> le_bytes (le_int bs) = bs"
  by (simp add: le_bytes_def le_int_def nn_putl_getl)

lemma sint_small: "unat d < 2 ^ 31 \<Longrightarrow> sint (ucast d :: u32) = int (unat d)" for d :: u64
proof -
  assume "unat d < 2 ^ 31"
  then have "sint (of_nat (unat d) :: u32) = int (unat d)"
    unfolding signed_of_nat by (subst signed_take_bit_int_eq_self) (simp_all del: of_nat_unat add: order_trans)
  then show ?thesis by (simp only: of_nat_unat)
qed

text \<open>The timeout of the next wait is the time that is left until the deadline.\<close>

lemma next_timeout_left:
  fixes deadline now :: u64
  assumes "0 \<le> timeo" "int (unat deadline) - int (unat now) < 2 ^ 31"
  shows "next_timeout timeo deadline timeout now = max 0 (int (unat deadline) - int (unat now))"
proof -
  define d where "d = (if now > deadline then 0 else deadline - now)"
  have "unat d = unat deadline - unat now"
    by (cases "now > deadline") (simp_all add: d_def word_less_nat_alt unat_sub not_less word_le_nat_alt)
  moreover have "int (a - b) = max 0 (int a - int b)" for a b by linarith
  ultimately have d: "int (unat d) = max 0 (int (unat deadline) - int (unat now))" by metis
  have "int (unat d) < int (2 ^ 31)" unfolding d using assms(2) by simp
  then have "unat d < 2 ^ 31" by (simp only: of_nat_less_iff)
  from sint_small [OF this] d assms(1) show ?thesis
    unfolding next_timeout_def d_def by simp
qed

lemma deadline_value:
  fixes now :: u64
  assumes "0 \<le> timeo" "timeo < 2 ^ 31" "unat now + nat timeo < 2 ^ 64"
  shows "int (unat (now + word_of_int timeo)) = int (unat now) + timeo"
proof -
  have "unat (word_of_int timeo :: u64) = nat timeo"
    using assms(1,2) by (simp add: unsigned_of_int take_bit_int_eq_self nat_less_iff)
  then have "unat (now + word_of_int timeo) = unat now + nat timeo"
    using assms(3) by (simp add: unat_word_ariths)
  with assms(1) show ?thesis by simp
qed

text \<open>
  What the system promises of the waits: none takes longer than the timeout it was given, and the
  clock advances by at least the time spent.
\<close>

fun waits_ok :: "u64 \<Rightarrow> int list \<Rightarrow> turn list \<Rightarrow> bool" where
  "waits_ok now (w # ws) (t # ts) \<longleftrightarrow>
     int (t_spent t) \<le> w \<and> unat now + t_spent t \<le> unat (t_now t) \<and> 0 \<le> t_timeo t \<and> waits_ok (t_now t) ws ts"
| "waits_ok now _ _ \<longleftrightarrow> True"

definition time_waited :: "int list \<Rightarrow> turn list \<Rightarrow> nat" where
  "time_waited ws ts = sum_list (map t_spent (take (length ws) ts))"

lemma nn_sock_loop_waits:
  assumes "waits_ok now (fst (snd (nn_sock_loop dontwait deadline timeout ts))) ts"
    and "timeout = max 0 (int (unat deadline) - int (unat now))" and "timeout < 2 ^ 31"
  shows "int (time_waited (fst (snd (nn_sock_loop dontwait deadline timeout ts))) ts) \<le> timeout
    \<and> set (fst (snd (nn_sock_loop dontwait deadline timeout ts))) \<subseteq> {0..timeout}"
  using assms
proof (induction ts arbitrary: now timeout)
  case (Cons t ts)
  show ?case
  proof (cases "one_turn dontwait t")
    case None
    let ?w = "next_timeout (t_timeo t) deadline timeout (t_now t)"
    let ?ws = "fst (snd (nn_sock_loop dontwait deadline ?w ts))"
    have ws: "fst (snd (nn_sock_loop dontwait deadline timeout (t # ts))) = timeout # ?ws"
      using None by (simp add: Let_def split_beta)
    from Cons.prems(1) have t: "int (t_spent t) \<le> timeout" "unat now + t_spent t \<le> unat (t_now t)" "0 \<le> t_timeo t"
      and rest: "waits_ok (t_now t) ?ws ts" unfolding ws by simp_all
    have left: "?w = max 0 (int (unat deadline) - int (unat (t_now t)))"
      using t Cons.prems(2,3) by (intro next_timeout_left) linarith+
    moreover have "?w \<le> timeout - int (t_spent t) \<or> ?w = 0" using left t Cons.prems(2) by linarith
    ultimately have "?w + int (t_spent t) \<le> timeout" "0 \<le> ?w" "?w < 2 ^ 31"
      using t(1) Cons.prems(3) by linarith+
    with Cons.IH [OF rest left] t(1) show ?thesis unfolding ws by (auto simp: time_waited_def)
  next
    case (Some wr)
    obtain w r where wr: "wr = (w, r)" by (cases wr)
    show ?thesis
    proof (cases w)
      case True
      then have ws: "fst (snd (nn_sock_loop dontwait deadline timeout (t # ts))) = [timeout]"
        using Some wr by simp
      from Cons.prems(1) have "int (t_spent t) \<le> timeout" unfolding ws by simp
      then show ?thesis unfolding ws by (simp add: time_waited_def)
    next
      case False
      with Some wr Cons.prems(2) show ?thesis by (simp add: time_waited_def)
    qed
  qed
qed (simp add: time_waited_def)

lemma one_turn_dontwait: "\<exists>r. one_turn True t = Some (False, r)"
  by (simp add: one_turn_def)

lemma one_turn_zero: "one_turn dontwait t = Some (w, Inr 0) \<Longrightarrow> t_rc t = 0 \<and> t_state t \<in> {Sock_Active, Sock_Init}"
  by (auto simp: one_turn_def errno_defs split: if_splits)

lemma one_turn_again: "one_turn dontwait t = None \<Longrightarrow> t_rc t = - EAGAIN"
  by (auto simp: one_turn_def split: if_splits)

lemma nn_sock_loop_dontwait:
  "fst (snd (nn_sock_loop True deadline timeout ts)) = []
     \<and> (ts \<noteq> [] \<longrightarrow> fst (nn_sock_loop True deadline timeout ts) \<noteq> Inr None)"
proof (cases ts)
  case (Cons t us)
  obtain r where "one_turn True t = Some (False, r)" using one_turn_dontwait by blast
  with Cons show ?thesis by (cases r) simp_all
qed simp

lemma nn_sock_loop_zero:
  "fst (nn_sock_loop dontwait deadline timeout ts) = Inr (Some 0) \<Longrightarrow>
     \<exists>us t vs. ts = us @ t # vs \<and> t_rc t = 0 \<and> t_state t \<in> {Sock_Active, Sock_Init} \<and> (\<forall>u\<in>set us. t_rc u = - EAGAIN)"
proof (induction ts arbitrary: timeout)
  case (Cons t ts)
  show ?case
  proof (cases "one_turn dontwait t")
    case None
    with Cons.prems obtain tm where "fst (nn_sock_loop dontwait deadline tm ts) = Inr (Some 0)"
      by (auto simp: Let_def split_beta)
    from Cons.IH [OF this] obtain us v vs where v: "ts = us @ v # vs" "t_rc v = 0"
      "t_state v \<in> {Sock_Active, Sock_Init}" "\<forall>u\<in>set us. t_rc u = - EAGAIN" by blast
    then have "t # ts = (t # us) @ v # vs" "\<forall>u\<in>set (t # us). t_rc u = - EAGAIN"
      using one_turn_again [OF None] by simp_all
    with v(2,3) show ?thesis by blast
  next
    case (Some wr)
    with Cons.prems obtain w where "one_turn dontwait t = Some (w, Inr 0)"
      by (cases wr; cases "snd wr") auto
    from one_turn_zero [OF this] show ?thesis by (intro exI [of _ "[]"]) auto
  qed
qed simp

fun run_shutdown :: "bool \<Rightarrow> nn_sock \<Rightarrow> sock_event list \<Rightarrow> nn_sock c_result" where
  "run_shutdown stop sock [] = Inr sock"
| "run_shutdown stop sock (ev # evs) =
     (case nn_sock_shutdown stop sock ev of Inl e \<Rightarrow> Inl e | Inr sock \<Rightarrow> run_shutdown stop sock evs)"

text \<open>The socket when its last endpoint has stopped: finished, or waiting for its protocol.\<close>

definition eps_stopped :: "bool \<Rightarrow> nn_sock \<Rightarrow> nn_sock \<Rightarrow> bool" where
  "eps_stopped stop sock sock' \<longleftrightarrow>
     (if stop then sstate sock' = Sock_Stopping \<and> termsem sock' = termsem sock
      else sstate sock' = Sock_Fini \<and> termsem sock' = Suc (termsem sock))"

lemma run_shutdown_eps:
  assumes "sstate sock = Sock_Stopping_Eps" and "eps sock = []" and "sdeps sock \<noteq> []"
    and "mset es \<subseteq># mset (sdeps sock)"
  shows "\<exists>sock'. run_shutdown stop sock (map Ep_Stopped es) = Inr sock' \<and> mset (sdeps sock') = mset (sdeps sock) - mset es
     \<and> (if mset es = mset (sdeps sock) then eps_stopped stop sock sock'
        else sstate sock' = Sock_Stopping_Eps \<and> termsem sock' = termsem sock)"
  using assms
proof (induction es arbitrary: sock)
  case Nil
  then show ?case by auto
next
  case (Cons e es)
  have e: "e \<in> set (sdeps sock)" using mset_subset_eqD [OF Cons.prems(4), of e] by simp
  define R where "R = remove1 e (sdeps sock)"
  have split: "mset (sdeps sock) = add_mset e (mset R)" unfolding R_def using e by simp
  have sub: "mset es \<subseteq># mset R" using Cons.prems(4) unfolding split by simp
  have step: "nn_sock_shutdown stop sock (Ep_Stopped e) = shutdown_finish stop (sock\<lparr>sdeps := R\<rparr>)"
    using Cons.prems(1) e by (simp add: nn_sock_shutdown_def R_def)
  show ?case
  proof (cases "R = []")
    case True
    then have "es = []" using sub by simp
    with True step Cons.prems(2) show ?thesis unfolding split by (simp add: shutdown_finish_def eps_stopped_def)
  next
    case False
    then have "shutdown_finish stop (sock\<lparr>sdeps := R\<rparr>) = Inr (sock\<lparr>sdeps := R\<rparr>)" by (simp add: shutdown_finish_def)
    then show ?thesis
      using Cons.IH [of "sock\<lparr>sdeps := R\<rparr>"] Cons.prems(1,2) False sub step unfolding split
      by (cases "mset es = mset R") (auto simp: eps_stopped_def)
  qed
qed

lemma close_eps:
  assumes "sstate sock \<in> {Sock_Active, Sock_Zombie}" and "mset es \<subseteq># mset (sdeps sock @ eps sock)"
  shows "\<exists>sock'. run_shutdown stop sock (Action_Stop # map Ep_Stopped es) = Inr sock'
     \<and> (if mset es = mset (sdeps sock @ eps sock) then eps_stopped stop sock sock'
        else sstate sock' = Sock_Stopping_Eps \<and> termsem sock' = termsem sock)"
proof (cases "sdeps sock @ eps sock = []")
  case True
  with assms show ?thesis by (auto simp: nn_sock_shutdown_def shutdown_finish_def eps_stopped_def)
next
  case False
  let ?sock = "sock\<lparr>sdeps := sdeps sock @ eps sock, eps := [], sstate := Sock_Stopping_Eps\<rparr>"
  have "run_shutdown stop sock (Action_Stop # map Ep_Stopped es) = run_shutdown stop ?sock (map Ep_Stopped es)"
    using False assms(1) by (auto simp: nn_sock_shutdown_def shutdown_finish_def)
  with run_shutdown_eps [of ?sock es stop] False assms(2) show ?thesis by (auto simp: eps_stopped_def)
qed

lemma run_shutdown_append:
  "run_shutdown stop sock (xs @ ys) =
     (case run_shutdown stop sock xs of Inl e \<Rightarrow> Inl e | Inr sock \<Rightarrow> run_shutdown stop sock ys)"
  by (induction xs arbitrary: sock) (auto split: sum.split)

section \<open>Properties\<close>

text \<open>
  Property C31. Socket-level options round-trip and stay in range. After a successful
  \<open>nn_sock_setopt\<close> the value of an integer option is read back byte for byte, cut to the size of the
  caller's buffer; the socket name is read back up to its first NUL byte, cut to the buffer and padded
  with NUL bytes, and the length that is returned is that of this name. A call that fails leaves all
  options as they were; and after any call buffer sizes are positive, intervals are not negative,
  priorities are between 1 and 16, and the socket name fits its 64 bytes with the terminator.
\<close>
theorem sock_options_roundtrip:
  assumes "options_ok (opts self)" and "nn_sock_setopt proto tpt self 0 option optval = (rc, self')"
  shows "options_ok (opts self')
       \<and> (rc \<noteq> 0 \<longrightarrow> self' = self)
       \<and> (rc = 0 \<longrightarrow> nn_sock_getopt gproto gtpt sndfd rcvfd self' 0 option buf =
            (if option = 15
             then (0, take (length buf) (takeWhile (\<lambda>b. b \<noteq> 0) optval @ replicate (length buf) 0),
                   length (takeWhile (\<lambda>b. b \<noteq> 0) optval))
             else (0, take (length buf) optval @ drop 4 buf, 4)))"
proof -
  let ?r = "nn_sock_setopt_inner proto tpt (opts self) 0 option optval"
  have inner: "options_ok (snd ?r)" "fst ?r \<noteq> 0 \<longrightarrow> snd ?r = opts self"
    using assms(1) set_int_option_ok set_int_option_fails
    by (auto simp: nn_sock_setopt_inner_def) (simp_all add: options_ok_def)
  have reads: "nn_sock_getopt gproto gtpt sndfd rcvfd self' 0 option buf =
      (if option = 15
       then (0, take (length buf) (takeWhile (\<lambda>b. b \<noteq> 0) optval @ replicate (length buf) 0),
             length (takeWhile (\<lambda>b. b \<noteq> 0) optval))
       else (0, take (length buf) optval @ drop 4 buf, 4))"
    if z: "rc = 0"
  proof -
    have nz: "sstate self \<noteq> Sock_Zombie" using assms(2) z by (auto simp: nn_sock_setopt_def ETERM_def split: if_splits)
    then have s: "?r = (0, opts self')" "sstate self' = sstate self" "socktype self' = socktype self"
      using assms(2) z by (auto simp: nn_sock_setopt_def split: prod.splits)
    show ?thesis
    proof (cases "option = 15")
      case True
      with s(1) have "(opts self)\<lparr>o_socket_name := optval\<rparr> = opts self'"
        by (auto simp: nn_sock_setopt_inner_def errno_defs split: if_splits)
      from arg_cong [OF this, of o_socket_name] have "o_socket_name (opts self') = optval" by simp
      with True nz s(2) show ?thesis
        by (simp add: nn_sock_getopt_def nn_sock_getopt_inner_def get_int_option_def Let_def)
    next
      case False
      with s have set: "length optval = 4" "set_int_option option (le_int optval) (opts self) = (0, opts self')"
        by (auto simp: nn_sock_setopt_inner_def errno_defs split: if_splits)
      have "get_int_option (socktype self') option (opts self') = Some (le_int optval)"
        by (rule set_get_int_option [OF set(2)])
      with False set(1) nz s(2) show ?thesis
        by (simp add: nn_sock_getopt_def nn_sock_getopt_inner_def put_int_def le_bytes_int)
    qed
  qed
  show ?thesis
    using assms inner reads by (auto simp: nn_sock_setopt_def split: if_splits prod.splits)
qed

definition fresh_pair :: nn_sock where
  "fresh_pair =
     \<lparr>socktype = \<lparr>st_domain = 1, st_protocol = 16, st_norecv = False, st_nosend = False\<rparr>, sstate = Sock_Active,
      flag_in = False, flag_out = False, rcv_signalled = False, snd_signalled = False,
      opts = default_options [], statistics = statistics_zero, eps = [], sdeps = [], eid = 1, holds = 1,
      termsem = 0, relesem = 0\<rparr>"

text \<open>The send timeout of a fresh pair socket, set to 100 milliseconds.\<close>
theorem sock_options_roundtrip_witness:
  "\<exists>self'. nn_sock_setopt (\<lambda>_ _ _. 0) (\<lambda>_. None) fresh_pair 0 4 [100, 0, 0, 0] = (0, self')
     \<and> nn_sock_getopt (\<lambda>_ _ b. (0, b, 0)) (\<lambda>_. None) 3 4 self' 0 4 [9, 9, 9, 9] = (0, [100, 0, 0, 0], 4)"
proof -
  have ok: "options_ok (opts fresh_pair)" by (simp add: fresh_pair_def options_ok_def default_options_def)
  have "\<exists>self'. nn_sock_setopt (\<lambda>_ _ _. 0) (\<lambda>_. None) fresh_pair 0 4 [100, 0, 0, 0] = (0, self')"
    by (simp add: fresh_pair_def nn_sock_setopt_def nn_sock_setopt_inner_def set_int_option_def)
  then obtain self' where set: "nn_sock_setopt (\<lambda>_ _ _. 0) (\<lambda>_. None) fresh_pair 0 4 [100, 0, 0, 0] = (0, self')" ..
  from sock_options_roundtrip [OF ok set, of "\<lambda>_ _ b. (0, b, 0)" "\<lambda>_. None" 3 4 "[9, 9, 9, 9]"] set
  show ?thesis by auto
qed

text \<open>
  The file descriptors that an application polls are right. When the context of an
  active socket is left, \<open>NN_RCVFD\<close> (\<open>NN_SNDFD\<close>) is signalled exactly when the protocol can receive
  (send), and the flags that avoid signalling twice agree with the descriptors; turning a socket into
  a zombie signals both, so that no poller sleeps on.
\<close>
theorem sock_signals_events:
  assumes "\<not> st_norecv (socktype sock)" and "\<not> st_nosend (socktype sock)" and "0 \<le> events"
    and "flag_in sock = rcv_signalled sock" and "flag_out sock = snd_signalled sock"
  shows "(sstate sock = Sock_Active \<longrightarrow>
            (\<exists>sock'. nn_sock_onleave events sock = Inr sock'
               \<and> (rcv_signalled sock' \<longleftrightarrow> events AND NN_SOCKBASE_EVENT_IN \<noteq> 0)
               \<and> (snd_signalled sock' \<longleftrightarrow> events AND NN_SOCKBASE_EVENT_OUT \<noteq> 0)
               \<and> flag_in sock' = rcv_signalled sock' \<and> flag_out sock' = snd_signalled sock'))
       \<and> rcv_signalled (nn_sock_action_zombify sock) \<and> snd_signalled (nn_sock_action_zombify sock)
       \<and> sstate (nn_sock_action_zombify sock) = Sock_Zombie"
  using assms by (simp add: nn_sock_onleave_def nn_sock_action_zombify_def Let_def)

text \<open>A fresh pair socket whose protocol becomes readable.\<close>
theorem sock_signals_events_witness:
  "\<exists>sock'. nn_sock_onleave 1 fresh_pair = Inr sock' \<and> rcv_signalled sock' \<and> \<not> snd_signalled sock'"
  using sock_signals_events [of fresh_pair 1]
  by (auto simp: fresh_pair_def NN_SOCKBASE_EVENT_IN_def NN_SOCKBASE_EVENT_OUT_def)

text \<open>
  Property C30. Blocking send on a socket that supports sending: success is reported only when the
  protocol took the message, after turns in which it answered \<open>EAGAIN\<close> only; with \<open>NN_DONTWAIT\<close> the
  call never waits and always returns; and with a timeout of up to 2^31 - 1 milliseconds that is not
  made infinite during the call, all its waits together take no longer than the timeout, and none is
  infinite, as long as no wait takes longer than the timeout it was given and the clock advances by at
  least the time spent waiting.
\<close>
theorem sock_send_blocking:
  assumes "\<not> st_nosend (socktype self)" and "nn_sock_send self now dontwait ts = (r, ws, flag)"
  shows "(r = Inr (Some 0) \<longrightarrow>
            (\<exists>us t vs. ts = us @ t # vs \<and> t_rc t = 0 \<and> t_state t \<in> {Sock_Active, Sock_Init}
               \<and> (\<forall>u\<in>set us. t_rc u = - EAGAIN)))
       \<and> (dontwait \<and> ts \<noteq> [] \<longrightarrow> ws = [] \<and> r \<noteq> Inr None)
       \<and> (0 \<le> o_sndtimeo (opts self) \<and> o_sndtimeo (opts self) < 2 ^ 31
            \<and> unat now + nat (o_sndtimeo (opts self)) < 2 ^ 64 \<and> waits_ok now ws ts \<longrightarrow>
            int (time_waited ws ts) \<le> o_sndtimeo (opts self) \<and> set ws \<subseteq> {0..o_sndtimeo (opts self)})"
proof -
  let ?T = "o_sndtimeo (opts self)"
  define D where "D = (if ?T < 0 then - 1 else now + word_of_int ?T)"
  define w where "w = (if ?T < 0 then - 1 else ?T)"
  have loop: "nn_sock_loop dontwait D w ts = (r, ws, flag)"
    using assms by (auto simp: nn_sock_send_def D_def w_def split: if_splits)
  have "int (time_waited ws ts) \<le> ?T \<and> set ws \<subseteq> {0..?T}"
    if T: "0 \<le> ?T" "?T < 2 ^ 31" "unat now + nat ?T < 2 ^ 64" and ok: "waits_ok now ws ts"
    using nn_sock_loop_waits [of now dontwait D w ts] deadline_value [OF T] loop T(1,2) ok by (simp add: D_def w_def)
  moreover have "dontwait \<and> ts \<noteq> [] \<longrightarrow> ws = [] \<and> r \<noteq> Inr None"
    using nn_sock_loop_dontwait [of D w ts] loop by (cases dontwait) auto
  ultimately show ?thesis
    using nn_sock_loop_zero [of dontwait D w ts] loop by auto
qed

text \<open>
  A send with a timeout of 100 milliseconds: the first wait ends after 60 without the message being
  taken, so the second has 40 left and times out.
\<close>

definition slow_turns :: "turn list" where
  "slow_turns =
     [\<lparr>t_state = Sock_Active, t_rc = - EAGAIN, t_wait = 0, t_spent = 60, t_ready = 0, t_timeo = 100, t_now = 1060\<rparr>,
      \<lparr>t_state = Sock_Active, t_rc = - EAGAIN, t_wait = - ETIMEDOUT, t_spent = 40, t_ready = 0, t_timeo = 100, t_now = 1100\<rparr>]"

definition slow_pair :: nn_sock where
  "slow_pair = fresh_pair\<lparr>opts := (default_options [])\<lparr>o_sndtimeo := 100\<rparr>\<rparr>"

theorem sock_send_blocking_witness:
  "nn_sock_send slow_pair 1000 False slow_turns = (Inr (Some (- ETIMEDOUT)), [100, 40], True)
   \<and> int (time_waited [100, 40] slow_turns) \<le> 100 \<and> time_waited [100, 40] slow_turns = 100"
proof -
  have T: "o_sndtimeo (opts slow_pair) = 100" by (simp add: slow_pair_def fresh_pair_def)
  have run: "nn_sock_send slow_pair 1000 False slow_turns = (Inr (Some (- ETIMEDOUT)), [100, 40], True)"
    by (simp add: nn_sock_send_def slow_pair_def fresh_pair_def slow_turns_def one_turn_def errno_defs next_timeout_def)
  have "\<not> st_nosend (socktype slow_pair)" by (simp add: slow_pair_def fresh_pair_def)
  moreover have "waits_ok 1000 [100, 40] slow_turns" by (simp add: slow_turns_def)
  moreover have "time_waited [100, 40] slow_turns = 100" by (simp add: time_waited_def slow_turns_def)
  ultimately show ?thesis using sock_send_blocking [OF _ run] run T by simp
qed

text \<open>
  Property C21. Closing a socket ends, and not too early. Once the socket is stopped and every endpoint
  (those in use and those already shutting down) has reported that it stopped, in whatever order, a
  socket whose protocol has no stop function is finished, and the thread waiting in \<open>nn_close\<close> is
  released exactly once; a socket whose protocol has one waits for the protocol, and is finished and
  releases the thread when the protocol reports that it stopped. While an endpoint is still missing the
  thread is not released.
\<close>
theorem sock_close_completes:
  assumes "sstate sock \<in> {Sock_Active, Sock_Zombie}" and "mset es \<subseteq># mset (sdeps sock @ eps sock)"
  shows "\<exists>sock'. run_shutdown stop sock (Action_Stop # map Ep_Stopped es) = Inr sock'
     \<and> (if mset es \<noteq> mset (sdeps sock @ eps sock)
        then sstate sock' = Sock_Stopping_Eps \<and> termsem sock' = termsem sock
        else if \<not> stop then sstate sock' = Sock_Fini \<and> termsem sock' = Suc (termsem sock)
        else sstate sock' = Sock_Stopping \<and> termsem sock' = termsem sock
          \<and> (\<exists>sock''. run_shutdown stop sock (Action_Stop # map Ep_Stopped es @ [Action_Stopped]) = Inr sock''
               \<and> sstate sock'' = Sock_Fini \<and> termsem sock'' = Suc (termsem sock)))"
proof -
  from close_eps [OF assms, of stop] obtain sock' where
    run: "run_shutdown stop sock (Action_Stop # map Ep_Stopped es) = Inr sock'" and
    eps: "if mset es = mset (sdeps sock @ eps sock) then eps_stopped stop sock sock'
      else sstate sock' = Sock_Stopping_Eps \<and> termsem sock' = termsem sock" by blast
  have "run_shutdown stop sock (Action_Stop # map Ep_Stopped es @ [Action_Stopped]) =
      run_shutdown stop sock' [Action_Stopped]"
    using run_shutdown_append [of stop sock "Action_Stop # map Ep_Stopped es" "[Action_Stopped]"] run
    by (simp del: run_shutdown.simps)
  moreover have "\<exists>sock''. run_shutdown stop sock' [Action_Stopped] = Inr sock''
      \<and> sstate sock'' = Sock_Fini \<and> termsem sock'' = Suc (termsem sock')" if "sstate sock' = Sock_Stopping"
    using that by (simp add: nn_sock_shutdown_def)
  ultimately show ?thesis
    using run eps by (intro exI [of _ sock'])
      (auto simp: eps_stopped_def simp del: run_shutdown.simps split: if_splits)
qed

text \<open>
  A socket with two endpoints, which report in reverse order, and whose protocol has a stop function.
\<close>
theorem sock_close_completes_witness:
  "\<exists>sock'. run_shutdown True (fresh_pair\<lparr>eps := [1, 2]\<rparr>) [Action_Stop, Ep_Stopped 2, Ep_Stopped 1, Action_Stopped] = Inr sock'
     \<and> sstate sock' = Sock_Fini \<and> termsem sock' = 1"
  using sock_close_completes [of "fresh_pair\<lparr>eps := [1, 2]\<rparr>" "[2, 1]" True] by (auto simp: fresh_pair_def)

end
