(* ===== verification/Base64_Lists.thy ===== *)
theory Base64_Lists
  imports Nn_Errno
begin

unbundle bit_operations_syntax

text \<open>
  The two tables of \<open>nanomsg/src/transports/utils/base64.c\<close> and a reference coding over lists: the input is
  consumed byte by byte, the output is the list of the bytes written so far, and the lengths are natural
  numbers. Both directions are compared with the stream of bits they regroup. The routines as the code
  has them, with 32-bit counters and a buffer written by index, are in \<open>Nn_Base64\<close>, where they are proved
  equal to these while no counter wraps.
\<close>

section \<open>Decoding\<close>

text \<open>The table of 256 entries, with runs of equal or consecutive entries written as such.\<close>

definition DECODEMAP :: "u8 list" where
  "DECODEMAP =
     replicate 43 0xff @ [0x3e] @ replicate 3 0xff @ [0x3f] @ map of_nat [0x34..<0x3e] @ replicate 3 0xff @ [0x3e]
     @ replicate 3 0xff @ map of_nat [0..<0x1a] @ replicate 6 0xff @ map of_nat [0x1a..<0x34] @ replicate 133 0xff"

text \<open>\<open>isspace\<close> of the C locale.\<close>

definition is_space :: "u8 \<Rightarrow> bool" where
  "is_space c \<longleftrightarrow> c = 32 \<or> (9 \<le> c \<and> c \<le> 13)"

definition decode_end_list :: "nat \<Rightarrow> u32 \<Rightarrow> nat \<Rightarrow> u8 list \<Rightarrow> int \<times> u8 list" where
  "decode_end_list out_len v rem out =
     (if rem \<ge> 8 then
        (if length out \<ge> out_len then (- ENOBUFS, out)
         else (int (length out + 1), out @ [ucast (drop_bit (rem - 8) v AND 255)]))
      else (int (length out), out))"

text \<open>
  The index of the table is a \<open>char\<close> converted to \<open>int\<close>: a byte from 128 on is a negative index, that is a
  read in front of the table.
\<close>

fun decode_list :: "nat \<Rightarrow> u8 list \<Rightarrow> u32 \<Rightarrow> nat \<Rightarrow> u8 list \<Rightarrow> (int \<times> u8 list) c_result" where
  "decode_list out_len [] v rem out = Inr (decode_end_list out_len v rem out)"
| "decode_list out_len (c # cs) v rem out =
     (if is_space c then decode_list out_len cs v rem out
      else if c = 61 then Inr (decode_end_list out_len v rem out)
      else if c \<ge> 128 then Inl Out_Of_Bounds
      else
        let ch = DECODEMAP ! unat c in
        if ch = 0xff then Inr (decode_end_list out_len v rem out)
        else
          let v = push_bit 6 v OR ucast ch; rem = rem + 6 in
          if rem \<ge> 8 then
            (if length out \<ge> out_len then Inr (- ENOBUFS, out)
             else decode_list out_len cs v (rem - 8) (out @ [ucast (drop_bit (rem - 8) v AND 255)]))
          else decode_list out_len cs v rem out)"

definition base64_decode_list :: "u8 list \<Rightarrow> nat \<Rightarrow> (int \<times> u8 list) c_result" where
  "base64_decode_list inp out_len = decode_list out_len inp 0 0 []"

section \<open>Encoding\<close>

definition ENCODEMAP :: "u8 list" where
  "ENCODEMAP = map of_nat ([65..<91] @ [97..<123] @ [48..<58]) @ [43, 47]"

text \<open>The inner loop; \<open>None\<close> stands for the return with \<open>-ENOBUFS\<close>, the output so far is kept.\<close>

fun emit_list :: "nat \<Rightarrow> u32 \<Rightarrow> nat \<Rightarrow> u8 list \<Rightarrow> nat option \<times> u8 list" where
  "emit_list out_len v rem out =
     (if rem \<ge> 6 then
        (if length out \<ge> out_len then (None, out)
         else emit_list out_len v (rem - 6) (out @ [ENCODEMAP ! unat (drop_bit (rem - 6) v AND 63)]))
      else (Some rem, out))"

declare emit_list.simps [simp del]

fun encode_list :: "nat \<Rightarrow> u8 list \<Rightarrow> u32 \<Rightarrow> nat \<Rightarrow> u8 list \<Rightarrow> (u32 \<times> nat) option \<times> u8 list" where
  "encode_list out_len [] v rem out = (Some (v, rem), out)"
| "encode_list out_len (ch # cs) v rem out =
     (let v = push_bit 8 v OR ucast ch in
      case emit_list out_len v (rem + 8) out of
        (None, out) \<Rightarrow> (None, out)
      | (Some rem, out) \<Rightarrow> encode_list out_len cs v rem out)"

text \<open>The padding loop: \<open>io\<close> is a multiple of four after at most three passes.\<close>

function pad_list :: "nat \<Rightarrow> u8 list \<Rightarrow> bool \<times> u8 list" where
  "pad_list out_len out =
     (if length out mod 4 \<noteq> 0 then
        (if length out \<ge> out_len then (False, out) else pad_list out_len (out @ [61]))
      else (True, out))"
  by auto
termination
proof (relation "measure (\<lambda>(out_len, out). (4 - length out mod 4) mod 4)", goal_cases)
  case (2 out_len out)
  then have "length out mod 4 = 1 \<or> length out mod 4 = 2 \<or> length out mod 4 = 3" by presburger
  then show ?case by (auto simp: mod_Suc)
qed simp

declare pad_list.simps [simp del]

definition encode_end_list :: "nat \<Rightarrow> (u32 \<times> nat) option \<times> u8 list \<Rightarrow> int \<times> u8 list" where
  "encode_end_list out_len r =
     (case r of
        (None, out) \<Rightarrow> (- ENOBUFS, out)
      | (Some (v, rem), out) \<Rightarrow>
          if rem \<noteq> 0 \<and> length out \<ge> out_len then (- ENOBUFS, out)
          else
            (let out = (if rem \<noteq> 0 then out @ [ENCODEMAP ! unat (push_bit (6 - rem) v AND 63)] else out)
             in case pad_list out_len out of
                  (False, out) \<Rightarrow> (- ENOBUFS, out)
                | (True, out) \<Rightarrow>
                    if length out \<ge> out_len then (- ENOBUFS, out) else (int (length out), out @ [0])))"

definition base64_encode_list :: "u8 list \<Rightarrow> nat \<Rightarrow> int \<times> u8 list" where
  "base64_encode_list inp out_len = encode_end_list out_len (encode_list out_len inp 0 0 [])"

section \<open>Streams of bits\<close>

text \<open>The low \<open>n\<close> bits of a word, highest first, and back.\<close>

definition bits_of :: "nat \<Rightarrow> 'a::len word \<Rightarrow> bool list" where
  "bits_of n w = map (bit w) (rev [0..<n])"

definition of_bits :: "bool list \<Rightarrow> 'a::len word" where
  "of_bits bs = horner_sum of_bool 2 (rev bs)"

lemma length_bits_of [simp]: "length (bits_of n w) = n"
  by (simp add: bits_of_def)

lemma of_bits_bits_of: "of_bits (bits_of n w) = take_bit n w"
  by (simp add: of_bits_def bits_of_def rev_map [symmetric] horner_sum_bit_eq_take_bit)

lemma bits_of_eq: "(\<forall>i<n. bit w i = bit w' i) \<Longrightarrow> bits_of n w = bits_of n w'"
  by (simp add: bits_of_def)

lemma bits_of_split: "bits_of (k + n) w = bits_of k (drop_bit n w) @ bits_of n w"
proof -
  have "[0..<k + n] = [0..<n] @ map (\<lambda>i. i + n) [0..<k]"
    unfolding map_add_upt using upt_add_eq_append [of 0 n k] by (simp only: add.commute [of k n] le0 simp_thms)
  moreover have "map (\<lambda>i. bit w (i + n)) (rev [0..<k]) = map (bit (drop_bit n w)) (rev [0..<k])"
    by (simp add: bit_drop_bit_eq add.commute)
  ultimately show ?thesis by (simp add: bits_of_def rev_map comp_def)
qed

lemma bits_of_push:
  fixes v :: u32 and ch :: u8
  assumes "n + k \<le> 32" and "\<forall>i. bit ch i \<longrightarrow> i < k"
  shows "bits_of (n + k) (push_bit k v OR ucast ch) = bits_of n v @ bits_of k ch"
proof -
  have "bits_of n (drop_bit k (push_bit k v OR ucast ch :: u32)) = bits_of n v"
    using assms by (intro bits_of_eq) (auto simp: bit_simps)
  moreover have "bits_of k (push_bit k v OR ucast ch :: u32) = bits_of k ch"
    unfolding bits_of_def using assms by (auto simp: bit_simps)
  ultimately show ?thesis by (simp add: bits_of_split)
qed

text \<open>A stream cut into groups of \<open>n\<close>, and what is left over.\<close>

fun groups :: "nat \<Rightarrow> 'a list \<Rightarrow> 'a list list" where
  "groups n xs = (if n = 0 \<or> length xs < n then [] else take n xs # groups n (drop n xs))"

declare groups.simps [simp del]

definition rest :: "nat \<Rightarrow> 'a list \<Rightarrow> 'a list" where
  "rest n xs = drop (n * (length xs div n)) xs"

lemma groups_short [simp]: "length xs < n \<Longrightarrow> groups n xs = []"
  by (simp add: groups.simps)

lemma groups_step: "length g = n \<Longrightarrow> 0 < n \<Longrightarrow> groups n (g @ xs) = g # groups n xs"
  by (simp add: groups.simps [of n "g @ xs"])

lemma groups_concat: "list_all (\<lambda>g. length g = n) gs \<Longrightarrow> 0 < n \<Longrightarrow> groups n (concat gs @ xs) = gs @ groups n xs"
  by (induction gs) (simp_all add: groups_step)

lemma groups_cut: "0 < n \<Longrightarrow> n \<le> length xs \<Longrightarrow> groups n xs = take n xs # groups n (drop n xs)"
  by (subst groups.simps) simp

lemma length_groups: "0 < n \<Longrightarrow> length (groups n xs) = length xs div n"
  by (induction n xs rule: groups.induct) (subst groups.simps, auto simp: le_div_geq)

lemma groups_all: "0 < n \<Longrightarrow> list_all (\<lambda>g. length g = n) (groups n xs)"
proof (induction n xs rule: groups.induct)
  case (1 n xs)
  show ?case
  proof (cases "length xs < n")
    case False
    then have "groups n xs = take n xs # groups n (drop n xs)" using 1(2) by (intro groups_cut) simp_all
    then show ?thesis using 1 False by simp
  qed simp
qed

lemma rest_cut: "0 < n \<Longrightarrow> n \<le> length xs \<Longrightarrow> rest n xs = rest n (drop n xs)"
  by (simp add: rest_def le_div_geq add.commute)

lemma concat_groups: "0 < n \<Longrightarrow> concat (groups n xs) @ rest n xs = xs"
proof (induction n xs rule: groups.induct)
  case (1 n xs)
  show ?case
  proof (cases "length xs < n")
    case True then show ?thesis by (simp add: rest_def)
  next
    case False
    then have "groups n xs = take n xs # groups n (drop n xs)" "rest n xs = rest n (drop n xs)"
      using 1(2) by (auto intro!: groups_cut rest_cut)
    then show ?thesis using 1 False by simp
  qed
qed

lemma length_rest: "length (rest n xs) = length xs mod n"
  by (simp add: rest_def minus_mult_div_eq_mod)

lemma groups_append: "0 < n \<Longrightarrow> groups n (xs @ ys) = groups n xs @ groups n (rest n xs @ ys)"
  by (metis append.assoc concat_groups groups_all groups_concat)

lemma rest_append:
  assumes "0 < n"
  shows "rest n (xs @ ys) = rest n (rest n xs @ ys)"
proof -
  let ?R = "rest n xs @ ys"
  have "concat (groups n (xs @ ys)) @ rest n (xs @ ys) = concat (groups n xs) @ ?R"
    using concat_groups [OF assms, of "xs @ ys"] concat_groups [OF assms, of xs] by (metis append.assoc)
  then have "concat (groups n ?R) @ rest n (xs @ ys) = ?R" by (simp add: groups_append [OF assms, of xs ys])
  then show ?thesis using concat_groups [OF assms, of ?R] by (metis same_append_eq)
qed

section \<open>The encoder regroups eights into sixes\<close>

definition symbol :: "bool list \<Rightarrow> u8" where
  "symbol g = ENCODEMAP ! unat (of_bits g :: u32)"

lemma low_bits: "(w AND 63 :: u32) = of_bits (bits_of 6 w)" "(w AND 255 :: u32) = of_bits (bits_of 8 w)"
proof -
  have "(63 :: u32) = mask 6" "(255 :: u32) = mask 8" by (simp_all add: mask_eq_exp_minus_1)
  then show "(w AND 63 :: u32) = of_bits (bits_of 6 w)" "(w AND 255 :: u32) = of_bits (bits_of 8 w)"
    by (simp_all add: of_bits_bits_of take_bit_eq_mask)
qed

lemma bits_of_top: "k \<le> n \<Longrightarrow> bits_of n w = bits_of k (drop_bit (n - k) w) @ bits_of (n - k) w"
  using bits_of_split [of k "n - k" w] by simp

lemma bits_of_rest: "0 < k \<Longrightarrow> rest k (bits_of n w) = bits_of (n mod k) w"
proof -
  assume "0 < k"
  have "bits_of n w = bits_of (n - n mod k) (drop_bit (n mod k) w) @ bits_of (n mod k) w"
    using bits_of_top [of "n - n mod k" n w] by simp
  moreover have "k * (n div k) = n - n mod k" by (simp add: minus_mod_eq_mult_div)
  ultimately show ?thesis by (simp add: rest_def)
qed

lemma emit_list_groups:
  "length out \<le> out_len \<Longrightarrow>
   if length out + rem div 6 \<le> out_len
   then emit_list out_len v rem out = (Some (rem mod 6), out @ map symbol (groups 6 (bits_of rem v)))
   else \<exists>out'. emit_list out_len v rem out = (None, out') \<and> length out' \<le> out_len"
proof (induction out_len v rem out rule: emit_list.induct)
  case (1 out_len v rem out)
  show ?case
  proof (cases "rem \<ge> 6")
    case False then show ?thesis using 1(2) by (subst (1 2) emit_list.simps) simp
  next
    case True
    have d: "rem div 6 = Suc ((rem - 6) div 6)" "rem mod 6 = (rem - 6) mod 6"
      using True by (simp_all add: le_div_geq le_mod_geq)
    have g: "groups 6 (bits_of rem v) = bits_of 6 (drop_bit (rem - 6) v) # groups 6 (bits_of (rem - 6) v)"
      using True bits_of_top [of 6 rem v] by (simp add: groups_step)
    let ?out = "out @ [ENCODEMAP ! unat (drop_bit (rem - 6) v AND 63)]"
    show ?thesis
    proof (cases "length out \<ge> out_len")
      case full: True then show ?thesis using True d 1(2) by (subst (1 2) emit_list.simps) simp
    next
      case False
      then have "emit_list out_len v rem out = emit_list out_len v (rem - 6) ?out"
        using True by (subst emit_list.simps) simp
      moreover have "length ?out \<le> out_len" using False by simp
      note 1(1) [OF True False this]
      ultimately show ?thesis
        using d g by (cases "length ?out + (rem - 6) div 6 \<le> out_len") (simp_all add: symbol_def low_bits)
    qed
  qed
qed

abbreviation all_bits :: "u8 list \<Rightarrow> bool list" where
  "all_bits cs \<equiv> concat (map (bits_of 8) cs)"

lemma length_all_bits: "length (all_bits cs) = 8 * length cs"
  by (induction cs) simp_all

lemma encode_list_groups:
  "length out \<le> out_len \<Longrightarrow> rem < 6 \<Longrightarrow>
   let B = bits_of rem v @ all_bits cs in
   if length out + length B div 6 \<le> out_len
   then \<exists>v'. encode_list out_len cs v rem out = (Some (v', length B mod 6), out @ map symbol (groups 6 B))
          \<and> bits_of (length B mod 6) v' = rest 6 B
   else \<exists>out'. encode_list out_len cs v rem out = (None, out') \<and> length out' \<le> out_len"
proof (induction cs arbitrary: v rem out)
  case Nil
  then show ?case by (simp add: Let_def rest_def)
next
  case (Cons ch cs)
  let ?v = "push_bit 8 v OR ucast ch :: u32"
  let ?P = "bits_of (rem + 8) ?v"
  have "\<forall>i. bit ch i \<longrightarrow> i < 8" using bit_imp_le_length by fastforce
  then have P: "?P = bits_of rem v @ bits_of 8 ch" using Cons.prems by (intro bits_of_push) simp_all
  note emit = emit_list_groups [OF Cons.prems(1), of "rem + 8" ?v]
  let ?out = "out @ map symbol (groups 6 ?P)"
  let ?B = "?P @ all_bits cs" and ?R = "rest 6 ?P @ all_bits cs"
  have R: "bits_of ((rem + 8) mod 6) ?v = rest 6 ?P" by (simp add: bits_of_rest)
  have groups: "groups 6 ?B = groups 6 ?P @ groups 6 ?R" "rest 6 ?B = rest 6 ?R"
    using groups_append [of 6 ?P "all_bits cs"] rest_append [of 6 ?P "all_bits cs"] by simp_all
  have lens: "length ?B div 6 = (rem + 8) div 6 + length ?R div 6" "length ?B mod 6 = length ?R mod 6"
    using arg_cong [OF groups(1), of length] arg_cong [OF groups(2), of length]
    by (simp_all add: length_groups length_rest)
  show ?case
  proof (cases "length out + (rem + 8) div 6 \<le> out_len")
    case False
    then show ?thesis using emit lens P by (auto simp: Let_def)
  next
    case True
    then have "encode_list out_len (ch # cs) v rem out = encode_list out_len cs ?v ((rem + 8) mod 6) ?out"
      using emit by (simp add: Let_def)
    moreover have len: "length ?out = length out + (rem + 8) div 6" by (simp add: length_groups)
    moreover have "length ?out \<le> out_len" using True len by simp
    note Cons.IH [OF this, of "(rem + 8) mod 6" ?v, unfolded R Let_def]
    moreover have "bits_of rem v @ all_bits (ch # cs) = ?B" by (simp add: P)
    ultimately show ?thesis
      unfolding Let_def
      by (cases "length ?out + length ?R div 6 \<le> out_len") (simp_all only: groups lens map_append append.assoc add.assoc simp_thms if_True if_False mod_less_divisor zero_less_numeral)
  qed
qed

lemma pad_list_spec:
  "length out \<le> out_len \<Longrightarrow>
   let k = (4 - length out mod 4) mod 4 in
   if length out + k \<le> out_len then pad_list out_len out = (True, out @ replicate k 61)
   else \<exists>out'. pad_list out_len out = (False, out') \<and> length out' \<le> out_len"
proof (induction out_len out rule: pad_list.induct)
  case (1 out_len out)
  show ?case
  proof (cases "length out mod 4 = 0")
    case True then show ?thesis using 1(2) by (subst (1 2) pad_list.simps) simp
  next
    case False
    then have k: "(4 - length out mod 4) mod 4 = Suc ((4 - length (out @ [61 :: u8]) mod 4) mod 4)"
      by (simp add: mod_Suc split: if_splits) presburger+
    show ?thesis
    proof (cases "length out \<ge> out_len")
      case full: True then show ?thesis using False 1(2) k by (subst (1 2) pad_list.simps) (simp add: Let_def)
    next
      case room: False
      then have eq: "pad_list out_len out = pad_list out_len (out @ [61])" using False by (subst pad_list.simps) simp
      have "length (out @ [61 :: u8]) \<le> out_len" using room by simp
      note ih = 1(1) [OF False room this, unfolded Let_def]
      show ?thesis unfolding eq Let_def k
        using ih by (cases "length (out @ [61 :: u8]) + (4 - length (out @ [61 :: u8]) mod 4) mod 4 \<le> out_len") simp_all
    qed
  qed
qed

text \<open>The specification: the bits in groups of six, zeros at the end of the last one, and the padding.\<close>

definition sixes :: "u8 list \<Rightarrow> bool list list" where
  "sixes bs = groups 6 (all_bits bs @ replicate ((6 - 8 * length bs mod 6) mod 6) False)"

definition base64 :: "u8 list \<Rightarrow> u8 list" where
  "base64 bs = map symbol (sixes bs) @ replicate ((4 - length (sixes bs) mod 4) mod 4) 61"

lemma sixes_cases:
  "sixes bs = groups 6 (all_bits bs) @
     (if 8 * length bs mod 6 = 0 then []
      else [rest 6 (all_bits bs) @ replicate (6 - 8 * length bs mod 6) False])"
proof -
  let ?r = "8 * length bs mod 6" and ?B = "all_bits bs"
  have l: "length (rest 6 ?B) = ?r" by (simp add: length_rest length_all_bits)
  have "groups 6 (rest 6 ?B @ replicate ((6 - ?r) mod 6) False) =
      (if ?r = 0 then [] else [rest 6 ?B @ replicate (6 - ?r) False])"
    using l groups_step [of "rest 6 ?B @ replicate (6 - ?r) False" 6 "[]"] by auto
  then show ?thesis
    unfolding sixes_def using groups_append [of 6 ?B "replicate ((6 - ?r) mod 6) False"] by simp
qed

lemma length_sixes: "length (sixes bs) = (8 * length bs + 5) div 6"
proof -
  let ?m = "8 * length bs"
  have "length (sixes bs) = ?m div 6 + (if ?m mod 6 = 0 then 0 else 1)"
    by (simp add: sixes_cases length_groups length_all_bits)
  also have "\<dots> = (?m + 5) div 6"
    using div_mult_mod_eq [of ?m 6] mod_less_divisor [of 6 ?m]
    by (intro div_nat_eqI [symmetric]) (auto split: if_splits)
  finally show ?thesis .
qed

lemma length_base64: "length (base64 bs) = 4 * ((length bs + 2) div 3)"
proof -
  have "(8 * n + 5) div 6 + (4 - (8 * n + 5) div 6 mod 4) mod 4 = 4 * ((n + 2) div 3)" for n :: nat
  proof -
    define q where "q = n div 3"
    have "n = 3 * q \<or> n = 3 * q + 1 \<or> n = 3 * q + 2" unfolding q_def by presburger
    then show ?thesis
    proof (elim disjE)
      assume n: "n = 3 * q"
      have "(8 * n + 5) div 6 = 4 * q" "(n + 2) div 3 = q" unfolding n by (auto intro!: div_nat_eqI)
      then show ?thesis by simp
    next
      assume n: "n = 3 * q + 1"
      have "(8 * n + 5) div 6 = 4 * q + 2" "(n + 2) div 3 = q + 1" unfolding n by (auto intro!: div_nat_eqI)
      moreover have "(4 * q + 2) mod 4 = 2" by presburger
      ultimately show ?thesis by (simp only:) simp
    next
      assume n: "n = 3 * q + 2"
      have "(8 * n + 5) div 6 = 4 * q + 3" "(n + 2) div 3 = q + 1" unfolding n by (auto intro!: div_nat_eqI)
      moreover have "(4 * q + 3) mod 4 = 3" by presburger
      ultimately show ?thesis by (simp only:) simp
    qed
  qed
  then show ?thesis by (simp add: base64_def length_sixes)
qed

lemma last_symbol:
  fixes v :: u32
  assumes "r < 6" and "bits_of r v = R"
  shows "ENCODEMAP ! unat (push_bit (6 - r) v AND 63) = symbol (R @ replicate (6 - r) False)"
proof -
  have "bits_of 6 (push_bit (6 - r) v) = bits_of r v @ replicate (6 - r) False"
  proof -
    have "bits_of (6 - r) (push_bit (6 - r) v) = replicate (6 - r) False"
      by (intro nth_equalityI) (auto simp: bits_of_def bit_simps rev_nth)
    moreover have "bits_of r (drop_bit (6 - r) (push_bit (6 - r) v)) = bits_of r v"
      using assms(1) by (intro bits_of_eq) (auto simp: bit_simps)
    ultimately show ?thesis using bits_of_top [of r 6 "push_bit (6 - r) v"] assms(1) by simp
  qed
  then show ?thesis using assms(2) by (simp add: symbol_def low_bits)
qed

lemma encode_base64:
  "if length (base64 bs) < out_len then base64_encode_list bs out_len = (int (length (base64 bs)), base64 bs @ [0])
   else \<exists>out. base64_encode_list bs out_len = (- ENOBUFS, out) \<and> length out \<le> out_len"
proof -
  define m where "m = 8 * length bs"
  let ?B = "all_bits bs" and ?r = "m mod 6" and ?S = "map symbol (sixes bs)"
  let ?k = "(4 - length ?S mod 4) mod 4"
  have len: "length (base64 bs) = length ?S + ?k" by (simp add: base64_def)
  have cases: "sixes bs = groups 6 ?B @ (if ?r = 0 then [] else [rest 6 ?B @ replicate (6 - ?r) False])"
    unfolding m_def by (rule sixes_cases)
  have B: "bits_of 0 (0 :: u32) @ ?B = ?B" "length ?B = m" by (simp_all add: bits_of_def length_all_bits m_def)
  note loop = encode_list_groups [of "[]" out_len 0 0 bs, unfolded Let_def B, simplified]
  show ?thesis
  proof (cases "m div 6 \<le> out_len")
    case False
    then have "\<not> length (base64 bs) < out_len" using len by (simp add: cases length_groups B)
    then show ?thesis using loop False by (auto simp: base64_encode_list_def encode_end_list_def)
  next
    case True
    then obtain v where v: "encode_list out_len bs 0 0 [] = (Some (v, ?r), map symbol (groups 6 ?B))"
        "bits_of ?r v = rest 6 ?B" using loop by auto
    let ?out = "map symbol (groups 6 ?B)"
    let ?out' = "if ?r \<noteq> 0 then ?out @ [ENCODEMAP ! unat (push_bit (6 - ?r) v AND 63)] else ?out"
    have S: "?out' = ?S" using last_symbol [OF _ v(2)] by (simp add: cases)
    have lo: "length ?out = m div 6" by (simp add: length_groups B)
    have ls: "length ?S = length ?out + (if ?r \<noteq> 0 then 1 else 0)" by (simp add: cases)
    show ?thesis
    proof (cases "?r \<noteq> 0 \<and> length ?out \<ge> out_len")
      case full: True
      then have "base64_encode_list bs out_len = (- ENOBUFS, ?out)" using v(1) by (simp add: base64_encode_list_def encode_end_list_def)
      then show ?thesis using full ls len lo True by auto
    next
      case False
      have run: "base64_encode_list bs out_len = (case pad_list out_len ?S of
          (False, out) \<Rightarrow> (- ENOBUFS, out)
        | (True, out) \<Rightarrow> if length out \<ge> out_len then (- ENOBUFS, out) else (int (length out), out @ [0]))"
        unfolding base64_encode_list_def encode_end_list_def v(1) Let_def prod.case option.case S if_not_P [OF False] ..
      have fits: "length ?S \<le> out_len" using False ls lo True by auto
      note pad = pad_list_spec [OF fits, unfolded Let_def]
      show ?thesis
      proof (cases "length ?S + ?k \<le> out_len")
        case ok: True
        with pad have "pad_list out_len ?S = (True, base64 bs)" by (simp add: base64_def)
        then show ?thesis using run len ok by auto
      next
        case no: False
        with pad obtain out' where "pad_list out_len ?S = (False, out')" "length out' \<le> out_len" by auto
        then show ?thesis using run len no by auto
      qed
    qed
  qed
qed

section \<open>The decoder regroups sixes into eights\<close>

text \<open>The two tables are inverse, and no symbol is a space, the padding or out of the table.\<close>

lemma ENCODEMAP_nth:
  "n < 64 \<Longrightarrow> ENCODEMAP ! n =
     of_nat (if n < 26 then 65 + n else if n < 52 then 71 + n else if n < 62 then n - 4 else if n = 62 then 43 else 47)"
  by (auto simp: ENCODEMAP_def nth_append nth_Cons' simp del: upt_Suc upt_rec_numeral)

lemma DECODEMAP_nth:
  "DECODEMAP ! 43 = 62" "DECODEMAP ! 47 = 63"
  "48 \<le> m \<Longrightarrow> m < 58 \<Longrightarrow> DECODEMAP ! m = of_nat (m + 4)"
  "65 \<le> m \<Longrightarrow> m < 91 \<Longrightarrow> DECODEMAP ! m = of_nat (m - 65)"
  "97 \<le> m \<Longrightarrow> m < 123 \<Longrightarrow> DECODEMAP ! m = of_nat (m - 71)"
  unfolding DECODEMAP_def
  by (auto simp: nth_append nth_Cons' add.commute simp del: upt_Suc upt_rec_numeral)

lemma tables_inverse:
  assumes "n < 64"
  shows "\<not> is_space (ENCODEMAP ! n) \<and> ENCODEMAP ! n \<noteq> 61 \<and> ENCODEMAP ! n < 128
     \<and> DECODEMAP ! unat (ENCODEMAP ! n) = of_nat n \<and> DECODEMAP ! unat (ENCODEMAP ! n) \<noteq> 0xff"
proof -
  define m where "m = (if n < 26 then 65 + n else if n < 52 then 71 + n else if n < 62 then n - 4 else if n = 62 then 43 else 47)"
  have m: "m < 128" "m \<noteq> 61" "m > 32" using assms by (auto simp: m_def)
  have e: "ENCODEMAP ! n = of_nat m" unfolding m_def by (rule ENCODEMAP_nth [OF assms])
  have u: "unat (of_nat m :: u8) = m" using m by (simp add: unat_of_nat)
  consider "n < 62" | "n = 62" | "n = 63" using assms by linarith
  then have "DECODEMAP ! m = of_nat n" by cases (auto simp: m_def DECODEMAP_nth)
  moreover have "unat (of_nat n :: u8) = n" using assms by (simp add: unat_of_nat)
  then have "(of_nat n :: u8) \<noteq> 0xff" using assms by (auto dest: arg_cong [where f = unat])
  moreover have "\<not> is_space (of_nat m) \<and> of_nat m \<noteq> (61 :: u8) \<and> of_nat m < (128 :: u8)"
    using m u by (auto simp: is_space_def word_le_nat_alt word_less_nat_alt dest: arg_cong [where f = unat])
  ultimately show ?thesis unfolding e u by simp
qed

lemma bit_of_bits: "bit (of_bits g :: 'a::len word) i \<longleftrightarrow> i < LENGTH('a) \<and> i < length g \<and> rev g ! i"
  by (auto simp: of_bits_def bit_horner_sum_bit_iff)

lemma bits_of_of_bits: "length g \<le> LENGTH('a) \<Longrightarrow> bits_of (length g) (of_bits g :: 'a::len word) = g"
  by (intro nth_equalityI) (auto simp: bits_of_def bit_of_bits rev_nth)

lemma symbol_decoded:
  assumes "length g = 6"
  shows "\<not> is_space (symbol g)" "symbol g \<noteq> 61" "\<not> symbol g \<ge> 128" "DECODEMAP ! unat (symbol g) \<noteq> 0xff"
    "DECODEMAP ! unat (symbol g) = of_bits g"
proof -
  let ?w = "of_bits g :: u32"
  have w: "?w = take_bit 6 ?w" by (rule bit_word_eqI) (use assms in \<open>auto simp: bit_simps bit_of_bits\<close>)
  then have "unat ?w < 2 ^ 6" by (metis take_bit_nat_less_exp unsigned_take_bit_eq)
  then have n: "unat ?w < 64" by simp
  have "of_nat (unat ?w) = (of_bits g :: u8)"
    by (rule bit_word_eqI) (use assms in \<open>auto simp: bit_simps bit_of_bits\<close>)
  then show "\<not> is_space (symbol g)" "symbol g \<noteq> 61" "\<not> symbol g \<ge> 128" "DECODEMAP ! unat (symbol g) \<noteq> 0xff"
    "DECODEMAP ! unat (symbol g) = of_bits g"
    using tables_inverse [OF n] unfolding symbol_def not_le by metis+
qed

lemma decode_list_groups:
  assumes "tail = [] \<or> hd tail = 61"
  shows "length out \<le> out_len \<Longrightarrow> rem < 8 \<Longrightarrow> list_all (\<lambda>g. length g = 6) gs \<Longrightarrow>
   let B = bits_of rem v @ concat gs; out' = out @ map of_bits (groups 8 B) in
   if length out' \<le> out_len
   then decode_list out_len (map symbol gs @ tail) v rem out = Inr (int (length out'), out')
   else \<exists>out'. decode_list out_len (map symbol gs @ tail) v rem out = Inr (- ENOBUFS, out') \<and> length out' \<le> out_len"
proof (induction gs arbitrary: v rem out)
  case Nil
  have "decode_list out_len tail v rem out = Inr (int (length out), out)"
  proof (cases tail)
    case (Cons c cs)
    then have "c = 61" using assms by simp
    with Cons Nil show ?thesis by (simp add: decode_end_list_def is_space_def)
  qed (use Nil in \<open>simp add: decode_end_list_def\<close>)
  with Nil show ?case by (simp add: Let_def)
next
  case (Cons g gs)
  let ?v = "push_bit 6 v OR ucast (of_bits g :: u8) :: u32"
  let ?P = "bits_of (rem + 6) ?v"
  have g: "length g = 6" and gs: "list_all (\<lambda>g. length g = 6) gs" using Cons.prems by simp_all
  have "bits_of 6 (of_bits g :: u8) = g" using bits_of_of_bits [where g = g and 'a = 8] g by simp
  moreover have "\<forall>i. bit (of_bits g :: u8) i \<longrightarrow> i < 6" using g by (simp add: bit_of_bits)
  ultimately have P: "?P = bits_of rem v @ g" using Cons.prems(2) by (subst bits_of_push) simp_all
  have B: "bits_of rem v @ concat (g # gs) = ?P @ concat gs" by (simp add: P)
  show ?case
  proof (cases "rem + 6 \<ge> 8")
    case False
    then have eq: "decode_list out_len (map symbol (g # gs) @ tail) v rem out =
        decode_list out_len (map symbol gs @ tail) ?v (rem + 6) out"
      using symbol_decoded [OF g] by (simp add: Let_def)
    have "rem + 6 < 8" using False by simp
    from Cons.IH [OF Cons.prems(1) this gs, of ?v] show ?thesis unfolding B eq .
  next
    case True
    let ?r = "rem + 6 - 8" and ?b = "of_bits (bits_of 8 (drop_bit (rem + 6 - 8) ?v)) :: u8"
    have top: "?P = bits_of 8 (drop_bit ?r ?v) @ bits_of ?r ?v" using True by (rule bits_of_top)
    have b: "ucast (drop_bit ?r ?v AND 255) = ?b"
      by (rule bit_word_eqI) (auto simp: low_bits bit_simps bit_of_bits)
    have step: "groups 8 (?P @ concat gs) = bits_of 8 (drop_bit ?r ?v) # groups 8 (bits_of ?r ?v @ concat gs)"
      unfolding top append.assoc by (rule groups_step) simp_all
    show ?thesis
    proof (cases "length out \<ge> out_len")
      case full: True
      then have eq: "decode_list out_len (map symbol (g # gs) @ tail) v rem out = Inr (- ENOBUFS, out)"
        using symbol_decoded [OF g] True by (simp add: Let_def)
      show ?thesis unfolding B Let_def step eq using full Cons.prems(1) by simp
    next
      case room: False
      then have eq: "decode_list out_len (map symbol (g # gs) @ tail) v rem out =
          decode_list out_len (map symbol gs @ tail) ?v ?r (out @ [?b])"
        using symbol_decoded [OF g] True b by (simp add: Let_def)
      have "length (out @ [?b]) \<le> out_len" "?r < 8" using room Cons.prems(2) by simp_all
      note Cons.IH [OF this gs, of ?v]
      then show ?thesis unfolding B eq Let_def step by (simp only: list.map append.assoc append.simps)
    qed
  qed
qed

lemma map_bytes: "map of_bits (map (bits_of 8) bs) = (bs :: u8 list)"
proof -
  have "take_bit 8 b = b" for b :: u8 by (rule bit_word_eqI) (auto simp: bit_simps)
  then show ?thesis by (simp add: of_bits_bits_of comp_def)
qed

lemma decode_base64:
  "if length bs \<le> out_len then base64_decode_list (base64 bs) out_len = Inr (int (length bs), bs)
   else \<exists>out. base64_decode_list (base64 bs) out_len = Inr (- ENOBUFS, out) \<and> length out \<le> out_len"
proof -
  let ?z = "replicate ((6 - 8 * length bs mod 6) mod 6) False"
  have "(m + (6 - m mod 6) mod 6) mod 6 = 0" for m :: nat
  proof -
    have "(6 - m mod 6) + m mod 6 = 6" by (simp add: less_imp_le)
    moreover have "q * 6 + r = a \<Longrightarrow> d + r = 6 \<Longrightarrow> a + d = 6 * (q + 1)" for a q r d :: nat by simp
    ultimately have "m + (6 - m mod 6) = 6 * (m div 6 + 1)" using div_mult_mod_eq [of m 6] by blast
    then show ?thesis by (metis mod_add_right_eq mod_mult_self1_is_0)
  qed
  from this [of "8 * length bs"] have "length (all_bits bs @ ?z) mod 6 = 0"
    by (simp only: length_append length_all_bits length_replicate)
  then have "rest 6 (all_bits bs @ ?z) = []" using length_rest [of 6 "all_bits bs @ ?z"] by simp
  then have all: "concat (sixes bs) = all_bits bs @ ?z"
    using concat_groups [of 6 "all_bits bs @ ?z"] by (simp add: sixes_def)
  have "length ?z < 8" by simp
  then have "groups 8 (all_bits bs @ ?z) = map (bits_of 8) bs"
    using groups_concat [of 8 "map (bits_of 8) bs" ?z] by (simp add: list_all_iff)
  then have out: "map of_bits (groups 8 (bits_of 0 (0 :: u32) @ concat (sixes bs))) = bs"
    unfolding all using map_bytes by (simp add: bits_of_def)
  have six: "list_all (\<lambda>g. length g = 6) (sixes bs)" by (simp add: sixes_def groups_all)
  let ?t = "replicate ((4 - length (sixes bs) mod 4) mod 4) (61 :: u8)"
  have "?t = [] \<or> hd ?t = 61" by (cases "(4 - length (sixes bs) mod 4) mod 4") simp_all
  from decode_list_groups [OF this _ _ six, of "[]" out_len 0 0, unfolded Let_def out]
  show ?thesis unfolding base64_decode_list_def base64_def by simp
qed

text \<open>What the decoder may do with any input.\<close>

definition decoded :: "nat \<Rightarrow> u8 list \<Rightarrow> (int \<times> u8 list) c_result \<Rightarrow> bool" where
  "decoded out_len cs r \<longleftrightarrow>
     (case r of
        Inl e \<Rightarrow> e = Out_Of_Bounds \<and> (\<exists>c. c \<in> set cs \<and> c \<ge> 128)
      | Inr (rc, out) \<Rightarrow> length out \<le> out_len \<and> (rc = - ENOBUFS \<or> rc = int (length out)))"

lemma decoded_end: "length out \<le> out_len \<Longrightarrow> decoded out_len cs (Inr (decode_end_list out_len v rem out))"
  by (simp add: decoded_def decode_end_list_def)

lemma decoded_Cons: "decoded out_len cs r \<Longrightarrow> decoded out_len (c # cs) r"
  by (auto simp: decoded_def split: sum.splits)

lemma decode_list_bound: "length out \<le> out_len \<Longrightarrow> decoded out_len cs (decode_list out_len cs v rem out)"
proof (induction cs arbitrary: v rem out)
  case Nil
  then show ?case by (simp add: decoded_end)
next
  case (Cons c cs)
  have refused: "decoded out_len (c # cs) (Inr (- ENOBUFS, out))" using Cons.prems by (simp add: decoded_def)
  have fault: "decoded out_len (c # cs) (Inl Out_Of_Bounds)" if "c \<ge> 128" using that by (auto simp: decoded_def)
  have more: "decoded out_len (c # cs) (decode_list out_len cs v' rem' out')" if "length out' \<le> out_len" for v' rem' out'
    using Cons.IH [OF that] by (rule decoded_Cons)
  show ?case
    unfolding decode_list.simps Let_def
    using refused fault decoded_end [OF Cons.prems] more [OF Cons.prems] more by (simp split: if_split)
qed

end
