(* ===== verification/Nn_Base64.thy ===== *)
theory Nn_Base64
  imports Base64_Lists
begin

unbundle bit_operations_syntax

text \<open>
  The base64 coding of \<open>nanomsg/src/transports/utils/base64.c\<close>, which the WebSocket handshake uses. The
  counters \<open>ii\<close>, \<open>io\<close> and \<open>rem\<close> are unsigned words of 32 bits and wrap; \<open>in_len\<close> and \<open>out_len\<close> are sizes,
  here the lengths of the input and of the buffer \<open>out\<close>, which is written by index. The result is an
  \<open>int\<close>, so \<open>io\<close> is read as a signed word. The loops over \<open>ii\<close> do not end when it wraps before it reaches
  the length of the input: they are partial functions, and \<open>None\<close> stands for a run that does not end.
  While no counter wraps the routines compute the reference coding of \<open>Base64_Lists\<close>.
\<close>

section \<open>Decoding\<close>

definition decode_end :: "u32 \<Rightarrow> u32 \<Rightarrow> u32 \<Rightarrow> u8 list \<Rightarrow> int \<times> u8 list" where
  "decode_end io v rem out =
     (if rem \<ge> 8 then
        (let rem = rem - 8 in
         if unat io \<ge> length out then (- ENOBUFS, out)
         else (sint (io + 1), out[unat io := ucast (drop_bit (unat rem) v AND 255)]))
      else (sint io, out))"

text \<open>
  The index of the table is a \<open>char\<close> converted to \<open>int\<close>: a byte from 128 on is a negative index, that is a
  read in front of the table.
\<close>

partial_function (option) decode_loop ::
    "u8 list \<Rightarrow> u32 \<Rightarrow> u32 \<Rightarrow> u32 \<Rightarrow> u32 \<Rightarrow> u8 list \<Rightarrow> (int \<times> u8 list) c_result option" where
  "decode_loop inp ii io v rem out =
     (if unat ii < length inp then
        let c = inp ! unat ii in
        if is_space c then decode_loop inp (ii + 1) io v rem out
        else if c = 61 then Some (Inr (decode_end io v rem out))
        else if c \<ge> 128 then Some (Inl Out_Of_Bounds)
        else
          let ch = DECODEMAP ! unat c in
          if ch = 0xff then Some (Inr (decode_end io v rem out))
          else
            let v = push_bit 6 v OR ucast ch; rem = rem + 6 in
            if rem \<ge> 8 then
              let rem = rem - 8 in
              if unat io \<ge> length out then Some (Inr (- ENOBUFS, out))
              else decode_loop inp (ii + 1) (io + 1) v rem (out[unat io := ucast (drop_bit (unat rem) v AND 255)])
            else decode_loop inp (ii + 1) io v rem out
      else Some (Inr (decode_end io v rem out)))"

definition nn_base64_decode :: "u8 list \<Rightarrow> u8 list \<Rightarrow> (int \<times> u8 list) c_result option" where
  "nn_base64_decode inp out = decode_loop inp 0 0 0 0 out"

section \<open>Encoding\<close>

text \<open>
  The inner loop gives \<open>io\<close> and \<open>rem\<close> at its end; \<open>None\<close> stands for the return with \<open>-ENOBUFS\<close>.
\<close>

function emit_loop :: "u32 \<Rightarrow> u32 \<Rightarrow> u32 \<Rightarrow> u8 list \<Rightarrow> (u32 \<times> u32) option \<times> u8 list" where
  "emit_loop io v rem out =
     (if rem \<ge> 6 then
        (let rem = rem - 6 in
         if unat io \<ge> length out then (None, out)
         else emit_loop (io + 1) v rem (out[unat io := ENCODEMAP ! unat (drop_bit (unat rem) v AND 63)]))
      else (Some (io, rem), out))"
  by auto
termination
  by (relation "measure (\<lambda>(io, v, rem, out). unat rem)") (auto simp: unat_sub word_le_nat_alt)

declare emit_loop.simps [simp del]

partial_function (option) encode_loop ::
    "u8 list \<Rightarrow> u32 \<Rightarrow> u32 \<Rightarrow> u32 \<Rightarrow> u32 \<Rightarrow> u8 list \<Rightarrow> ((u32 \<times> u32 \<times> u32) option \<times> u8 list) option" where
  "encode_loop inp ii io v rem out =
     (if unat ii < length inp then
        let ch = inp ! unat ii; v = push_bit 8 v OR ucast ch; rem = rem + 8 in
        case emit_loop io v rem out of
          (None, out) \<Rightarrow> Some (None, out)
        | (Some (io, rem), out) \<Rightarrow> encode_loop inp (ii + 1) io v rem out
      else Some (Some (io, v, rem), out))"

lemma unat_and_3: "unat (w AND 3 :: u32) = unat w mod 4"
proof -
  have "w AND 3 = take_bit 2 w" by (simp add: take_bit_eq_mask mask_eq_exp_minus_1)
  then show ?thesis by (simp add: take_bit_eq_mod unat_mod_distrib)
qed

text \<open>The padding loop: \<open>io\<close> is a multiple of four after at most three passes, also when it wraps.\<close>

function pad_loop :: "u32 \<Rightarrow> u8 list \<Rightarrow> u32 option \<times> u8 list" where
  "pad_loop io out =
     (if io AND 3 \<noteq> 0 then
        (if unat io \<ge> length out then (None, out) else pad_loop (io + 1) (out[unat io := 61]))
      else (Some io, out))"
  by auto
termination
proof (relation "measure (\<lambda>(io, out). (4 - unat (io AND 3)) mod 4)", goal_cases)
  case (2 io out)
  have "unat (io + 1) mod 4 = Suc (unat io) mod 4"
    by (simp add: unat_word_ariths mod_mod_cancel)
  moreover have "unat io mod 4 \<noteq> 0" using 2 unat_and_3 [of io] by (metis unat_eq_zero)
  then have "unat io mod 4 = 1 \<or> unat io mod 4 = 2 \<or> unat io mod 4 = 3" by presburger
  ultimately show ?case by (auto simp: unat_and_3 mod_Suc)
qed simp

declare pad_loop.simps [simp del]

definition encode_end :: "(u32 \<times> u32 \<times> u32) option \<times> u8 list \<Rightarrow> int \<times> u8 list" where
  "encode_end r =
     (case r of
        (None, out) \<Rightarrow> (- ENOBUFS, out)
      | (Some (io, v, rem), out) \<Rightarrow>
          if rem \<noteq> 0 \<and> unat io \<ge> length out then (- ENOBUFS, out)
          else
            (let v = (if rem \<noteq> 0 then push_bit (unat (6 - rem)) v else v);
                 (io, out) = (if rem \<noteq> 0 then (io + 1, out[unat io := ENCODEMAP ! unat (v AND 63)]) else (io, out))
             in case pad_loop io out of
                  (None, out) \<Rightarrow> (- ENOBUFS, out)
                | (Some io, out) \<Rightarrow>
                    if unat io \<ge> length out then (- ENOBUFS, out) else (sint io, out[unat io := 0])))"

definition nn_base64_encode :: "u8 list \<Rightarrow> u8 list \<Rightarrow> (int \<times> u8 list) option" where
  "nn_base64_encode inp out = map_option encode_end (encode_loop inp 0 0 0 0 out)"

section \<open>The buffer\<close>

text \<open>The buffer \<open>out\<close> after its first bytes have been overwritten by \<open>xs\<close>.\<close>

definition store :: "u8 list \<Rightarrow> u8 list \<Rightarrow> u8 list" where
  "store xs out = xs @ drop (length xs) out"

lemma store_take: "store (take n out) out = out"
  by (cases "n \<le> length out") (simp_all add: store_def)

lemma store_all: "store out out = out"
  by (simp add: store_def)

lemma store_behind: "i < length xs \<Longrightarrow> store xs (out[i := x]) = store xs out"
  by (simp add: store_def drop_update_cancel)

lemma store_store: "length ys \<le> length xs \<Longrightarrow> store xs (store ys out) = store xs out"
  by (simp add: store_def)

lemma take_store: "take (length xs) (store xs out) = xs"
  by (simp add: store_def)

lemma take_write: "i < length out \<Longrightarrow> take (Suc i) (out[i := x]) = take i out @ [x]"
  by (simp add: take_Suc_conv_app_nth)

lemma store_write: "i < length out \<Longrightarrow> store (take i out @ [x]) out = out[i := x]"
  by (simp add: store_def upd_conv_take_nth_drop)

lemma length_store: "length xs \<le> length out \<Longrightarrow> length (store xs out) = length out"
  by (simp add: store_def)

lemma unat_Suc: "Suc (unat w) < 2 ^ 32 \<Longrightarrow> unat (w + 1 :: u32) = Suc (unat w)"
  by (simp add: unat_word_ariths)

lemma sint_io: "n < 2 ^ 31 \<Longrightarrow> sint (of_nat n :: u32) = int n"
  by (simp add: signed_of_nat signed_take_bit_int_eq_self)

section \<open>The decoder is the reference decoder\<close>

lemma decode_list_extends: "decode_list n cs v rem xs = Inr (rc, ys) \<Longrightarrow> length xs \<le> length ys"
proof (induction cs arbitrary: v rem xs)
  case Nil
  then show ?case by (auto simp: decode_end_list_def split: if_splits)
next
  case (Cons c cs)
  have e: "decode_end_list n v rem xs = (rc, ys) \<Longrightarrow> length xs \<le> length ys"
    by (auto simp: decode_end_list_def split: if_splits)
  show ?case using Cons.prems e Cons.IH [of v rem xs] Cons.IH [of _ _ xs] Cons.IH [of _ _ "xs @ [_]"]
    unfolding decode_list.simps Let_def by (fastforce split: if_splits)
qed

text \<open>The result of the reference decoder as the code returns it: an \<open>int\<close>, and the buffer written.\<close>

definition returned :: "u8 list \<Rightarrow> int \<times> u8 list \<Rightarrow> int \<times> u8 list" where
  "returned out r = (case r of (rc, xs) \<Rightarrow> (sint (word_of_int rc :: u32), store xs out))"

lemma sint_ENOBUFS: "sint (- word_of_int ENOBUFS :: u32) = - ENOBUFS"
  by (simp add: ENOBUFS_def)

lemma decode_end_list:
  assumes "unat io \<le> length out"
  shows "decode_end io v rem out = returned out (decode_end_list (length out) v (unat rem) (take (unat io) out))"
proof -
  have r: "rem \<ge> 8 \<longleftrightarrow> unat rem \<ge> 8" by (simp add: word_le_nat_alt)
  have l: "min (length out) (unat io) = unat io" using assms by simp
  have s: "rem \<ge> 8 \<Longrightarrow> unat (rem - 8) = unat rem - 8" by (simp add: unat_sub)
  have w: "1 + io = io + 1" by simp
  show ?thesis
    using assms
    by (auto simp: decode_end_def decode_end_list_def returned_def Let_def r [symmetric] s l sint_ENOBUFS store_take store_all store_write w)
qed

lemma returned_behind:
  assumes "i < length xs"
  shows "map_sum id (returned (out[i := b])) (decode_list n cs v rem xs) = map_sum id (returned out) (decode_list n cs v rem xs)"
proof (cases "decode_list n cs v rem xs")
  case (Inr p)
  obtain rc ys where p: "p = (rc, ys)" by (cases p)
  from decode_list_extends [OF Inr [unfolded p]] have "i < length ys" using assms by simp
  then show ?thesis using Inr p by (simp add: returned_def store_behind)
qed simp

text \<open>
  \<open>ii\<close> does not wrap on an input of fewer than 2 to the 32 bytes, and neither does \<open>io\<close>, since a byte of
  output takes at least one of the input.
\<close>

lemma decode_loop_list:
  assumes "length inp < 2 ^ 32" and "unat ii \<le> length inp" and "drop (unat ii) inp = cs"
    and "unat io \<le> unat ii" and "unat io \<le> length out" and "unat rem < 8"
  shows "decode_loop inp ii io v rem out =
    Some (map_sum id (returned out) (decode_list (length out) cs v (unat rem) (take (unat io) out)))"
  using assms(2-)
proof (induction cs arbitrary: ii io v rem out)
  case Nil
  then have "unat ii = length inp" by simp
  then show ?case using Nil by (subst decode_loop.simps) (simp add: decode_end_list)
next
  case (Cons c cs)
  have i: "unat ii < length inp" using Cons.prems(1,2) by (metis drop_all list.distinct(1) not_le)
  have c: "inp ! unat ii = c" and d: "drop (Suc (unat ii)) inp = cs"
    using Cons.prems(2) i by (metis Cons_nth_drop_Suc list.inject)+
  have ii: "unat (ii + 1) = Suc (unat ii)" using i assms(1) by (intro unat_Suc) simp
  have io: "Suc (unat io) < 2 ^ 32" "unat (io + 1) = Suc (unat io)"
    using i assms(1) Cons.prems(3) by (simp_all add: unat_Suc)
  have r: "unat (rem + 6) = unat rem + 6" using Cons.prems(5) by (simp add: unat_word_ariths)
  have ge: "rem + 6 \<ge> 8 \<longleftrightarrow> unat rem + 6 \<ge> 8" by (simp add: word_le_nat_alt r)
  have less: "unat (rem + 6 - 8) = unat rem + 6 - 8" if "unat rem + 6 \<ge> 8"
    using unat_sub [of 8 "rem + 6"] that ge r by simp
  have skip: "decode_loop inp (ii + 1) io v' rem' out =
      Some (map_sum id (returned out) (decode_list (length out) cs v' (unat rem') (take (unat io) out)))"
    if "unat rem' < 8" for v' rem'
    using that Cons.prems i by (intro Cons.IH) (simp_all add: ii d)
  have emit: "decode_loop inp (ii + 1) (io + 1) v' (rem + 6 - 8) (out[unat io := b]) =
      Some (map_sum id (returned out) (decode_list (length out) cs v' (unat rem + 6 - 8) (take (unat io) out @ [b])))"
    if "unat rem + 6 \<ge> 8" "unat io < length out" for v' b
  proof -
    have r': "unat (rem + 6 - 8) = unat rem + 6 - 8" using that(1) by (rule less)
    let ?o = "out[unat io := b]"
    have "decode_loop inp (ii + 1) (io + 1) v' (rem + 6 - 8) ?o =
        Some (map_sum id (returned ?o) (decode_list (length ?o) cs v' (unat (rem + 6 - 8)) (take (unat (io + 1)) ?o)))"
      using that Cons.prems i r' by (intro Cons.IH) (simp_all add: ii d io)
    then have eq: "decode_loop inp (ii + 1) (io + 1) v' (rem + 6 - 8) ?o =
        Some (map_sum id (returned ?o) (decode_list (length out) cs v' (unat rem + 6 - 8) (take (unat io) out @ [b])))"
      unfolding io(2) r' take_write [OF that(2)] by simp
    show ?thesis unfolding eq using that(2) by (simp add: returned_behind)
  qed
  show ?case
    using Cons.prems(4,5) skip [of rem v] skip [of "rem + 6"] emit i
    by (subst decode_loop.simps) (simp add: c Let_def ge r less [simplified] decode_end_list returned_def sint_ENOBUFS store_take store_all)
qed

lemma decode_as_list:
  assumes "length inp < 2 ^ 32"
  shows "nn_base64_decode inp out = Some (map_sum id (returned out) (base64_decode_list inp (length out)))"
  using decode_loop_list [OF assms, of 0 inp 0 out 0 0] by (simp add: nn_base64_decode_def base64_decode_list_def)

section \<open>The encoder is the reference encoder\<close>

text \<open>The counters and the buffer after a loop of the reference encoder.\<close>

definition emitted :: "u8 list \<Rightarrow> nat option \<times> u8 list \<Rightarrow> (u32 \<times> u32) option \<times> u8 list" where
  "emitted out r = (case r of (rem, xs) \<Rightarrow> (map_option (\<lambda>rem. (of_nat (length xs), of_nat rem)) rem, store xs out))"

lemma emit_list_length:
  "emit_list n v rem xs = (r, ys) \<Longrightarrow>
     length xs \<le> length ys \<and> (length xs \<le> n \<longrightarrow> length ys \<le> n) \<and> (\<forall>rem'. r = Some rem' \<longrightarrow> rem' < 6 \<and> 6 * length ys + rem' = 6 * length xs + rem)"
  by (induction n v rem xs rule: emit_list.induct) (subst (asm) (2) emit_list.simps, fastforce split: if_splits)

lemma emit_loop_list:
  assumes "unat io \<le> length out" and "6 * unat io + unat rem < 6 * 2 ^ 32"
  shows "emit_loop io v rem out = emitted out (emit_list (length out) v (unat rem) (take (unat io) out))"
  using assms
proof (induction io v rem out rule: emit_loop.induct)
  case (1 io v rem out)
  have ge: "rem \<ge> 6 \<longleftrightarrow> unat rem \<ge> 6" by (simp add: word_le_nat_alt)
  have less: "unat (rem - 6) = unat rem - 6" if "rem \<ge> 6" using unat_sub [OF that] by simp
  show ?case
  proof (cases "rem \<ge> 6 \<and> unat io < length out")
    case True
    then have io: "unat (io + 1) = Suc (unat io)" using 1(3) ge by (intro unat_Suc) simp
    let ?b = "ENCODEMAP ! unat (drop_bit (unat rem - 6) v AND 63)"
    let ?o = "out[unat io := ?b]"
    have "emit_loop (io + 1) v (rem - 6) ?o = emitted ?o (emit_list (length ?o) v (unat (rem - 6)) (take (unat (io + 1)) ?o))"
      using 1 True ge less io by simp
    also have "\<dots> = emitted ?o (emit_list (length out) v (unat rem - 6) (take (unat io) out @ [?b]))"
      using True less io by (simp add: take_write)
    also have "\<dots> = emitted out (emit_list (length out) v (unat rem - 6) (take (unat io) out @ [?b]))"
      using True emit_list_length [of "length out" v "unat rem - 6" "take (unat io) out @ [?b]"]
      by (cases "emit_list (length out) v (unat rem - 6) (take (unat io) out @ [?b])") (simp add: emitted_def store_behind)
    finally show ?thesis using True ge less
      by (subst emit_loop.simps, subst emit_list.simps) (simp add: Let_def)
  next
    case False
    then show ?thesis using 1(2) ge
      by (subst emit_loop.simps, subst emit_list.simps) (auto simp: Let_def emitted_def store_take store_all)
  qed
qed

definition coded :: "u8 list \<Rightarrow> (u32 \<times> nat) option \<times> u8 list \<Rightarrow> (u32 \<times> u32 \<times> u32) option \<times> u8 list" where
  "coded out r = (case r of (st, xs) \<Rightarrow> (map_option (\<lambda>(v, rem). (of_nat (length xs), v, of_nat rem)) st, store xs out))"

lemma encode_list_length:
  "encode_list n cs v rem xs = (r, ys) \<Longrightarrow> rem < 6 \<Longrightarrow> length xs \<le> n \<Longrightarrow>
     length xs \<le> length ys \<and> length ys \<le> n
     \<and> (\<forall>v' rem'. r = Some (v', rem') \<longrightarrow> rem' < 6 \<and> 6 * length ys + rem' = 6 * length xs + rem + 8 * length cs)"
proof (induction cs arbitrary: v rem xs)
  case (Cons c cs)
  let ?v = "push_bit 8 v OR ucast c"
  obtain e zs where e: "emit_list n ?v (rem + 8) xs = (e, zs)" by fastforce
  note l = emit_list_length [OF e]
  show ?case
  proof (cases e)
    case None
    then show ?thesis using Cons.prems e l by auto
  next
    case (Some rem')
    then have "encode_list n cs ?v rem' zs = (r, ys)" using Cons.prems(1) e by simp
    from Cons.IH [OF this] show ?thesis using l Some Cons.prems(3) by auto
  qed
qed auto

lemma encode_loop_list:
  assumes "8 * length inp < 6 * 2 ^ 32" and "unat ii \<le> length inp" and "drop (unat ii) inp = cs"
    and "6 * unat io + unat rem = 8 * unat ii" and "unat io \<le> length out" and "unat rem < 6"
  shows "encode_loop inp ii io v rem out = Some (coded out (encode_list (length out) cs v (unat rem) (take (unat io) out)))"
  using assms(2-)
proof (induction cs arbitrary: ii io v rem out)
  case Nil
  then have "unat ii = length inp" by simp
  then show ?case using Nil by (subst encode_loop.simps) (simp add: coded_def store_take)
next
  case (Cons c cs)
  have i: "unat ii < length inp" using Cons.prems(1,2) by (metis drop_all list.distinct(1) not_le)
  have c: "inp ! unat ii = c" and d: "drop (Suc (unat ii)) inp = cs"
    using Cons.prems(2) i by (metis Cons_nth_drop_Suc list.inject)+
  have ii: "unat (ii + 1) = Suc (unat ii)" using i assms(1) by (intro unat_Suc) simp
  have r: "unat (rem + 8) = unat rem + 8" using Cons.prems(5) by (simp add: unat_word_ariths)
  let ?v = "push_bit 8 v OR ucast c"
  obtain e zs where e: "emit_list (length out) ?v (unat rem + 8) (take (unat io) out) = (e, zs)" by fastforce
  note l = emit_list_length [OF e]
  have m: "emit_loop io ?v (rem + 8) out = emitted out (e, zs)"
    using Cons.prems(3,4) i assms(1) e r by (subst emit_loop_list) simp_all
  show ?case
  proof (cases e)
    case None
    then show ?thesis using e m i by (subst encode_loop.simps) (simp add: c coded_def emitted_def)
  next
    case (Some rem')
    have z: "length zs \<le> length out" "rem' < 6" "6 * length zs + rem' = 8 * Suc (unat ii)"
      using l Some Cons.prems(3,4) by simp_all
    then have "length zs < 2 ^ 32" using i assms(1) by simp
    then have n: "unat (of_nat (length zs) :: u32) = length zs" "unat (of_nat rem' :: u32) = rem'"
      using z(2) by (simp_all add: unat_of_nat)
    have "encode_loop inp (ii + 1) (of_nat (length zs)) ?v (of_nat rem') (store zs out) =
        Some (coded (store zs out) (encode_list (length out) cs ?v rem' zs))"
      using Cons.IH [of "ii + 1" "of_nat (length zs)" "of_nat rem'" "store zs out" ?v] n z i
      by (simp add: ii d length_store take_store)
    also have "coded (store zs out) (encode_list (length out) cs ?v rem' zs) = coded out (encode_list (length out) cs ?v rem' zs)"
      using encode_list_length [of "length out" cs ?v rem' zs] z
      by (cases "encode_list (length out) cs ?v rem' zs") (simp add: coded_def store_store)
    finally show ?thesis using e m i Some by (subst encode_loop.simps) (simp add: c emitted_def)
  qed
qed

definition padded :: "u8 list \<Rightarrow> bool \<times> u8 list \<Rightarrow> u32 option \<times> u8 list" where
  "padded out r = (case r of (fits, xs) \<Rightarrow> (if fits then Some (of_nat (length xs)) else None, store xs out))"

lemma pad_list_length: "pad_list n xs = (b, ys) \<Longrightarrow> length xs \<le> length ys \<and> (length xs \<le> n \<longrightarrow> length ys \<le> n)"
  by (induction n xs rule: pad_list.induct) (subst (asm) (2) pad_list.simps, fastforce split: if_splits)

lemma pad_loop_list:
  assumes "unat io \<le> length out" and "4 * ((unat io + 3) div 4) < 2 ^ 32"
  shows "pad_loop io out = padded out (pad_list (length out) (take (unat io) out))"
  using assms
proof (induction io out rule: pad_loop.induct)
  case (1 io out)
  have nz: "io AND 3 \<noteq> 0 \<longleftrightarrow> unat io mod 4 \<noteq> 0" using unat_and_3 [of io] by (metis unat_eq_zero)
  show ?case
  proof (cases "unat io mod 4 \<noteq> 0 \<and> unat io < length out")
    case True
    have div: "(Suc m + 3) div 4 = (m + 3) div 4" if "m mod 4 \<noteq> 0" for m :: nat using that by presburger
    have "Suc (unat io) \<le> 4 * ((unat io + 3) div 4)" using True by presburger
    then have io: "unat (io + 1) = Suc (unat io)" using 1(3) by (intro unat_Suc) simp
    let ?o = "out[unat io := 61]"
    have "pad_loop (io + 1) ?o = padded ?o (pad_list (length ?o) (take (unat (io + 1)) ?o))"
      using 1 True nz io div [of "unat io"] by simp
    also have "\<dots> = padded ?o (pad_list (length out) (take (unat io) out @ [61]))"
      using True io by (simp add: take_write)
    also have "\<dots> = padded out (pad_list (length out) (take (unat io) out @ [61]))"
      using True pad_list_length [of "length out" "take (unat io) out @ [61]"]
      by (cases "pad_list (length out) (take (unat io) out @ [61])") (simp add: padded_def store_behind)
    finally show ?thesis using True nz by (subst pad_loop.simps, subst pad_list.simps) simp
  next
    case False
    then show ?thesis using 1(2) nz
      by (subst pad_loop.simps, subst pad_list.simps) (auto simp: padded_def store_take store_all)
  qed
qed

lemma pad_list_bound: "pad_list n xs = (b, ys) \<Longrightarrow> length ys \<le> 4 * ((length xs + 3) div 4)"
proof (induction n xs rule: pad_list.induct)
  case (1 n xs)
  have up: "m \<le> 4 * ((m + 3) div 4)" for m :: nat by presburger
  have div: "(Suc m + 3) div 4 = (m + 3) div 4" if "m mod 4 \<noteq> 0" for m :: nat using that by presburger
  show ?case
  proof (cases "length xs mod 4 \<noteq> 0 \<and> length xs < n")
    case True
    then have "pad_list n (xs @ [61]) = (b, ys)" using 1(2) by (subst (asm) pad_list.simps) simp
    then show ?thesis using 1(1) True div [of "length xs"] by simp
  next
    case False
    then have "ys = xs" using 1(2) by (subst (asm) pad_list.simps) (auto split: if_splits)
    then show ?thesis using up by simp
  qed
qed

lemma write_end: "length xs < length out \<Longrightarrow> (store xs out)[length xs := b] = store (xs @ [b]) out"
  using store_write [of "length xs" "store xs out" b] by (simp add: length_store take_store store_store)

lemma pad_finish:
  assumes "length xs \<le> length out" and "4 * ((length xs + 3) div 4) < 2 ^ 32"
  shows "(case pad_loop (of_nat (length xs)) (store xs out) of
       (None, out) \<Rightarrow> (- ENOBUFS, out)
     | (Some io, out) \<Rightarrow> if unat io \<ge> length out then (- ENOBUFS, out) else (sint io, out[unat io := 0]))
   = returned out
       (case pad_list (length out) xs of
          (False, ys) \<Rightarrow> (- ENOBUFS, ys)
        | (True, ys) \<Rightarrow> if length ys \<ge> length out then (- ENOBUFS, ys) else (int (length ys), ys @ [0]))"
proof -
  obtain fits ys where p: "pad_list (length out) xs = (fits, ys)" by fastforce
  have l: "length xs \<le> length ys" "length ys \<le> length out" using pad_list_length [OF p] assms(1) by simp_all
  have up: "m \<le> 4 * ((m + 3) div 4)" for m :: nat by presburger
  have n: "unat (of_nat (length zs) :: u32) = length zs" if "length zs \<le> 4 * ((length xs + 3) div 4)" for zs :: "u8 list"
    using that assms(2) by (simp add: unat_of_nat)
  note xs = n [OF up] and ys = n [OF pad_list_bound [OF p]]
  have "pad_loop (of_nat (length xs)) (store xs out) = padded (store xs out) (fits, ys)"
    using assms xs p by (subst pad_loop_list) (simp_all add: length_store take_store)
  then show ?thesis
    using p l ys by (cases fits) (auto simp: padded_def store_store returned_def sint_ENOBUFS write_end length_store)
qed

lemma of_nat_32:
  "n < 2 ^ 32 \<Longrightarrow> unat (of_nat n :: u32) = n" "n < 2 ^ 32 \<Longrightarrow> (of_nat n :: u32) = 0 \<longleftrightarrow> n = 0"
  by (simp_all add: unat_of_nat word_of_nat_eq_0_iff) (auto simp: dvd_imp_le)

lemma unat_6_minus: "n < 6 \<Longrightarrow> unat (6 - of_nat n :: u32) = 6 - n"
  by (subst unat_sub) (simp_all add: word_le_nat_alt of_nat_32)

lemma encode_end_Some:
  assumes "length xs \<le> length out" and "rem < 6" and "4 * ((length xs + (if rem = 0 then 0 else 1) + 3) div 4) < 2 ^ 32"
  shows "encode_end (Some (of_nat (length xs), v, of_nat rem), store xs out) =
    returned out (encode_end_list (length out) (Some (v, rem), xs))"
proof -
  have "m \<le> 4 * ((m + k + 3) div 4)" for m k :: nat by presburger
  from this [of "length xs" "if rem = 0 then 0 else 1"] have x: "length xs < 2 ^ 32" using assms(3) by simp
  have z: "(of_nat rem :: u32) = 0 \<longleftrightarrow> rem = 0" using assms(2) by (intro of_nat_32(2)) simp
  note n = of_nat_32(1) [OF x] z unat_6_minus [OF assms(2)]
  show ?thesis
  proof (cases "rem = 0")
    case True
    then have "4 * ((length xs + 3) div 4) < 2 ^ 32" using assms(3) by simp
    from pad_finish [OF assms(1) this] show ?thesis using True by (simp add: encode_end_def encode_end_list_def)
  next
    case rem: False
    let ?b = "ENCODEMAP ! unat (push_bit (6 - rem) v AND 63)"
    show ?thesis
    proof (cases "length xs < length out")
      case True
      have le: "length (xs @ [?b]) \<le> length out" using True by simp
      have c: "of_nat (length (xs @ [?b])) = (of_nat (length xs) + 1 :: u32)" by simp
      have "4 * ((length (xs @ [?b]) + 3) div 4) < 2 ^ 32" using assms(3) rem by simp
      note fin = pad_finish [OF le this, unfolded c]
      show ?thesis
        using fin True rem
        by (simp add: encode_end_def encode_end_list_def n length_store write_end del: length_append)
    next
      case False
      then show ?thesis using rem assms(1) n(1)
        by (simp add: encode_end_def encode_end_list_def n length_store returned_def sint_ENOBUFS)
    qed
  qed
qed

text \<open>
  Neither \<open>ii\<close> nor \<open>io\<close> wraps when the text with its padding is shorter than 2 to the 32 bytes.
\<close>

lemma encode_as_list:
  assumes "4 * ((length inp + 2) div 3) < 2 ^ 32"
  shows "nn_base64_encode inp out = Some (returned out (base64_encode_list inp (length out)))"
proof -
  have third: "m \<le> 3 * ((m + 2) div 3)" for m :: nat by presburger
  have in3: "8 * length inp \<le> 24 * ((length inp + 2) div 3)" using third [of "length inp"] by simp
  obtain r xs where e: "encode_list (length out) inp 0 0 [] = (r, xs)" by fastforce
  have l: "length xs \<le> length out" "\<And>v rem. r = Some (v, rem) \<Longrightarrow> rem < 6 \<and> 6 * length xs + rem = 8 * length inp"
    using encode_list_length [OF e] by simp_all
  have "8 * length inp < 6 * 2 ^ 32" using in3 assms by simp
  from encode_loop_list [OF this, of 0 inp 0 0 out 0] e
  have loop: "encode_loop inp 0 0 0 0 out = Some (coded out (r, xs))" by simp
  have "encode_end (coded out (r, xs)) = returned out (encode_end_list (length out) (r, xs))"
  proof (cases r)
    case None
    then show ?thesis by (simp add: encode_end_def encode_end_list_def coded_def returned_def sint_ENOBUFS)
  next
    case (Some st)
    obtain v rem where st: "r = Some (v, rem)" using Some by (cases st) simp
    have up: "4 * ((a + 3) div 4) \<le> 4 * b" if "a \<le> 4 * b" for a b :: nat using that by presburger
    have "length xs + (if rem = 0 then 0 else 1) \<le> 4 * ((length inp + 2) div 3)" using l(2) [OF st] in3 by simp
    from up [OF this] have "4 * ((length xs + (if rem = 0 then 0 else 1) + 3) div 4) < 2 ^ 32"
      using assms by (rule order_le_less_trans)
    from encode_end_Some [OF l(1) _ this] show ?thesis using l(2) [OF st] by (simp add: st coded_def)
  qed
  then show ?thesis
    using loop e by (simp add: nn_base64_encode_def base64_encode_list_def)
qed

section \<open>Properties\<close>

lemma returned_small: "length xs < 2 ^ 31 \<Longrightarrow> returned out (int (length xs), ys) = (int (length xs), store ys out)"
  using sint_io [of "length xs"] by (simp add: returned_def)

lemma returned_ENOBUFS: "returned out (- ENOBUFS, xs) = (- ENOBUFS, store xs out)"
  by (simp add: returned_def sint_ENOBUFS)

lemma encode_correct:
  assumes "4 * ((length bs + 2) div 3) < 2 ^ 31"
  shows "if 4 * ((length bs + 2) div 3) < length out
     then nn_base64_encode bs out =
       Some (int (4 * ((length bs + 2) div 3)), base64 bs @ [0] @ drop (4 * ((length bs + 2) div 3) + 1) out)
     else \<exists>out'. nn_base64_encode bs out = Some (- ENOBUFS, out') \<and> length out' = length out"
proof -
  have "nn_base64_encode bs out = Some (returned out (base64_encode_list bs (length out)))"
    using assms by (intro encode_as_list) simp
  moreover have "length (base64 bs) < 2 ^ 31" using assms by (simp add: length_base64)
  note returned_small [OF this, of out "base64 bs @ [0]"]
  ultimately show ?thesis
    using encode_base64 [of bs "length out"]
    by (auto simp: length_base64 returned_ENOBUFS store_def split: if_splits)
qed

lemma decode_correct:
  assumes "4 * ((length bs + 2) div 3) < 2 ^ 31"
  shows "if length bs \<le> length buf
     then nn_base64_decode (base64 bs) buf = Some (Inr (int (length bs), bs @ drop (length bs) buf))
     else \<exists>buf'. nn_base64_decode (base64 bs) buf = Some (Inr (- ENOBUFS, buf')) \<and> length buf' = length buf"
proof -
  have "m \<le> 4 * ((m + 2) div 3)" for m :: nat by presburger
  from this [of "length bs"] have b: "length bs < 2 ^ 31" using assms by (rule order_le_less_trans)
  have "nn_base64_decode (base64 bs) buf = Some (map_sum id (returned buf) (base64_decode_list (base64 bs) (length buf)))"
    using assms by (intro decode_as_list) (simp add: length_base64)
  then show ?thesis
    using decode_base64 [of bs "length buf"] returned_small [OF b, of buf bs]
    by (auto simp: returned_ENOBUFS store_def split: if_splits)
qed

text \<open>
  Property C9. Base64 round-trips at every buffer size while the text is shorter than 2 to the 31 bytes, the
  range of the \<open>int\<close> result: the encoder returns, and it writes the base64 text of the input and its
  terminating NUL to the front of the buffer and leaves the rest of it alone if and only if they fit;
  decoding that text gives the input back if and only if it fits; what does not fit is refused with
  \<open>-ENOBUFS\<close>.
\<close>
theorem base64_roundtrip:
  assumes "4 * ((length bs + 2) div 3) < 2 ^ 31"
  shows "(if 4 * ((length bs + 2) div 3) < length out
     then nn_base64_encode bs out =
       Some (int (4 * ((length bs + 2) div 3)), base64 bs @ [0] @ drop (4 * ((length bs + 2) div 3) + 1) out)
     else \<exists>out'. nn_base64_encode bs out = Some (- ENOBUFS, out') \<and> length out' = length out)
   \<and> (if length bs \<le> length buf
      then nn_base64_decode (base64 bs) buf = Some (Inr (int (length bs), bs @ drop (length bs) buf))
      else \<exists>buf'. nn_base64_decode (base64 bs) buf = Some (Inr (- ENOBUFS, buf')) \<and> length buf' = length buf)"
  using encode_correct [OF assms, of out] decode_correct [OF assms, of buf] by (rule conjI)

theorem base64_roundtrip_witness:
  "nn_base64_encode [77, 97] [1, 1, 1, 1, 1, 1] = Some (4, base64 [77, 97] @ [0, 1])
   \<and> nn_base64_decode (base64 [77, 97]) [1, 1, 1] = Some (Inr (2, [77, 97, 1]))"
  using base64_roundtrip [of "[77, 97]" "[1, 1, 1, 1, 1, 1]" "[1, 1, 1]"] by simp

lemma decode_list_growth:
  "decode_list n cs v rem xs = Inr (rc, ys) \<Longrightarrow> 8 * length ys \<le> 8 * length xs + rem + 6 * length cs"
proof (induction cs arbitrary: v rem xs)
  case Nil
  then show ?case by (auto simp: decode_end_list_def split: if_splits)
next
  case (Cons c cs)
  have e: "decode_end_list n v rem xs = (rc, ys) \<Longrightarrow> 8 * length ys \<le> 8 * length xs + rem"
    by (auto simp: decode_end_list_def split: if_splits)
  show ?case using Cons.prems e Cons.IH [of v rem xs] Cons.IH [of _ "rem + 6" xs] Cons.IH [of _ "rem + 6 - 8" "xs @ [_]"]
    unfolding decode_list.simps Let_def by (fastforce split: if_splits)
qed

text \<open>
  Property C35. On every input of fewer than 2 to the 31 bytes the decoder ends. It never writes past its
  buffer: it returns \<open>-ENOBUFS\<close>, or the number of bytes it wrote, at most three for every four of the
  input, with the buffer behind them unchanged. Its one fault is the read in front of the table, for a
  byte from 128 on.
\<close>
theorem base64_decode_bounds:
  assumes "length inp < 2 ^ 31"
  shows "\<exists>r. nn_base64_decode inp out = Some r \<and>
    (case r of
       Inl e \<Rightarrow> e = Out_Of_Bounds \<and> (\<exists>c. c \<in> set inp \<and> c \<ge> 128)
     | Inr (rc, out') \<Rightarrow> length out' = length out \<and>
         (rc = - ENOBUFS \<or> (\<exists>n. rc = int n \<and> n \<le> length out \<and> 4 * n \<le> 3 * length inp \<and> drop n out' = drop n out)))"
proof -
  let ?r = "base64_decode_list inp (length out)"
  have d: "decoded (length out) inp ?r"
    unfolding base64_decode_list_def by (rule decode_list_bound) simp
  have "nn_base64_decode inp out = Some (map_sum id (returned out) ?r)" using assms by (intro decode_as_list) simp
  moreover have "case map_sum id (returned out) ?r of
       Inl e \<Rightarrow> e = Out_Of_Bounds \<and> (\<exists>c. c \<in> set inp \<and> c \<ge> 128)
     | Inr (rc, out') \<Rightarrow> length out' = length out \<and>
         (rc = - ENOBUFS \<or> (\<exists>n. rc = int n \<and> n \<le> length out \<and> 4 * n \<le> 3 * length inp \<and> drop n out' = drop n out))"
  proof (cases ?r)
    case (Inl e)
    then show ?thesis using d by (simp add: decoded_def)
  next
    case (Inr p)
    obtain rc xs where p: "p = (rc, xs)" by (cases p)
    have g: "4 * length xs \<le> 3 * length inp"
      using decode_list_growth [OF Inr [unfolded p base64_decode_list_def]] by simp
    then have "length xs < 2 ^ 31" using assms by simp
    note small = returned_small [OF this, of out xs]
    have "length xs \<le> length out" "rc = - ENOBUFS \<or> rc = int (length xs)" using d Inr p by (simp_all add: decoded_def)
    then show ?thesis using small g Inr p by (auto simp: returned_ENOBUFS store_def)
  qed
  ultimately show ?thesis by blast
qed

theorem base64_decode_bounds_witness:
  "\<exists>r. nn_base64_decode [84, 87, 69, 61] [0] = Some r \<and>
    (case r of
       Inl e \<Rightarrow> e = Out_Of_Bounds \<and> (\<exists>c. c \<in> set [84, 87, 69, 61 :: u8] \<and> c \<ge> 128)
     | Inr (rc, out') \<Rightarrow> length out' = length [0 :: u8] \<and>
         (rc = - ENOBUFS \<or> (\<exists>n. rc = int n \<and> n \<le> length [0 :: u8] \<and> 4 * n \<le> 3 * length [84, 87, 69, 61 :: u8]
           \<and> drop n out' = drop n [0])))"
  by (rule base64_decode_bounds) simp

text \<open>Such an input exists.\<close>

lemma base64_decode_overread: "nn_base64_decode [0xc3] out = Some (Inl Out_Of_Bounds)"
  unfolding nn_base64_decode_def by (subst decode_loop.simps) (simp add: is_space_def)

end
