(* ===== verification/Nn_Sha1.thy ===== *)
theory Nn_Sha1
  imports Nn_Wire Nn_Base64
begin

text \<open>
  The SHA-1 of \<open>nanomsg/src/transports/ws/sha1.c\<close>, which works byte by byte on one block of sixteen words
  that it overwrites, against the definition of the standard (FIPS 180-4), and the accept key of the
  WebSocket handshake (\<open>nn_ws_handshake_hash_key\<close> in \<open>ws_handshake.c\<close>). The byte order of the machine is
  the argument \<open>le\<close>; the result does not depend on it.
\<close>

section \<open>The hash\<close>

record nn_sha1 =
  buffer :: "u32 list"
  hstate :: "u32 list"
  bytes_hashed :: u32
  buffer_offset :: u8
  is_little_endian :: bool

definition SHA1_BLOCK_LEN :: u8 where "SHA1_BLOCK_LEN = 64"

definition sha1_rol32 :: "u32 \<Rightarrow> nat \<Rightarrow> u32" where
  "sha1_rol32 num bits = push_bit bits num OR drop_bit (32 - bits) num"

text \<open>The first byte of the number 1 in memory tells the byte order. The buffer is not initialised.\<close>

definition nn_sha1_init :: "bool \<Rightarrow> u32 list \<Rightarrow> nn_sha1" where
  "nn_sha1_init le buf =
     \<lparr>buffer = buf, hstate = [0x67452301, 0xefcdab89, 0x98badcfe, 0x10325476, 0xc3d2e1f0], bytes_hashed = 0,
      buffer_offset = 0, is_little_endian = le\<rparr>"

text \<open>Storing a byte into an array of words, at its byte index, on a machine of the given byte order.\<close>

definition set_byte :: "bool \<Rightarrow> u32 list \<Rightarrow> nat \<Rightarrow> u8 \<Rightarrow> u32 list" where
  "set_byte le ws i b =
     (let k = 8 * (if le then i mod 4 else 3 - i mod 4); w = ws ! (i div 4)
      in ws[i div 4 := (w AND NOT (push_bit k 0xff)) OR push_bit k (ucast b)])"

text \<open>The eighty rounds; the sixteen words of the buffer are replaced as the rounds proceed.\<close>

definition sha1_f :: "nat \<Rightarrow> u32 \<Rightarrow> u32 \<Rightarrow> u32 \<Rightarrow> u32" where
  "sha1_f i b c d =
     (if i < 20 then (d XOR (b AND (c XOR d))) + 0x5A827999
      else if i < 40 then (b XOR c XOR d) + 0x6ED9EBA1
      else if i < 60 then ((b AND c) OR (d AND (b OR c))) + 0x8F1BBCDC
      else (b XOR c XOR d) + 0xCA62C1D6)"

definition next_word :: "nat \<Rightarrow> u32 list \<Rightarrow> u32 list" where
  "next_word i buf =
     (if i \<ge> 16 then
        buf[i mod 16 := sha1_rol32 (buf ! ((i + 13) mod 16) XOR buf ! ((i + 8) mod 16) XOR buf ! ((i + 2) mod 16)
                                    XOR buf ! (i mod 16)) 1]
      else buf)"

type_synonym regs = "u32 \<times> u32 \<times> u32 \<times> u32 \<times> u32"

function sha1_rounds :: "nat \<Rightarrow> u32 list \<Rightarrow> regs \<Rightarrow> u32 list \<times> regs" where
  "sha1_rounds i buf (a, b, c, d, e) =
     (if i < 80 then
        (let buf = next_word i buf; t = sha1_f i b c d + (sha1_rol32 a 5 + e + buf ! (i mod 16))
         in sha1_rounds (i + 1) buf (t, a, sha1_rol32 b 30, c, d))
      else (buf, (a, b, c, d, e)))"
  by pat_completeness auto
termination
  by (relation "measure (\<lambda>(i, _). 80 - i)") auto

declare sha1_rounds.simps [simp del]

definition nn_sha1_add :: "bool \<Rightarrow> nn_sha1 \<Rightarrow> u8 \<Rightarrow> nn_sha1 c_result" where
  "nn_sha1_add le self data =
     (let i = unat (if is_little_endian self then buffer_offset self XOR 3 else buffer_offset self) in
      if 4 * length (buffer self) \<le> i then Inl Out_Of_Bounds
      else
        (let buf = set_byte le (buffer self) i data; self = self\<lparr>buffer := buf, buffer_offset := buffer_offset self + 1\<rparr> in
         if buffer_offset self = SHA1_BLOCK_LEN then
           (let h = hstate self; (buf, (a, b, c, d, e)) = sha1_rounds 0 buf (h ! 0, h ! 1, h ! 2, h ! 3, h ! 4)
            in Inr (self\<lparr>buffer := buf, hstate := [h ! 0 + a, h ! 1 + b, h ! 2 + c, h ! 3 + d, h ! 4 + e],
                         buffer_offset := 0\<rparr>))
         else Inr self))"

definition nn_sha1_hashbyte :: "bool \<Rightarrow> nn_sha1 \<Rightarrow> u8 \<Rightarrow> nn_sha1 c_result" where
  "nn_sha1_hashbyte le self data = nn_sha1_add le (self\<lparr>bytes_hashed := bytes_hashed self + 1\<rparr>) data"

lemma nn_sha1_add_offset:
  "nn_sha1_add le self data = Inr self' \<Longrightarrow>
     buffer_offset self' = (if buffer_offset self + 1 = SHA1_BLOCK_LEN then 0 else buffer_offset self + 1)"
  by (auto simp: nn_sha1_add_def Let_def split: if_splits prod.splits)

text \<open>The loop of \<open>nn_sha1_result\<close> that fills up with zeros.\<close>

function zero_loop :: "bool \<Rightarrow> nn_sha1 \<Rightarrow> nn_sha1 c_result" where
  "zero_loop le self =
     (if buffer_offset self \<noteq> 56 then
        (case nn_sha1_add le self 0 of Inl e \<Rightarrow> Inl e | Inr self \<Rightarrow> zero_loop le self)
      else Inr self)"
  by auto
termination
proof (relation "measure (\<lambda>(le, self). unat (56 - buffer_offset self))", goal_cases)
  case (2 le self self')
  then show ?case
  proof (cases "buffer_offset self + 1 = SHA1_BLOCK_LEN")
    case True
    then have "buffer_offset self = 63" by (simp add: SHA1_BLOCK_LEN_def eq_diff_eq [symmetric])
    then show ?thesis using True nn_sha1_add_offset [OF 2(2)] by simp
  next
    case False
    have "56 - buffer_offset self \<noteq> 0" using 2(1) by simp
    then have "unat ((56 - buffer_offset self) - 1) < unat (56 - buffer_offset self)" by (rule measure_unat)
    then show ?thesis using False nn_sha1_add_offset [OF 2(2)] by simp
  qed
qed simp

declare zero_loop.simps [simp del]

fun add_bytes :: "bool \<Rightarrow> nn_sha1 \<Rightarrow> u8 list \<Rightarrow> nn_sha1 c_result" where
  "add_bytes le self [] = Inr self"
| "add_bytes le self (b # bs) = (case nn_sha1_add le self b of Inl e \<Rightarrow> Inl e | Inr self \<Rightarrow> add_bytes le self bs)"

definition swap32 :: "u32 \<Rightarrow> u32" where
  "swap32 w = (push_bit 24 w AND 0xFF000000) OR (push_bit 8 w AND 0x00FF0000)
     OR (drop_bit 8 w AND 0x0000FF00) OR (drop_bit 24 w AND 0x000000FF)"

text \<open>The bytes of a word in memory.\<close>

definition mem_bytes :: "bool \<Rightarrow> u32 \<Rightarrow> u8 list" where
  "mem_bytes le w = (if le then rev (nn_putl w) else nn_putl w)"

definition nn_sha1_result :: "bool \<Rightarrow> nn_sha1 \<Rightarrow> (u8 list \<times> nn_sha1) c_result" where
  "nn_sha1_result le self =
     (let n = bytes_hashed self in
      case nn_sha1_add le self 0x80 of
        Inl e \<Rightarrow> Inl e
      | Inr self \<Rightarrow>
          (case zero_loop le self of
             Inl e \<Rightarrow> Inl e
           | Inr self \<Rightarrow>
               (case add_bytes le self [0, 0, 0, ucast (drop_bit 29 n), ucast (drop_bit 21 n), ucast (drop_bit 13 n),
                                        ucast (drop_bit 5 n), ucast (push_bit 3 n)] of
                  Inl e \<Rightarrow> Inl e
                | Inr self \<Rightarrow>
                    let self = (if is_little_endian self then self\<lparr>hstate := map swap32 (hstate self)\<rparr> else self)
                    in Inr (concat (map (mem_bytes le) (hstate self)), self))))"

section \<open>The standard\<close>

text \<open>The message schedule, the functions and constants of the rounds, and the compression of a block.\<close>

fun W :: "u32 list \<Rightarrow> nat \<Rightarrow> u32" where
  "W M t = (if t < 16 then M ! t else sha1_rol32 (W M (t - 3) XOR W M (t - 8) XOR W M (t - 14) XOR W M (t - 16)) 1)"

declare W.simps [simp del]

definition fips_f :: "nat \<Rightarrow> u32 \<Rightarrow> u32 \<Rightarrow> u32 \<Rightarrow> u32" where
  "fips_f t x y z =
     (if t < 20 then (x AND y) XOR (NOT x AND z)
      else if t < 40 then x XOR y XOR z
      else if t < 60 then (x AND y) XOR (x AND z) XOR (y AND z)
      else x XOR y XOR z)"

definition fips_K :: "nat \<Rightarrow> u32" where
  "fips_K t = (if t < 20 then 0x5a827999 else if t < 40 then 0x6ed9eba1 else if t < 60 then 0x8f1bbcdc else 0xca62c1d6)"

fun fips_step :: "u32 list \<Rightarrow> regs \<Rightarrow> nat \<Rightarrow> regs" where
  "fips_step M (a, b, c, d, e) t =
     (sha1_rol32 a 5 + fips_f t b c d + e + fips_K t + W M t, a, sha1_rol32 b 30, c, d)"

definition fips_compress :: "u32 list \<Rightarrow> u32 list \<Rightarrow> u32 list" where
  "fips_compress h M =
     (case foldl (fips_step M) (h ! 0, h ! 1, h ! 2, h ! 3, h ! 4) [0..<80] of
        (a, b, c, d, e) \<Rightarrow> [h ! 0 + a, h ! 1 + b, h ! 2 + c, h ! 3 + d, h ! 4 + e])"

definition words_of :: "u8 list \<Rightarrow> u32 list" where
  "words_of block = map (\<lambda>j. nn_getl (drop (4 * j) block)) [0..<16]"

definition fips_blocks :: "u32 list \<Rightarrow> u8 list \<Rightarrow> u32 list" where
  "fips_blocks h bs = foldl fips_compress h (map words_of (groups 64 bs))"

definition fips_pad :: "u8 list \<Rightarrow> u8 list" where
  "fips_pad msg = msg @ [0x80] @ replicate ((119 - length msg mod 64) mod 64) 0 @ nn_putll (of_nat (8 * length msg))"

definition fips_sha1 :: "u8 list \<Rightarrow> u8 list" where
  "fips_sha1 msg =
     concat (map nn_putl (fips_blocks [0x67452301, 0xefcdab89, 0x98badcfe, 0x10325476, 0xc3d2e1f0] (fips_pad msg)))"

section \<open>The rounds on the circular buffer\<close>

lemma sha1_f_fips: "sha1_f t b c d = fips_f t b c d + fips_K t"
proof -
  have "d XOR (b AND (c XOR d)) = (b AND c) XOR (NOT b AND d)"
    "(b AND c) OR (d AND (b OR c)) = (b AND c) XOR (b AND d) XOR (c AND d)"
    by (rule bit_word_eqI; auto simp: bit_simps)+
  then show ?thesis by (simp add: sha1_f_def fips_f_def fips_K_def)
qed

text \<open>At round \<open>i\<close> the buffer has the last sixteen words of the schedule.\<close>

definition window :: "nat \<Rightarrow> u32 list \<Rightarrow> u32 list \<Rightarrow> bool" where
  "window i buf M \<longleftrightarrow> length buf = 16 \<and> (\<forall>k. i \<le> k + 16 \<and> k < max 16 i \<longrightarrow> buf ! (k mod 16) = W M k)"

lemma window_at: "window i buf M \<Longrightarrow> i \<le> k + 16 \<Longrightarrow> k < max 16 i \<Longrightarrow> buf ! (k mod 16) = W M k"
  by (simp add: window_def)

lemma window_next:
  assumes "window i buf M"
  shows "window (i + 1) (next_word i buf) M" and "next_word i buf ! (i mod 16) = W M i"
proof -
  have len: "length buf = 16" using assms by (simp add: window_def)
  have new: "next_word i buf ! (i mod 16) = W M i"
  proof (cases "i \<ge> 16")
    case True
    then obtain j where i: "i = j + 16" using le_Suc_ex by (metis add.commute)
    have shift: "(j + 16 + n) mod 16 = (j + n) mod 16" for n by (metis add.assoc add.commute mod_add_self2)
    have "(i + 13) mod 16 = (i - 3) mod 16" "(i + 8) mod 16 = (i - 8) mod 16" "(i + 2) mod 16 = (i - 14) mod 16"
      "i mod 16 = (i - 16) mod 16" using shift [of 13] shift [of 8] shift [of 2] shift [of 0] unfolding i by (simp_all add: add.commute)
    moreover have "buf ! ((i - 3) mod 16) = W M (i - 3)" "buf ! ((i - 8) mod 16) = W M (i - 8)"
      "buf ! ((i - 14) mod 16) = W M (i - 14)" "buf ! ((i - 16) mod 16) = W M (i - 16)"
      using True by (auto intro!: window_at [OF assms])
    ultimately have "sha1_rol32 (buf ! ((i + 13) mod 16) XOR buf ! ((i + 8) mod 16) XOR buf ! ((i + 2) mod 16)
        XOR buf ! (i mod 16)) 1 = W M i" using True by (subst W.simps) simp
    then show ?thesis using True len by (simp add: next_word_def)
  next
    case False
    then show ?thesis using window_at [OF assms, of i] by (simp add: next_word_def)
  qed
  then show "next_word i buf ! (i mod 16) = W M i" .
  have "next_word i buf ! (k mod 16) = W M k" if k: "i + 1 \<le> k + 16" "k < max 16 (i + 1)" for k
  proof (cases "k = i \<or> i < 16")
    case True
    then show ?thesis using new k window_at [OF assms, of k] by (auto simp: next_word_def)
  next
    case False
    then have lt: "k < i" "i < k + 16" using k by auto
    have "k mod 16 \<noteq> i mod 16"
    proof
      assume "k mod 16 = i mod 16"
      then have "16 dvd i - k" using mod_eq_dvd_iff_nat [of k i 16] lt(1) by simp
      then have "16 \<le> i - k" using lt(1) by (intro dvd_imp_le) simp_all
      then show False using lt(2) by simp
    qed
    then show ?thesis using False k window_at [OF assms, of k] by (simp add: next_word_def)
  qed
  then show "window (i + 1) (next_word i buf) M" using len by (simp add: window_def next_word_def)
qed

lemma rounds_fips:
  assumes "window i buf M" and "i \<le> 80"
  shows "\<exists>buf'. sha1_rounds i buf r = (buf', foldl (fips_step M) r [i..<80]) \<and> length buf' = 16"
  using assms
proof (induction "80 - i" arbitrary: i buf r)
  case 0
  then have "i = 80" by simp
  then show ?case using 0 by (cases r) (simp add: sha1_rounds.simps window_def)
next
  case (Suc n)
  obtain a b c d e where r: "r = (a, b, c, d, e)" by (cases r)
  have i: "i < 80" using Suc by simp
  let ?buf = "next_word i buf"
  have "sha1_rounds i buf r = sha1_rounds (i + 1) ?buf (fips_step M r i)"
    using i window_next(2) [OF Suc.prems(1)]
    by (simp add: r sha1_rounds.simps [of i] Let_def sha1_f_fips ac_simps)
  moreover have "[i..<80] = i # [i + 1..<80]" using i by (simp add: upt_conv_Cons)
  ultimately show ?case using Suc.hyps(1) [OF _ window_next(1) [OF Suc.prems(1)]] Suc.hyps(2) i by simp
qed

section \<open>The bytes of a block\<close>

text \<open>The byte at a position of the block, the highest byte of each word first.\<close>

definition be_byte :: "u32 list \<Rightarrow> nat \<Rightarrow> u8" where
  "be_byte ws i = ucast (drop_bit (8 * (3 - i mod 4)) (ws ! (i div 4)))"

lemma bit_be_byte: "bit (be_byte ws i) n \<longleftrightarrow> n < 8 \<and> bit (ws ! (i div 4)) (8 * (3 - i mod 4) + n)"
  by (auto simp: be_byte_def bit_simps)

lemma set_byte_at:
  assumes "i < 4 * length ws"
  shows "set_byte le ws (if le then 4 * (i div 4) + (3 - i mod 4) else i) b =
     ws[i div 4 := (ws ! (i div 4) AND NOT (push_bit (8 * (3 - i mod 4)) 0xff)) OR push_bit (8 * (3 - i mod 4)) (ucast b)]"
proof -
  have "(4 * q + r) div 4 = q" "(4 * q + r) mod 4 = r" if "r < 4" for q r :: nat using that by simp_all
  moreover have "3 - i mod 4 < 4" by simp
  ultimately have "(4 * (i div 4) + (3 - i mod 4)) div 4 = i div 4" "(4 * (i div 4) + (3 - i mod 4)) mod 4 = 3 - i mod 4"
    by blast+
  then show ?thesis unfolding set_byte_def Let_def by (cases le) (simp_all only: if_True if_False)
qed

lemma bit_replaced:
  fixes w :: u32 and b :: u8
  assumes "m < 32"
  shows "bit ((w AND NOT (push_bit k 0xff)) OR push_bit k (ucast b)) m \<longleftrightarrow>
     (if k \<le> m \<and> m < k + 8 then bit b (m - k) else bit w m)"
proof -
  have "\<not> bit b (m - k)" if "k + 8 \<le> m" using that bit_byte [of b "m - k"] by linarith
  moreover have ff: "(0xff :: u32) = mask 8" by (simp add: mask_eq_exp_minus_1)
  ultimately show ?thesis using assms unfolding ff by (auto simp: bit_simps)
qed

lemma be_byte_set:
  assumes "i < 4 * length ws" and "j < 4 * length ws"
  shows "be_byte (set_byte le ws (if le then 4 * (i div 4) + (3 - i mod 4) else i) b) j = (if j = i then b else be_byte ws j)"
proof (cases "j div 4 = i div 4")
  case False
  then show ?thesis by (auto simp: set_byte_at [OF assms(1)] be_byte_def)
next
  case True
  let ?k = "8 * (3 - i mod 4)" and ?l = "8 * (3 - j mod 4)" and ?w = "ws ! (i div 4)"
  have len: "i div 4 < length ws" using assms(1) by simp
  have ranges: "?k + 8 \<le> 32" "?l + 8 \<le> 32" by simp_all
  have ne: "i mod 4 \<noteq> j mod 4" if "j \<noteq> i" using that True by (metis div_mult_mod_eq)
  show ?thesis
  proof (rule bit_word_eqI)
    fix n assume "n < LENGTH(8)"
    then have n: "n < 8" by simp
    have "bit (be_byte (set_byte le ws (if le then 4 * (i div 4) + (3 - i mod 4) else i) b) j) n \<longleftrightarrow>
        bit ((?w AND NOT (push_bit ?k 0xff)) OR push_bit ?k (ucast b)) (?l + n)"
      using len n True by (simp add: set_byte_at [OF assms(1)] bit_be_byte)
    also have "\<dots> \<longleftrightarrow> (if ?k \<le> ?l + n \<and> ?l + n < ?k + 8 then bit b (?l + n - ?k) else bit ?w (?l + n))"
      using n ranges by (intro bit_replaced) simp
    also have "\<dots> \<longleftrightarrow> bit (if j = i then b else be_byte ws j) n"
    proof (cases "j = i")
      case same: False
      have "\<not> (?k \<le> ?l + n \<and> ?l + n < ?k + 8)" using ne [OF same] n mod_less_divisor [of 4 i] mod_less_divisor [of 4 j] by linarith
      then show ?thesis using same n True by (simp only: if_False bit_be_byte simp_thms)
    qed (use n in simp)
    finally show "bit (be_byte (set_byte le ws (if le then 4 * (i div 4) + (3 - i mod 4) else i) b) j) n =
        bit (if j = i then b else be_byte ws j) n" .
  qed
qed

lemma words_of_bytes:
  assumes "length ws = 16" and "length blk = 64" and "\<forall>i<64. be_byte ws i = blk ! i"
  shows "ws = words_of blk"
proof (rule nth_equalityI)
  show "length ws = length (words_of blk)" using assms(1) by (simp add: words_of_def)
  fix j assume "j < length ws"
  then have j: "j < 16" using assms(1) by simp
  have "drop (4 * j) blk ! 0 = be_byte ws (4 * j)" "drop (4 * j) blk ! 1 = be_byte ws (4 * j + 1)"
    "drop (4 * j) blk ! 2 = be_byte ws (4 * j + 2)" "drop (4 * j) blk ! 3 = be_byte ws (4 * j + 3)"
    using j assms(2,3) by simp_all
  moreover have b: "(ucast (drop_bit k w) :: u8) = ucast (drop_bit k w AND 0xff)" for k and w :: u32
    by (rule bit_word_eqI) (simp only: bit_out, simp add: bit_unsigned_iff bit_drop_bit_eq)
  have d: "4 * j div 4 = j" "(4 * j + 1) div 4 = j" "(4 * j + 2) div 4 = j" "(4 * j + 3) div 4 = j"
    "4 * j mod 4 = 0" "(4 * j + 1) mod 4 = 1" "(4 * j + 2) mod 4 = 2" "(4 * j + 3) mod 4 = 3" by presburger+
  have "be_byte ws (4 * j) = nn_putl (ws ! j) ! 0" "be_byte ws (4 * j + 1) = nn_putl (ws ! j) ! 1"
    "be_byte ws (4 * j + 2) = nn_putl (ws ! j) ! 2" "be_byte ws (4 * j + 3) = nn_putl (ws ! j) ! 3"
    unfolding be_byte_def d using b [of 24 "ws ! j"] b [of 16 "ws ! j"] b [of 8 "ws ! j"] b [of 0 "ws ! j"]
    by (simp_all add: nn_putl_def)
  ultimately have "nn_getl (drop (4 * j) blk) = nn_getl (nn_putl (ws ! j))" by (simp add: nn_getl_def)
  then have "nn_getl (drop (4 * j) blk) = ws ! j" by (simp add: nn_getl_putl)
  then show "ws ! j = words_of blk ! j" using j by (simp add: words_of_def)
qed

section \<open>Hashing bytes\<close>

definition sha1_rep :: "bool \<Rightarrow> nn_sha1 \<Rightarrow> u32 list \<Rightarrow> u8 list \<Rightarrow> bool" where
  "sha1_rep le self hs blk \<longleftrightarrow> length (buffer self) = 16 \<and> is_little_endian self = le \<and> hstate self = hs \<and> length hs = 5
     \<and> length blk < 64 \<and> buffer_offset self = of_nat (length blk) \<and> (\<forall>i<length blk. be_byte (buffer self) i = blk ! i)"

lemma offset_index:
  "\<forall>l\<in>set [0..<64]. unat ((of_nat l :: u8) XOR 3) = 4 * (l div 4) + (3 - l mod 4)"
  by code_simp

lemma length_set_byte [simp]: "length (set_byte le ws i b) = length ws"
  by (simp add: set_byte_def Let_def)

lemma length_compress [simp]: "length (fips_compress h M) = 5"
  by (simp add: fips_compress_def split: prod.split)

lemma sha1_add_rep:
  assumes rep: "sha1_rep le self hs blk"
  shows "\<exists>self'. nn_sha1_add le self b = Inr self' \<and> bytes_hashed self' = bytes_hashed self
     \<and> (if length blk < 63 then sha1_rep le self' hs (blk @ [b]) else sha1_rep le self' (fips_compress hs (words_of (blk @ [b]))) [])"
proof -
  let ?l = "length blk" and ?i = "if le then 4 * (length blk div 4) + (3 - length blk mod 4) else length blk"
  have r: "length (buffer self) = 16" "is_little_endian self = le" "hstate self = hs" "length hs = 5" "?l < 64"
    "buffer_offset self = of_nat ?l" "\<forall>i<?l. be_byte (buffer self) i = blk ! i"
    using rep by (simp_all add: sha1_rep_def)
  have "unat (of_nat ?l :: u8) = ?l" using r(5) by (simp add: unat_of_nat)
  moreover have "unat ((of_nat ?l :: u8) XOR 3) = 4 * (?l div 4) + (3 - ?l mod 4)" using bspec [OF offset_index, of ?l] r(5) by simp
  ultimately have idx: "unat (if le then buffer_offset self XOR 3 else buffer_offset self) = ?i" using r(6) by simp
  have "4 * (?l div 4) + (3 - ?l mod 4) < 64" using r(5) by presburger
  then have bound: "\<not> 4 * length (buffer self) \<le> ?i" using r(1,5) by simp
  let ?buf = "set_byte le (buffer self) ?i b"
  have bytes: "be_byte ?buf i = (blk @ [b]) ! i" if "i < Suc ?l" for i
    using that r(1,5,7) be_byte_set [of ?l "buffer self" i le b] by (auto simp: nth_append less_Suc_eq)
  have off: "buffer_offset self + 1 = of_nat (Suc ?l)" using r(6) by simp
  show ?thesis
  proof (cases "?l < 63")
    case True
    have "unat (of_nat (Suc ?l) :: u8) = Suc ?l" using True by (simp add: unat_of_nat del: of_nat_Suc)
    then have "buffer_offset self + 1 \<noteq> SHA1_BLOCK_LEN" unfolding off SHA1_BLOCK_LEN_def using True by (auto simp del: of_nat_Suc)
    then have "nn_sha1_add le self b = Inr (self\<lparr>buffer := ?buf, buffer_offset := buffer_offset self + 1\<rparr>)"
      unfolding nn_sha1_add_def Let_def r(2) idx if_not_P [OF bound] by simp
    then show ?thesis using True r bytes off by (auto simp: sha1_rep_def)
  next
    case False
    then have l: "?l = 63" using r(5) by simp
    have "\<forall>i<64. be_byte ?buf i = (blk @ [b]) ! i" using bytes l by simp
    then have words: "?buf = words_of (blk @ [b])" using r(1) l by (intro words_of_bytes) simp_all
    have "window 0 ?buf ?buf" using r(1) by (auto simp: window_def W.simps)
    from rounds_fips [OF this, of "(hs ! 0, hs ! 1, hs ! 2, hs ! 3, hs ! 4)"] obtain buf' where
      run: "sha1_rounds 0 ?buf (hs ! 0, hs ! 1, hs ! 2, hs ! 3, hs ! 4) =
        (buf', foldl (fips_step ?buf) (hs ! 0, hs ! 1, hs ! 2, hs ! 3, hs ! 4) [0..<80])" "length buf' = 16" by auto
    have "buffer_offset self + 1 = SHA1_BLOCK_LEN" unfolding off l by (simp add: SHA1_BLOCK_LEN_def)
    then have "nn_sha1_add le self b = Inr (self\<lparr>buffer := buf', hstate := fips_compress hs ?buf, buffer_offset := 0\<rparr>)"
      unfolding nn_sha1_add_def Let_def r(2) idx if_not_P [OF bound]
      using r(3) run(1) by (simp add: fips_compress_def split: prod.split)
    then show ?thesis using False r run(2) words by (auto simp: sha1_rep_def)
  qed
qed

lemma groups_last: "length blk = n - 1 \<Longrightarrow> 0 < n \<Longrightarrow> groups n ((blk @ [b]) @ bs) = (blk @ [b]) # groups n bs"
  by (rule groups_step) simp_all

lemma rest_step: "length g = n \<Longrightarrow> 0 < n \<Longrightarrow> rest n (g @ xs) = rest n xs"
  using rest_cut [of n "g @ xs"] by simp

lemma add_bytes_rep:
  "sha1_rep le self hs blk \<Longrightarrow> \<exists>self'. add_bytes le self bs = Inr self' \<and> bytes_hashed self' = bytes_hashed self
     \<and> sha1_rep le self' (fips_blocks hs (blk @ bs)) (rest 64 (blk @ bs))"
proof (induction bs arbitrary: self hs blk)
  case Nil
  then show ?case by (simp add: fips_blocks_def rest_def sha1_rep_def)
next
  case (Cons b bs)
  from sha1_add_rep [OF Cons.prems, of b] obtain self1 where
    one: "nn_sha1_add le self b = Inr self1" "bytes_hashed self1 = bytes_hashed self"
      "if length blk < 63 then sha1_rep le self1 hs (blk @ [b]) else sha1_rep le self1 (fips_compress hs (words_of (blk @ [b]))) []"
    by blast
  show ?case
  proof (cases "length blk < 63")
    case True
    then show ?thesis using one Cons.IH [of self1 hs "blk @ [b]"] by simp
  next
    case False
    then have l: "length blk = 64 - 1" using Cons.prems by (simp add: sha1_rep_def)
    have "fips_blocks hs (blk @ b # bs) = fips_blocks (fips_compress hs (words_of (blk @ [b]))) bs"
      using groups_last [OF l, of b bs] by (simp add: fips_blocks_def)
    moreover have "rest 64 (blk @ b # bs) = rest 64 bs" using rest_step [of "blk @ [b]" 64 bs] l by simp
    ultimately show ?thesis using False one Cons.IH [of self1 _ "[]"] by auto
  qed
qed

lemma pad_count: "l < 64 \<Longrightarrow> (120 - l) mod 64 = (if l \<le> 56 then 56 - l else 120 - l)" for l :: nat
  by (auto simp: le_mod_geq)

lemma zero_loop_rep:
  assumes "sha1_rep le self hs blk"
  shows "zero_loop le self = add_bytes le self (replicate ((120 - length blk) mod 64) 0)"
  using assms
proof (induction "(120 - length blk) mod 64" arbitrary: self hs blk)
  case 0
  have "length blk < 64" "buffer_offset self = of_nat (length blk)" using 0(2) by (simp_all add: sha1_rep_def)
  moreover have "length blk = 56" using 0(1) calculation(1) by (simp add: pad_count split: if_splits)
  ultimately show ?case by (simp add: zero_loop.simps)
next
  case (Suc k)
  let ?l = "length blk"
  have l: "?l < 64" "buffer_offset self = of_nat ?l" using Suc.prems by (simp_all add: sha1_rep_def)
  have "?l \<noteq> 56" using Suc.hyps(2) by auto
  moreover have "unat (of_nat ?l :: u8) = ?l" using l(1) by (simp add: unat_of_nat)
  ultimately have ne: "buffer_offset self \<noteq> 56" unfolding l(2) by auto
  from sha1_add_rep [OF Suc.prems, of 0] obtain self1 where
    one: "nn_sha1_add le self 0 = Inr self1"
      "if ?l < 63 then sha1_rep le self1 hs (blk @ [0]) else sha1_rep le self1 (fips_compress hs (words_of (blk @ [0]))) []"
    by blast
  define blk' where "blk' = (if ?l < 63 then blk @ [0] else [])"
  obtain hs' where rep: "sha1_rep le self1 hs' blk'" using one(2) unfolding blk'_def by (cases "?l < 63") auto
  have "(120 - length blk') mod 64 = k"
  proof (cases "?l < 63")
    case True
    then show ?thesis
      using Suc.hyps(2) l(1) pad_count [of ?l] pad_count [of "Suc ?l"] by (auto simp: blk'_def split: if_splits)
  next
    case False
    then have "?l = 63" using l(1) by simp
    then show ?thesis using Suc.hyps(2) by (simp add: blk'_def)
  qed
  then have "zero_loop le self1 = add_bytes le self1 (replicate k 0)" using Suc.hyps(1) [OF _ rep] by simp
  then show ?case using ne one(1) Suc.hyps(2) [symmetric] by (simp add: zero_loop.simps [of le self])
qed

lemma add_bytes_append:
  "add_bytes le self (xs @ ys) = (case add_bytes le self xs of Inl e \<Rightarrow> Inl e | Inr self \<Rightarrow> add_bytes le self ys)"
  by (induction xs arbitrary: self) (auto split: sum.split)

text \<open>Counting the bytes first and then adding them is the same as doing both byte by byte.\<close>

fun hash_bytes :: "bool \<Rightarrow> nn_sha1 \<Rightarrow> u8 list \<Rightarrow> nn_sha1 c_result" where
  "hash_bytes le self [] = Inr self"
| "hash_bytes le self (b # bs) = (case nn_sha1_hashbyte le self b of Inl e \<Rightarrow> Inl e | Inr self \<Rightarrow> hash_bytes le self bs)"

lemma sha1_add_count:
  "nn_sha1_add le (self\<lparr>bytes_hashed := n\<rparr>) b =
     (case nn_sha1_add le self b of Inl e \<Rightarrow> Inl e | Inr self \<Rightarrow> Inr (self\<lparr>bytes_hashed := n\<rparr>))"
  by (simp add: nn_sha1_add_def Let_def split: prod.split)

lemma sha1_add_keeps: "nn_sha1_add le self b = Inr self' \<Longrightarrow> bytes_hashed self' = bytes_hashed self"
  by (auto simp: nn_sha1_add_def Let_def split: if_splits prod.splits)

lemma hash_bytes_add:
  "hash_bytes le self bs = add_bytes le (self\<lparr>bytes_hashed := bytes_hashed self + of_nat (length bs)\<rparr>) bs"
proof (induction bs arbitrary: self)
  case (Cons b bs)
  show ?case
  proof (cases "nn_sha1_add le self b")
    case (Inl e) then show ?thesis by (simp add: nn_sha1_hashbyte_def sha1_add_count)
  next
    case (Inr s)
    then show ?thesis using Cons.IH [of "s\<lparr>bytes_hashed := bytes_hashed self + 1\<rparr>"]
      by (simp add: nn_sha1_hashbyte_def sha1_add_count add.assoc)
  qed
qed simp

lemma pad_next: "(120 - (L + 1) mod 64) mod 64 = (119 - L mod 64) mod 64" for L :: nat
  by (simp add: mod_Suc)

lemma swap32_wire: "swap32 w = nn_getl (rev (nn_putl w))"
proof -
  have m: "(0xFF000000 :: u32) = push_bit 24 (mask 8)" "(0x00FF0000 :: u32) = push_bit 16 (mask 8)"
    "(0x0000FF00 :: u32) = push_bit 8 (mask 8)" "(0x000000FF :: u32) = mask 8"
    by (simp_all add: mask_eq_exp_minus_1 push_bit_eq_mult)
  have g: "nn_getl (rev (nn_putl w)) = push_bit 24 (ucast (ucast (w AND 0xff) :: u8))
      OR push_bit 16 (ucast (ucast (drop_bit 8 w AND 0xff) :: u8))
      OR push_bit 8 (ucast (ucast (drop_bit 16 w AND 0xff) :: u8)) OR ucast (ucast (drop_bit 24 w AND 0xff) :: u8)"
    by (simp add: nn_getl_def nn_putl_def)
  show ?thesis unfolding g swap32_def m by (rule bit_word_eqI) (auto simp: bit_simps)
qed

lemma mem_bytes_swap: "mem_bytes le (if le then swap32 w else w) = nn_putl w"
  using nn_putl_getl [of "rev (nn_putl w)"] by (simp add: mem_bytes_def swap32_wire nn_putl_def)

lemma length_bytes:
  fixes n :: u32
  assumes "L < 2 ^ 32" and that: "n = of_nat L"
  shows "[0, 0, 0, ucast (drop_bit 29 n), ucast (drop_bit 21 n), ucast (drop_bit 13 n), ucast (drop_bit 5 n), ucast (push_bit 3 n)]
     = nn_putll (of_nat (8 * L))"
proof -
  have "of_nat L = (ucast n :: u64)"
    using assms that by (simp add: unsigned_of_nat take_bit_nat_eq_self)
  then have eight: "of_nat (8 * L) = (push_bit 3 (ucast n) :: u64)" by (simp add: push_bit_eq_mult)
  have high: "\<not> bit n (53 + k)" "\<not> bit n (45 + k)" "\<not> bit n (37 + k)" for k
    using bit_imp_le_length [of n] by fastforce+
  have m: "(0xff :: u64) = mask 8" by (simp add: mask_eq_exp_minus_1)
  show ?thesis unfolding eight nn_putll_def m
    by (auto intro!: bit_word_eqI simp: bit_simps high)
qed

text \<open>All that is left of \<open>nn_sha1_result\<close> is to add the padding.\<close>

lemma sha1_result_pad:
  assumes rep: "sha1_rep le self hs (rest 64 msg)" and n: "bytes_hashed self = of_nat (length msg)" "length msg < 2 ^ 32"
  shows "\<exists>self'. nn_sha1_result le self = Inr (concat (map nn_putl (fips_blocks hs (rest 64 msg @ drop (length msg) (fips_pad msg)))), self')"
proof -
  let ?z = "replicate ((119 - length msg mod 64) mod 64) (0 :: u8)" and ?len = "nn_putll (of_nat (8 * length msg))"
  have tail: "drop (length msg) (fips_pad msg) = [0x80] @ ?z @ ?len" by (simp add: fips_pad_def)
  from add_bytes_rep [OF rep, of "[0x80]"] obtain s1 where
    s1: "nn_sha1_add le self 0x80 = Inr s1" "sha1_rep le s1 (fips_blocks hs (rest 64 msg @ [0x80])) (rest 64 (rest 64 msg @ [0x80]))"
    by (auto split: sum.splits)
  have "length (rest 64 (rest 64 msg @ [0x80])) = (length msg + 1) mod 64"
    by (simp add: length_rest mod_Suc_eq)
  then have zeros: "zero_loop le s1 = add_bytes le s1 ?z"
    using zero_loop_rep [OF s1(2)] pad_next [of "length msg"] by simp
  from add_bytes_rep [OF rep, of "[0x80] @ ?z @ ?len"] obtain s where
    s: "add_bytes le self ([0x80] @ ?z @ ?len) = Inr s" "sha1_rep le s (fips_blocks hs (rest 64 msg @ [0x80] @ ?z @ ?len)) (rest 64 (rest 64 msg @ [0x80] @ ?z @ ?len))"
    by blast
  then have "add_bytes le s1 (?z @ ?len) = Inr s" using s1(1) by simp
  then obtain s2 where s2: "add_bytes le s1 ?z = Inr s2" "add_bytes le s2 ?len = Inr s"
    by (auto simp: add_bytes_append split: sum.splits)
  have fin: "hstate s = fips_blocks hs (rest 64 msg @ drop (length msg) (fips_pad msg))" "is_little_endian s = le"
    using s(2) unfolding tail by (simp_all add: sha1_rep_def)
  have out: "concat (map (mem_bytes le) (if le then map swap32 h else h)) = concat (map nn_putl h)" for h
    using mem_bytes_swap [of le] by (cases le) (simp_all add: comp_def cong: map_cong)
  have "nn_sha1_result le self = Inr (concat (map (mem_bytes le) (if le then map swap32 (hstate s) else hstate s)),
      if le then s\<lparr>hstate := map swap32 (hstate s)\<rparr> else s)"
    unfolding nn_sha1_result_def Let_def s1(1) sum.case zeros s2(1) length_bytes [OF n(2) n(1)] s2(2) fin(2) by simp
  then show ?thesis unfolding out fin(1) by blast
qed

lemma fips_blocks_append: "fips_blocks h (xs @ ys) = fips_blocks (fips_blocks h xs) (rest 64 xs @ ys)"
  by (simp add: fips_blocks_def groups_append [of 64 xs ys])

lemma sha1_hashed:
  assumes "length buf = 16" and "length msg < 2 ^ 32"
  shows "\<exists>self self'. hash_bytes le (nn_sha1_init le buf) msg = Inr self \<and> nn_sha1_result le self = Inr (fips_sha1 msg, self')"
proof -
  let ?h = "[0x67452301, 0xefcdab89, 0x98badcfe, 0x10325476, 0xc3d2e1f0] :: u32 list"
  let ?s = "(nn_sha1_init le buf)\<lparr>bytes_hashed := of_nat (length msg)\<rparr>"
  have "sha1_rep le ?s ?h []" using assms(1) by (simp add: sha1_rep_def nn_sha1_init_def)
  from add_bytes_rep [OF this, of msg] obtain self where
    self: "add_bytes le ?s msg = Inr self" "bytes_hashed self = of_nat (length msg)"
      "sha1_rep le self (fips_blocks ?h msg) (rest 64 msg)" by auto
  have "hash_bytes le (nn_sha1_init le buf) msg = Inr self"
    using self(1) by (simp add: hash_bytes_add nn_sha1_init_def)
  moreover have "msg @ drop (length msg) (fips_pad msg) = fips_pad msg" by (simp add: fips_pad_def)
  then have "fips_blocks (fips_blocks ?h msg) (rest 64 msg @ drop (length msg) (fips_pad msg)) = fips_blocks ?h (fips_pad msg)"
    by (metis fips_blocks_append)
  ultimately show ?thesis using sha1_result_pad [OF self(3,2) assms(2)] by (simp add: fips_sha1_def)
qed

text \<open>
  Property C8. Hashing any message shorter than 2 to the 32 bytes byte by byte gives its SHA-1 as the standard
  defines it, whatever was in the buffer before and whatever the byte order of the machine.
\<close>
theorem sha1_correct:
  assumes "length buf = 16" and "length msg < 2 ^ 32"
  shows "\<exists>self self'. hash_bytes le (nn_sha1_init le buf) msg = Inr self \<and> nn_sha1_result le self = Inr (fips_sha1 msg, self')"
  using assms by (rule sha1_hashed)

theorem sha1_correct_witness:
  "\<exists>self self'. hash_bytes True (nn_sha1_init True (replicate 16 7)) [97, 98, 99] = Inr self
     \<and> nn_sha1_result True self = Inr (fips_sha1 [97, 98, 99], self')"
  using sha1_correct [of "replicate 16 7" "[97, 98, 99]" True] by simp

section \<open>The accept key of the WebSocket handshake\<close>

definition NN_WS_HANDSHAKE_MAGIC_GUID :: "u8 list" where
  "NN_WS_HANDSHAKE_MAGIC_GUID = map (\<lambda>c. of_nat (of_char c)) ''258EAFA5-E914-47DA-95CA-C5AB0DC85B11''"

definition nn_ws_handshake_hash_key :: "bool \<Rightarrow> u32 list \<Rightarrow> u8 list \<Rightarrow> u8 list \<Rightarrow> (int \<times> u8 list) c_result option" where
  "nn_ws_handshake_hash_key le buf key hashed =
     (case hash_bytes le (nn_sha1_init le buf) key of
        Inl e \<Rightarrow> Some (Inl e)
      | Inr hash \<Rightarrow>
          (case hash_bytes le hash NN_WS_HANDSHAKE_MAGIC_GUID of
             Inl e \<Rightarrow> Some (Inl e)
           | Inr hash \<Rightarrow>
               (case nn_sha1_result le hash of
                  Inl e \<Rightarrow> Some (Inl e)
                | Inr (digest, _) \<Rightarrow> map_option Inr (nn_base64_encode digest hashed))))"

lemma hash_bytes_append:
  "hash_bytes le self (xs @ ys) = (case hash_bytes le self xs of Inl e \<Rightarrow> Inl e | Inr self \<Rightarrow> hash_bytes le self ys)"
  by (induction xs arbitrary: self) (auto split: sum.split)

lemma length_foldl_compress: "length h = 5 \<Longrightarrow> length (foldl fips_compress h Ms) = 5"
  by (induction Ms arbitrary: h) simp_all

lemma length_fips_sha1: "length (fips_sha1 msg) = 20"
proof -
  have "length (concat (map nn_putl h)) = 4 * length h" for h by (induction h) (simp_all add: nn_putl_def)
  then show ?thesis by (simp add: fips_sha1_def fips_blocks_def length_foldl_compress)
qed

text \<open>
  The accept key is the base64 text of the SHA-1 of the key followed by the fixed identifier: 28
  characters and a NUL in a buffer of at least 29 bytes, and \<open>-ENOBUFS\<close> in a smaller one.
\<close>
theorem ws_accept_key_correct:
  assumes "length buf = 16" and "length key + 36 < 2 ^ 32"
  shows "if 28 < length hashed
     then nn_ws_handshake_hash_key le buf key hashed =
       Some (Inr (28, base64 (fips_sha1 (key @ NN_WS_HANDSHAKE_MAGIC_GUID)) @ [0] @ drop 29 hashed))
     else \<exists>out. nn_ws_handshake_hash_key le buf key hashed = Some (Inr (- ENOBUFS, out)) \<and> length out = length hashed"
proof -
  let ?msg = "key @ NN_WS_HANDSHAKE_MAGIC_GUID"
  have "length ?msg < 2 ^ 32" using assms(2) by (simp add: NN_WS_HANDSHAKE_MAGIC_GUID_def)
  from sha1_hashed [OF assms(1) this, of le] obtain self self' where
    h: "hash_bytes le (nn_sha1_init le buf) ?msg = Inr self" "nn_sha1_result le self = Inr (fips_sha1 ?msg, self')" by blast
  have "nn_ws_handshake_hash_key le buf key hashed = map_option Inr (nn_base64_encode (fips_sha1 ?msg) hashed)"
    using h by (auto simp: nn_ws_handshake_hash_key_def hash_bytes_append split: sum.splits)
  then show ?thesis using encode_correct [of "fips_sha1 ?msg" hashed] by (auto simp: length_fips_sha1 split: if_splits)
qed

theorem ws_accept_key_correct_witness:
  "nn_ws_handshake_hash_key True (replicate 16 0) [100, 71, 104, 108] (replicate 29 0) =
     Some (Inr (28, base64 (fips_sha1 ([100, 71, 104, 108] @ NN_WS_HANDSHAKE_MAGIC_GUID)) @ [0]))"
  using ws_accept_key_correct [of "replicate 16 0" "[100, 71, 104, 108]" "replicate 29 0" True] by simp

end
