(* ===== verification/Spec2Isabelle.thy ===== *)
theory Spec2Isabelle
  imports Cache_Limits Server_Props Slab_Props Workload Printing
    Nn_Queue Nn_Hash Nn_Protocols Nn_Msgqueue Nn_Sock Nn_Sha1
begin

text \<open>
  A verification development for cacheBench, a key-value cache with a slab allocator that is served
  over nanomsg sockets, and for the parts of nanomsg that carry its requests.

  \<^bold>\<open>The program.\<close> \<open>workload_sim.c\<close> draws random requests and calls the interface of
  \<open>tools/cache.h\<close>. That interface has two implementations. The client library \<open>client.c\<close> formats a
  request and sends it over a nanomsg PAIR socket; \<open>server.c\<close> receives it, parses it, calls the cache
  and sends a reply. The cache \<open>cache.c\<close> keeps thirty buckets of key records (\<open>tools/tools.c\<close>) in
  linked lists (\<open>tools/list.c\<close>) and the values in entries of one-megabyte slabs (\<open>tools/slabs.c\<close>), and
  evicts by age when memory runs out. Below the socket are the containers, the messages, the pipes,
  the protocols and the socket core of \<open>nanomsg/src\<close>.

  \<^bold>\<open>The model.\<close> A C function is a HOL function of the same name; state is passed in and out. A result of
  type \<open>'a c_result\<close> is either a fault (a read or write out of bounds, a null pointer, a division by
  zero, a failed assertion, the end of the process) or a value, so that the absence of faults is part
  of the theorems. Every access past the end of an object is a fault, with one exception: \<open>create_meta\<close>
  writes the NUL of a key of 32 bytes into the field behind the key, which the next statements
  overwrite, and \<open>full_key_lost\<close> is about what a reader of such a record then sees. The theorems
  without faults are about keys of at most 31 bytes. Machine integers are words of their width; \<open>int\<close> is
  used for C \<open>int\<close> values that stay in a small range. Results of \<open>malloc\<close>, the clock, \<open>rand()\<close>, sockets, transports and other threads are
  arguments, and what is assumed of them is a named hypothesis.

  \<^bold>\<open>Theories of the cache.\<close>
  \<^item> \<open>Prelude\<close>, \<open>Clib\<close>: integers, bytes, C strings, faults; the parts of the C library the program uses.
  \<^item> \<open>Linked_List\<close> (\<open>tools/list.c\<close>): pointer-level operations refined to lists; the locale
    \<open>key_equality\<close> is what the list needs of a comparison.
  \<^item> \<open>Slab_Bits\<close>, \<open>Slabs\<close>, \<open>Slab_Props\<close> (\<open>tools/slabs.c\<close>), with the interface \<open>Allocator_Spec\<close>: entries in
    use never overlap, are large enough, and are handed out again after their release. The allocation
    bits of a slab of the smallest class, 64 bytes, are written past their array, so slabs hold
    values of more than 64 bytes.
  \<^item> \<open>Cache\<close>, \<open>Cache_Inv\<close>, \<open>Cache_Insert\<close>, \<open>Cache_Ops\<close>, \<open>Cache_Limits\<close> (\<open>cache.c\<close>, \<open>tools/tools.c\<close>): the
    state invariant, the finite map the cache stands for, what each operation does to it on each
    return code, and the edges of the size, age and memory checks: keys of 32 bytes, values of at
    most 64 and of more than 2^20 bytes.
  \<^item> \<open>Kv_Spec\<close>, \<open>Cache_Kv\<close>: the contract of a key-value store as a locale, interpreted by the cache; a
    get after any history returns the last value set, or nothing.
  \<^item> \<open>Server\<close>, \<open>Server_Correct\<close>, \<open>Server_Props\<close>, \<open>Client\<close> (\<open>server.c\<close>, \<open>client.c\<close>): what the
    parser makes of each request the client formats, and that the server answers every sequence of
    requests as the contract says; the calls of the socket library and what they deliver are the
    record \<open>socket_lib\<close>, and failed receives are among the deliveries.
  \<^item> \<open>Workload\<close> (\<open>workload_sim.c\<close>) and \<open>Printing\<close>: request generation and the printing functions.

  \<^bold>\<open>Theories of nanomsg.\<close>
  \<^item> \<open>Nn_Errno\<close>, \<open>Nn_Wire\<close>: error numbers; numbers in network byte order.
  \<^item> \<open>Nn_Queue\<close>, \<open>Nn_List\<close>, \<open>Nn_Hash\<close> (\<open>utils/queue.c\<close>, \<open>list.c\<close>, \<open>hash.c\<close>): intrusive containers with
    their pointers, refined to lists and finite maps.
  \<^item> \<open>Nn_Chunk\<close>, \<open>Nn_Msg\<close> (\<open>utils/chunk.c\<close>, \<open>chunkref.c\<close>, \<open>msg.c\<close>): reference-counted chunks on a heap
    of bytes; copies and releases balance.
  \<^item> \<open>Nn_Pipe\<close> (\<open>core/pipe.c\<close>, \<open>protocols/utils/excl.c\<close>, \<open>protocols/pair/xpair.c\<close>): the pipe state
    machine under a PAIR socket as a step relation; with transports that return any documented code,
    an assertion fails exactly on a negative one.
  \<^item> \<open>Nn_Prio\<close>, \<open>Nn_Dist\<close> (\<open>protocols/utils\<close>): priority list, load balancer, fair queue and
    distributor; service by priority for any answers of the transports, service in turn and
    distribution while they report no error.
  \<^item> \<open>Nn_Trie\<close>, \<open>Nn_Trie_Props\<close>, \<open>Nn_Trie_Unsub\<close> (\<open>protocols/pubsub/trie.c\<close>): the subscription trie
    against the number of subscriptions to each string, with the inputs on which it deviates.
  \<^item> \<open>Nn_Protocols\<close>: the raw PUSH, PULL, PUB, SUB and BUS protocols over these schedulers.
  \<^item> \<open>Nn_Msgqueue\<close> (\<open>transports/inproc/msgqueue.c\<close>): a chain of blocks refined to a bounded queue.
  \<^item> \<open>Nn_Sock\<close> (\<open>core/sock.c\<close>): options, signalling, blocking calls and their
    total waiting time, and shutdown with and without a stop function of the protocol.
  \<^item> \<open>Base64_Lists\<close>, \<open>Nn_Base64\<close>, \<open>Nn_Sha1\<close> (\<open>transports/utils/base64.c\<close>, \<open>transports/ws/sha1.c\<close> and
    \<open>nn_ws_handshake_hash_key\<close>): a reference base64 coding against the stream of bits it regroups, the
    routines of the code with their 32-bit counters and their buffer against the reference, the SHA-1
    against the definition of the standard, and the accept key of the WebSocket handshake.

  \<^bold>\<open>Loops.\<close> Loops over pointers are \<open>partial_function (option)\<close>, where \<open>None\<close> is not returning; the
  refinement lemmas prove that they return on well-formed structures, and \<open>resize_keys_diverges\<close> that
  one of them does not. \<open>nn_msgqueue_term\<close> has a bound on its passes, and one more than the number of
  messages is enough (\<open>msgqueue_term_releases\<close>). The loops of \<open>base64.c\<close>
  run for ever when their 32-bit index wraps before the end of the input, and are proved to return for
  texts below 2^31 bytes. The receive loops of the protocols take one answer of a transport per pass; they are proved to return as soon as an acceptable message is among
  the answers. All other recursive functions are total, with a termination proof where the
  recursion is not structural.

  \<^bold>\<open>Interfaces.\<close> \<open>slot_allocator\<close> and \<open>growing_allocator\<close> (slabs), \<open>key_equality\<close> (key records),
  \<open>kv_store\<close> (cache), \<open>fifo_queue\<close> (queue) and \<open>dispatcher\<close> (load balancer and fair queue) are locales, each
  interpreted on the definitions of the model.

  \<^bold>\<open>Not modelled.\<close> Locks and threads: each entry into a socket context is one atomic step, which is what
  the lock of the context provides. The network transports, the polling, the worker threads and the
  wrappers of system calls: their results are arguments. The
  request-reply and survey protocols, the state machines of the in-process transport and the table of
  sockets in \<open>core/global.c\<close>: they are driven by events between contexts, timers and tasks of the
  worker threads. The functions that only allocate
  and initialise a structure with its table of functions, or free it, have no definition of their own.
\<close>

end
